(* ===== verification/Prelude.thy ===== *)
theory Prelude
  imports Complex_Main "HOL-Library.Multiset" "HOL-Library.Word" "HOL-Library.Log_Nat"
begin

text \<open>
  What every component of the platform shares: the theorem collections of the development, Go's
  64-bit integers as \<open>int\<close> with the wrap-around written out, the loop of \<open>sort.Search\<close>, the byte
  strings of package \<open>strings\<close>, instants and durations of package \<open>time\<close>, and the list lemmas the
  component theories use.
\<close>

named_theorems go_int "facts that remove a wrap-around from values in range"
named_theorems go_defs "definitions of small Go helpers that proofs unfold together"

section \<open>Go integers\<close>

text \<open>
  An \<open>int64\<close> (and an \<open>int\<close>, 64 bits wide on the platform's targets) is an \<open>int\<close>; every addition,
  subtraction and product whose result may leave the range goes through \<open>wrap64\<close>.
\<close>

type_synonym int64 = int

definition min_int64 :: int where
  "min_int64 = - (2 ^ 63)"

definition max_int64 :: int where
  "max_int64 = 2 ^ 63 - 1"

definition in_int64 :: "int \<Rightarrow> bool" where
  "in_int64 x \<longleftrightarrow> min_int64 \<le> x \<and> x \<le> max_int64"

definition wrap64 :: "int \<Rightarrow> int64" where
  "wrap64 x = (x + 2 ^ 63) mod 2 ^ 64 - 2 ^ 63"

text \<open>Conversion to \<open>int32\<close> keeps the low 32 bits.\<close>

definition wrap32 :: "int \<Rightarrow> int" where
  "wrap32 x = (x + 2 ^ 31) mod 2 ^ 32 - 2 ^ 31"

lemma wrap64_in_range [simp]: "in_int64 (wrap64 x)"
proof -
  have "(0::int) \<le> (x + 2 ^ 63) mod 2 ^ 64" by simp
  moreover have "(x + 2 ^ 63) mod 2 ^ 64 < (2 ^ 64 :: int)" by simp
  ultimately show ?thesis
    by (simp add: in_int64_def wrap64_def min_int64_def max_int64_def)
qed

lemma wrap64_id [simp, go_int]: "in_int64 x \<Longrightarrow> wrap64 x = x"
  by (simp add: in_int64_def wrap64_def min_int64_def max_int64_def)

lemma wrap32_id [go_int]: "- (2 ^ 31) \<le> x \<Longrightarrow> x < 2 ^ 31 \<Longrightarrow> wrap32 x = x"
  by (simp add: wrap32_def)

lemma in_int64_between: "in_int64 a \<Longrightarrow> in_int64 b \<Longrightarrow> a \<le> x \<Longrightarrow> x \<le> b \<Longrightarrow> in_int64 x"
  by (simp add: in_int64_def)

lemma in_int64_0 [simp]: "in_int64 0"
  by (simp add: in_int64_def min_int64_def max_int64_def)

lemma wrap64_add_left [simp]: "wrap64 (wrap64 x + y) = wrap64 (x + y)"
proof -
  have "((x + 2 ^ 63) mod 2 ^ 64 + y) mod 2 ^ 64 = ((x + 2 ^ 63) + y) mod (2 ^ 64 :: int)"
    by (rule mod_add_left_eq)
  then show ?thesis by (simp add: wrap64_def algebra_simps)
qed

lemma wrap64_add_right [simp]: "wrap64 (x + wrap64 y) = wrap64 (x + y)"
  using wrap64_add_left [of y x] by (simp add: add.commute)

text \<open>A Go integer division truncates towards zero.\<close>

definition go_div :: "int \<Rightarrow> int \<Rightarrow> int" where
  "go_div a b = sgn a * sgn b * (\<bar>a\<bar> div \<bar>b\<bar>)"

definition go_mod :: "int \<Rightarrow> int \<Rightarrow> int" where
  "go_mod a b = a - b * go_div a b"

lemma go_div_nonneg [simp]: "0 \<le> a \<Longrightarrow> 0 < b \<Longrightarrow> go_div a b = a div b"
  by (cases "a = 0") (simp_all add: go_div_def)

lemma go_mod_nonneg [simp]: "0 \<le> a \<Longrightarrow> 0 < b \<Longrightarrow> go_mod a b = a mod b"
  by (simp add: go_mod_def minus_mult_div_eq_mod)

definition min64 :: "int64 \<Rightarrow> int64 \<Rightarrow> int64" where
  "min64 a b = (if a < b then a else b)"

lemma min64_min [simp]: "min64 a b = min a b"
  by (simp add: min64_def)

section \<open>sort.Search\<close>

text \<open>
  The binary search of Go's \<open>sort.Search\<close>: the loop keeps \<open>i \<le> j\<close> and halves the gap. On a predicate
  that is false and then true it returns the first index where it is true.
\<close>

function search_loop :: "(nat \<Rightarrow> bool) \<Rightarrow> nat \<Rightarrow> nat \<Rightarrow> nat" where
  "search_loop f i j =
     (if i < j
      then let h = (i + j) div 2
           in if \<not> f h then search_loop f (Suc h) j else search_loop f i h
      else i)"
  by pat_completeness auto
termination
  by (relation "measure (\<lambda>(f, i, j). j - i)") auto

declare search_loop.simps [simp del]

definition sort_Search :: "nat \<Rightarrow> (nat \<Rightarrow> bool) \<Rightarrow> nat" where
  "sort_Search n f = search_loop f 0 n"

lemma search_loop_first:
  assumes "i \<le> j" "\<And>k l. k \<le> l \<Longrightarrow> l < j \<Longrightarrow> f k \<Longrightarrow> f l" "\<And>k. k < i \<Longrightarrow> \<not> f k"
  shows "search_loop f i j \<le> j \<and> (\<forall>k < search_loop f i j. \<not> f k)
       \<and> (\<forall>k. search_loop f i j \<le> k \<longrightarrow> k < j \<longrightarrow> f k)"
  using assms
proof (induction f i j rule: search_loop.induct)
  case (1 f i j)
  note mono = "1.prems"(2) and below = "1.prems"(3)
  show ?case
  proof (cases "i < j")
    case False
    then have "search_loop f i j = i" by (simp add: search_loop.simps [of f i j])
    with False "1.prems" show ?thesis by auto
  next
    case True
    define h where "h = (i + j) div 2"
    from True have h: "i \<le> h" "h < j" by (auto simp: h_def)
    show ?thesis
    proof (cases "f h")
      case False
      have low: "\<not> f k" if "k < Suc h" for k
        using that False mono [of k h] h by auto
      have "search_loop f i j = search_loop f (Suc h) j"
        using True False by (simp add: search_loop.simps [of f i j] h_def Let_def)
      with "1.IH"(1) [OF True h_def False _ mono low] h show ?thesis by simp
    next
      case fh: True
      have up: "f k" if "h \<le> k" "k < j" for k
        using that mono [of h k] fh by simp
      have eq: "search_loop f i j = search_loop f i h"
        using True fh by (simp add: search_loop.simps [of f i j] h_def Let_def)
      have "search_loop f i h \<le> h \<and> (\<forall>k < search_loop f i h. \<not> f k)
         \<and> (\<forall>k. search_loop f i h \<le> k \<longrightarrow> k < h \<longrightarrow> f k)"
        using "1.IH"(2) [OF True h_def _ h(1) _ below] fh mono h by simp
      with up h eq show ?thesis by (auto simp: not_le)
    qed
  qed
qed

lemma sort_Search_first:
  assumes "\<And>k l. k \<le> l \<Longrightarrow> l < n \<Longrightarrow> f k \<Longrightarrow> f l"
  shows "sort_Search n f \<le> n"
    and "k < sort_Search n f \<Longrightarrow> \<not> f k"
    and "sort_Search n f \<le> k \<Longrightarrow> k < n \<Longrightarrow> f k"
  using search_loop_first [of 0 n f] assms by (auto simp: sort_Search_def)

section \<open>Slices\<close>

text \<open>
  \<open>s = append(s, zero); copy(s[i+1:], s[i:]); s[i] = x\<close> inserts \<open>x\<close> at index \<open>i\<close>;
  \<open>append(s[:i], s[i+1:]...)\<close> removes index \<open>i\<close>; \<open>s[len(s)-n:]\<close> keeps the last \<open>n\<close>.
\<close>

definition slice_insert :: "nat \<Rightarrow> 'a \<Rightarrow> 'a list \<Rightarrow> 'a list" where
  "slice_insert i x xs = take i xs @ x # drop i xs"

definition slice_remove :: "nat \<Rightarrow> 'a list \<Rightarrow> 'a list" where
  "slice_remove i xs = take i xs @ drop (Suc i) xs"

definition take_last :: "nat \<Rightarrow> 'a list \<Rightarrow> 'a list" where
  "take_last n xs = drop (length xs - n) xs"

lemma mset_slice_insert [simp]: "mset (slice_insert i x xs) = add_mset x (mset xs)"
proof -
  have "mset (take i xs) + mset (drop i xs) = mset xs"
    by (metis append_take_drop_id mset_append)
  then show ?thesis by (simp add: slice_insert_def)
qed

lemma set_slice_insert [simp]: "set (slice_insert i x xs) = insert x (set xs)"
  by (metis mset_slice_insert set_mset_add_mset_insert set_mset_mset)

lemma length_take_last [simp]: "length (take_last n xs) = min n (length xs)"
  by (simp add: take_last_def)

lemma take_last_all [simp]: "length xs \<le> n \<Longrightarrow> take_last n xs = xs"
  by (simp add: take_last_def)

lemma set_take_last: "set (take_last n xs) \<subseteq> set xs"
  by (simp add: take_last_def set_drop_subset)

lemma take_last_take_last [simp]: "take_last m (take_last n xs) = take_last (min m n) xs"
  by (cases "n \<le> length xs") (auto simp: take_last_def min_def)

lemma take_last_snoc: "take_last (Suc n) (xs @ [x]) = take_last n xs @ [x]"
  by (simp add: take_last_def Suc_diff_le)

lemma take_last_append_take_last:
  "0 < n \<Longrightarrow> take_last n (take_last n xs @ [x]) = take_last n (xs @ [x])"
  by (cases n) (simp_all add: take_last_snoc)

section \<open>Maps and their iteration\<close>

text \<open>
  A Go map is a partial function with a finite domain. A \<open>range\<close> over it visits every key once, in an
  order the language leaves open: a definition that ranges over a map takes that order as an argument,
  and its theorems hold for every order.
\<close>

definition enumerates :: "'k list \<Rightarrow> ('k \<rightharpoonup> 'v) \<Rightarrow> bool" where
  "enumerates ks m \<longleftrightarrow> distinct ks \<and> set ks = dom m"

definition range_values :: "'k list \<Rightarrow> ('k \<rightharpoonup> 'v) \<Rightarrow> 'v list" where
  "range_values ks m = List.map_filter m ks"

lemma range_values_simps [simp]:
  "range_values [] m = []"
  "range_values (k # ks) m = (case m k of None \<Rightarrow> range_values ks m | Some v \<Rightarrow> v # range_values ks m)"
  by (simp_all add: range_values_def map_filter_simps split: option.splits)

lemma set_range_values: "enumerates ks m \<Longrightarrow> set (range_values ks m) = ran m"
  by (force simp: range_values_def map_filter_def enumerates_def ran_def)

lemma enumerates_empty [simp]: "enumerates [] Map.empty"
  by (simp add: enumerates_def)

section \<open>Decimal numerals\<close>

text \<open>What \<open>%d\<close> prints of a number that is not negative, and of any \<open>int\<close>.\<close>

definition digit :: "nat \<Rightarrow> char" where
  "digit n = char_of (48 + n)"

fun show_nat :: "nat \<Rightarrow> string" where
  "show_nat n = (if n < 10 then [digit n] else show_nat (n div 10) @ [digit (n mod 10)])"

declare show_nat.simps [simp del]

definition show_int :: "int \<Rightarrow> string" where
  "show_int i = (if i < 0 then ''-'' @ show_nat (nat (- i)) else show_nat (nat i))"

text \<open>Reading a numeral back: the printed form is injective.\<close>

definition read_nat :: "string \<Rightarrow> nat" where
  "read_nat = foldl (\<lambda>n c. 10 * n + (of_char c - 48)) 0"

lemma of_char_digit: "n < 10 \<Longrightarrow> (of_char (digit n) :: nat) = 48 + n"
  by (simp add: digit_def of_char_mod_256)

lemma read_show_nat [simp]: "read_nat (show_nat n) = n"
proof (induction n rule: show_nat.induct)
  case (1 n)
  then show ?case
    by (cases "n < 10") (auto simp: show_nat.simps [of n] read_nat_def of_char_digit)
qed

lemma show_nat_inject [simp]: "show_nat m = show_nat n \<longleftrightarrow> m = n"
  by (metis read_show_nat)

lemma show_nat_digits: "c \<in> set (show_nat n) \<Longrightarrow> \<exists>d < 10. c = digit d"
proof (induction n rule: show_nat.induct)
  case (1 n)
  then show ?case by (cases "n < 10") (auto simp: show_nat.simps [of n] intro: exI [of _ "n mod 10"])
qed

section \<open>State kept per key\<close>

text \<open>
  A component that keeps one state per key and routes every event to the key it names. What the state
  at a key is after a stream depends on the events of that key alone.
\<close>

text \<open>
  Each key has a part of the state of its own, and a step acts on every part by itself. \<open>valid\<close> is what a
  step asks of the state it is taken in, such as that a list of keys is the domain of a map.
\<close>

locale pointwise_state =
  fixes step :: "'s \<Rightarrow> 'e \<Rightarrow> 's"
    and state_at :: "'s \<Rightarrow> 'k \<Rightarrow> 'p"
    and local_step :: "'k \<Rightarrow> 'p \<Rightarrow> 'e \<Rightarrow> 'p"
    and valid :: "'s \<Rightarrow> 'e \<Rightarrow> bool"
  assumes step_pointwise: "valid s e \<Longrightarrow> state_at (step s e) k = local_step k (state_at s k) e"
begin

fun valid_run :: "'s \<Rightarrow> 'e list \<Rightarrow> bool" where
  "valid_run s [] = True"
| "valid_run s (e # es) = (valid s e \<and> valid_run (step s e) es)"

lemma run_pointwise: "valid_run s es \<Longrightarrow> state_at (foldl step s es) k = foldl (local_step k) (state_at s k) es"
  by (induction es arbitrary: s) (auto simp: step_pointwise)

end

text \<open>The special case of a step that names the one key it acts on.\<close>

locale keyed_state =
  fixes step :: "'s \<Rightarrow> 'e \<Rightarrow> 's"
    and state_at :: "'s \<Rightarrow> 'k \<Rightarrow> 'p"
    and key_of :: "'e \<Rightarrow> 'k option"
    and local_step :: "'p \<Rightarrow> 'e \<Rightarrow> 'p"
  assumes step_at: "key_of e = Some k \<Longrightarrow> state_at (step s e) k = local_step (state_at s k) e"
    and step_elsewhere: "key_of e \<noteq> Some k \<Longrightarrow> state_at (step s e) k = state_at s k"
begin

lemma run_at: "state_at (foldl step s es) k = foldl local_step (state_at s k) (filter (\<lambda>e. key_of e = Some k) es)"
  by (induction es arbitrary: s) (auto simp: step_at step_elsewhere)

lemma run_isolated:
  "filter (\<lambda>e. key_of e = Some k) es = filter (\<lambda>e. key_of e = Some k) es' \<Longrightarrow>
     state_at (foldl step s es) k = state_at (foldl step s es') k"
  by (simp add: run_at)

lemma run_untouched: "\<forall>e \<in> set es. key_of e \<noteq> Some k \<Longrightarrow> state_at (foldl step s es) k = state_at s k"
  by (simp add: run_at filter_False)

end

sublocale keyed_state \<subseteq> pointwise: pointwise_state step state_at
    "\<lambda>k p e. if key_of e = Some k then local_step p e else p" "\<lambda>_ _. True"
  by unfold_locales (auto simp: step_at step_elsewhere)

end
