(* ===== verification/GoFloat.thy ===== *)
theory GoFloat
  imports Prelude
begin

text \<open>
  Go's \<open>float64\<close>: the IEEE 754 binary64 values, with addition, subtraction, product and quotient
  rounded to nearest, ties to even, and the comparisons that are false on NaN. A finite value is
  the rational it denotes, so the operations are executable. The two zeros are one value, which is
  how every comparison of the code sees them. No multiplication is fused with an addition, which is
  what the compiler emits for amd64.
\<close>

section \<open>Values and their order\<close>

datatype f64 = NInf | Fin rat | PInf | NaN

text \<open>
  The order instance is IEEE 754's total order, with NaN above everything: it is what sorting
  arguments use. Go's own comparisons are \<open>flt\<close>, \<open>fle\<close>, \<open>feq\<close> below.
\<close>

instantiation f64 :: linorder
begin

fun less_eq_f64 :: "f64 \<Rightarrow> f64 \<Rightarrow> bool" where
  "less_eq_f64 NInf _ = True"
| "less_eq_f64 (Fin a) NInf = False"
| "less_eq_f64 (Fin a) (Fin b) = (a \<le> b)"
| "less_eq_f64 (Fin a) PInf = True"
| "less_eq_f64 (Fin a) NaN = True"
| "less_eq_f64 PInf PInf = True"
| "less_eq_f64 PInf NaN = True"
| "less_eq_f64 PInf _ = False"
| "less_eq_f64 NaN NaN = True"
| "less_eq_f64 NaN _ = False"

definition less_f64 :: "f64 \<Rightarrow> f64 \<Rightarrow> bool" where
  "less_f64 a b \<longleftrightarrow> a \<le> b \<and> \<not> b \<le> a"

instance
proof
  fix x y z :: f64
  show "x < y \<longleftrightarrow> x \<le> y \<and> \<not> y \<le> x" by (simp add: less_f64_def)
  show "x \<le> x" by (cases x) simp_all
  show "x \<le> y \<Longrightarrow> y \<le> z \<Longrightarrow> x \<le> z" by (cases x; cases y; cases z) simp_all
  show "x \<le> y \<Longrightarrow> y \<le> x \<Longrightarrow> x = y" by (cases x; cases y) simp_all
  show "x \<le> y \<or> y \<le> x" by (cases x; cases y) auto
qed

end

definition flt :: "f64 \<Rightarrow> f64 \<Rightarrow> bool" where
  "flt a b \<longleftrightarrow> a \<noteq> NaN \<and> b \<noteq> NaN \<and> a < b"

definition fle :: "f64 \<Rightarrow> f64 \<Rightarrow> bool" where
  "fle a b \<longleftrightarrow> a \<noteq> NaN \<and> b \<noteq> NaN \<and> a \<le> b"

definition feq :: "f64 \<Rightarrow> f64 \<Rightarrow> bool" where
  "feq a b \<longleftrightarrow> a \<noteq> NaN \<and> b \<noteq> NaN \<and> a = b"

lemma flt_not_NaN [simp]: "a \<noteq> NaN \<Longrightarrow> b \<noteq> NaN \<Longrightarrow> flt a b \<longleftrightarrow> a < b"
  by (simp add: flt_def)

lemma fle_not_NaN [simp]: "a \<noteq> NaN \<Longrightarrow> b \<noteq> NaN \<Longrightarrow> fle a b \<longleftrightarrow> a \<le> b"
  by (simp add: fle_def)

lemma feq_not_NaN [simp]: "a \<noteq> NaN \<Longrightarrow> b \<noteq> NaN \<Longrightarrow> feq a b \<longleftrightarrow> a = b"
  by (simp add: feq_def)

lemma Fin_less [simp]: "Fin a < Fin b \<longleftrightarrow> a < b"
  by (auto simp: less_f64_def)

lemma f64_less_simps [simp]:
  "NInf < Fin a" "Fin a < PInf" "NInf < PInf" "\<not> Fin a < NInf" "\<not> PInf < Fin a" "\<not> PInf < NInf"
  by (simp_all add: less_f64_def)

lemma PInf_le_iff: "PInf \<le> x \<longleftrightarrow> x = PInf \<or> x = NaN"
  by (cases x) simp_all

lemma le_PInf [simp]: "x \<le> PInf \<longleftrightarrow> x \<noteq> NaN"
  by (cases x) simp_all

lemma le_NInf_iff: "x \<le> NInf \<longleftrightarrow> x = NInf"
  by (cases x) simp_all

section \<open>Rounding\<close>

definition pow2 :: "int \<Rightarrow> rat" where
  "pow2 e = (if 0 \<le> e then 2 ^ nat e else 1 / 2 ^ nat (- e))"

lemma pow2_pos [simp]: "0 < pow2 e"
  by (simp add: pow2_def)

lemma pow2_nonzero [simp]: "pow2 e \<noteq> 0"
  using pow2_pos [of e] by (metis less_irrefl)

lemma pow2_powi: "pow2 e = 2 powi e"
  by (simp add: pow2_def power_int_def inverse_eq_divide power_one_over)

lemma pow2_add: "pow2 (a + b) = pow2 a * pow2 b"
  by (simp add: pow2_powi power_int_add)

lemma pow2_mono: "a \<le> b \<Longrightarrow> pow2 a \<le> pow2 b"
  by (simp add: pow2_powi power_int_increasing)

lemma pow2_diff: "pow2 (a - b) = pow2 a / pow2 b"
  by (simp add: pow2_powi power_int_diff)

lemma pow2_less_cancel: "pow2 a < pow2 b \<Longrightarrow> a < b"
  using pow2_mono by (meson leD not_le)

lemma pow2_int: "0 \<le> e \<Longrightarrow> \<exists>n. pow2 e = of_int n \<and> 0 < n"
  by (rule exI [of _ "2 ^ nat e"]) (simp add: pow2_def)

text \<open>The exponent of the leading bit of a positive rational.\<close>

definition ilog2 :: "rat \<Rightarrow> int" where
  "ilog2 x = (let (p, q) = quotient_of x; k = bitlen p - bitlen q
              in if pow2 k \<le> x then k else k - 1)"

lemma bitlen_pow2:
  assumes "0 < p"
  shows "pow2 (bitlen p - 1) \<le> of_int p" "of_int p < pow2 (bitlen p)"
proof -
  from bitlen_bounds [OF assms]
  have *: "2 ^ nat (bitlen p - 1) \<le> p" "p < 2 ^ nat (bitlen p)" by auto
  have b: "0 < bitlen p" using * assms by (cases "0 < bitlen p") simp_all
  from *(1) have "(of_int (2 ^ nat (bitlen p - 1)) :: rat) \<le> of_int p" by (simp only: of_int_le_iff)
  with b show "pow2 (bitlen p - 1) \<le> of_int p" by (simp add: pow2_def)
  from *(2) have "of_int p < (of_int (2 ^ nat (bitlen p)) :: rat)" by (simp only: of_int_less_iff)
  with b show "of_int p < pow2 (bitlen p)" by (simp add: pow2_def)
qed

lemma ilog2_bounds:
  assumes "0 < x"
  shows "pow2 (ilog2 x) \<le> x" "x < pow2 (ilog2 x + 1)"
proof -
  obtain p q where pq: "quotient_of x = (p, q)" by (cases "quotient_of x")
  have q: "0 < q" using quotient_of_denom_pos [OF pq] .
  have x: "x = of_int p / of_int q" using quotient_of_div [OF pq] .
  with q assms have p: "0 < p" by (simp add: zero_less_divide_iff)
  define k where "k = bitlen p - bitlen q"
  note bp = bitlen_pow2 [OF p] and bq = bitlen_pow2 [OF q]
  have "pow2 (bitlen p - 1) / pow2 (bitlen q) \<le> of_int p / of_int q"
    using bp(1) bq(2) p q by (intro frac_le) auto
  then have lo: "pow2 (k - 1) \<le> x"
    by (simp add: x k_def pow2_diff [symmetric] algebra_simps)
  have "of_int p / of_int q < pow2 (bitlen p) / pow2 (bitlen q - 1)"
    using bp(2) bq(1) p by (intro frac_less) auto
  then have hi: "x < pow2 (k + 1)"
    by (simp add: x k_def pow2_diff [symmetric] algebra_simps)
  have il: "ilog2 x = (if pow2 k \<le> x then k else k - 1)"
    by (simp add: ilog2_def pq k_def)
  show "pow2 (ilog2 x) \<le> x" "x < pow2 (ilog2 x + 1)"
    using lo hi by (auto simp: il)
qed

lemma ilog2_mono:
  assumes "0 < x" "x \<le> y"
  shows "ilog2 x \<le> ilog2 y"
proof -
  have "pow2 (ilog2 x) < pow2 (ilog2 y + 1)"
    using ilog2_bounds(1) [OF assms(1)] ilog2_bounds(2) [of y] assms by linarith
  then show ?thesis using pow2_less_cancel by fastforce
qed

text \<open>Nearest integer, ties to the even one.\<close>

definition rnd_int :: "rat \<Rightarrow> int" where
  "rnd_int x = (let n = \<lfloor>x\<rfloor>; d = x - of_int n
                in if d < 1 / 2 then n else if 1 / 2 < d then n + 1
                   else if even n then n else n + 1)"

lemma rnd_int_of_int [simp]: "rnd_int (of_int n) = n"
  by (simp add: rnd_int_def)

lemma rnd_int_eqI:
  assumes "\<bar>x - of_int m\<bar> < 1 / 2 \<or> \<bar>x - of_int m\<bar> = 1 / 2 \<and> even m"
  shows "rnd_int x = m"
proof (cases "of_int m \<le> x")
  case True
  with assms have "\<lfloor>x\<rfloor> = m" by (auto simp: floor_eq_iff)
  with assms True show ?thesis by (auto simp: rnd_int_def)
next
  case False
  with assms have f: "\<lfloor>x\<rfloor> = m - 1" by (auto simp: floor_eq_iff)
  with assms False show ?thesis by (auto simp: rnd_int_def)
qed

lemma rnd_int_floor: "\<lfloor>x\<rfloor> \<le> rnd_int x" "rnd_int x \<le> \<lfloor>x\<rfloor> + 1"
  by (simp_all add: rnd_int_def Let_def)

lemma rnd_int_mono:
  assumes "x \<le> y"
  shows "rnd_int x \<le> rnd_int y"
proof (cases "\<lfloor>x\<rfloor> = \<lfloor>y\<rfloor>")
  case True
  with assms show ?thesis by (auto simp: rnd_int_def Let_def)
next
  case False
  with floor_mono [OF assms] have "\<lfloor>x\<rfloor> + 1 \<le> \<lfloor>y\<rfloor>" by simp
  with rnd_int_floor(2) [of x] rnd_int_floor(1) [of y] show ?thesis by linarith
qed

definition ulp :: "rat \<Rightarrow> rat" where
  "ulp x = pow2 (max (ilog2 x - 52) (- 1074))"

definition rnd_pos :: "rat \<Rightarrow> rat" where
  "rnd_pos x = of_int (rnd_int (x / ulp x)) * ulp x"

definition rnd :: "rat \<Rightarrow> rat" where
  "rnd x = (if x = 0 then 0 else if 0 < x then rnd_pos x else - rnd_pos (- x))"

lemma ulp_pos [simp]: "0 < ulp x"
  by (simp add: ulp_def)

lemma ulp_nonneg [simp]: "0 \<le> ulp x"
  by (simp add: order_less_imp_le)

lemma rnd_pos_nonneg: "0 < x \<Longrightarrow> 0 \<le> rnd_pos x"
proof -
  assume "0 < x"
  then have "0 \<le> x / ulp x" by (simp add: order_less_imp_le)
  then have "0 \<le> rnd_int (x / ulp x)" using rnd_int_mono rnd_int_of_int of_int_0 by metis
  then show ?thesis using ulp_pos [of x] by (simp add: rnd_pos_def)
qed

text \<open>Rounding does not cross a grid point: a multiple of the unit above stays above.\<close>

lemma rnd_pos_le_grid: "0 < x \<Longrightarrow> x \<le> of_int n * ulp x \<Longrightarrow> rnd_pos x \<le> of_int n * ulp x"
proof -
  assume "0 < x" "x \<le> of_int n * ulp x"
  then have "x / ulp x \<le> of_int n" by (simp add: divide_le_eq)
  then have "rnd_int (x / ulp x) \<le> n" using rnd_int_mono rnd_int_of_int by metis
  then show ?thesis by (simp add: rnd_pos_def mult_right_mono)
qed

lemma rnd_pos_ge_grid: "0 < x \<Longrightarrow> of_int n * ulp x \<le> x \<Longrightarrow> of_int n * ulp x \<le> rnd_pos x"
proof -
  assume "0 < x" "of_int n * ulp x \<le> x"
  then have "of_int n \<le> x / ulp x" by (simp add: le_divide_eq)
  then have "n \<le> rnd_int (x / ulp x)" using rnd_int_mono rnd_int_of_int by metis
  then show ?thesis by (simp add: rnd_pos_def mult_right_mono)
qed

lemma rnd_pos_mono:
  assumes "0 < x" "x \<le> y"
  shows "rnd_pos x \<le> rnd_pos y"
proof (cases "ulp x = ulp y")
  case True
  with assms have "x / ulp x \<le> y / ulp y" using ulp_pos [of y] by (simp add: divide_right_mono)
  then show ?thesis using True by (simp add: rnd_pos_def rnd_int_mono mult_right_mono)
next
  case False
  define ex ey where "ex = max (ilog2 x - 52) (- 1074)" and "ey = max (ilog2 y - 52) (- 1074)"
  have u: "ulp x = pow2 ex" "ulp y = pow2 ey" by (simp_all add: ulp_def ex_def ey_def)
  have "ilog2 x \<le> ilog2 y" using ilog2_mono assms by blast
  then have "ex \<le> ey" by (simp add: ex_def ey_def)
  with False have lt: "ex < ey" by (cases "ex = ey") (simp_all add: u)
  then have ey: "ey = ilog2 y - 52" and iy: "ilog2 x + 1 \<le> ilog2 y"
    by (auto simp: ex_def ey_def)
  have gx: "0 \<le> ilog2 y - ex" using lt ey by simp
  then obtain n where n: "pow2 (ilog2 y - ex) = of_int n" using pow2_int by blast
  then have n': "of_int n * ulp x = pow2 (ilog2 y)"
    using pow2_add [of "ilog2 y - ex" ex] by (simp add: u)
  have m: "of_int (2 ^ 52) * ulp y = pow2 (ilog2 y)"
    using pow2_add [of 52 ey] by (simp add: u ey pow2_def [of 52])
  have "x < pow2 (ilog2 x + 1)" using ilog2_bounds assms by simp
  also have "\<dots> \<le> pow2 (ilog2 y)" using iy by (rule pow2_mono)
  finally have "rnd_pos x \<le> pow2 (ilog2 y)"
    using rnd_pos_le_grid [OF assms(1), of n] n' by simp
  also have "\<dots> \<le> rnd_pos y"
    using rnd_pos_ge_grid [of y "2 ^ 52"] ilog2_bounds(1) [of y] m assms by simp
  finally show ?thesis .
qed

lemma rnd_0 [simp]: "rnd 0 = 0"
  by (simp add: rnd_def)

lemma rnd_minus: "rnd (- x) = - rnd x"
  by (auto simp: rnd_def)

lemma rnd_mono: "x \<le> y \<Longrightarrow> rnd x \<le> rnd y"
  using rnd_pos_mono [of x y] rnd_pos_mono [of "- y" "- x"] rnd_pos_nonneg [of y] rnd_pos_nonneg [of "- x"]
  by (auto simp: rnd_def not_less)

lemma rnd_nonneg: "0 \<le> x \<Longrightarrow> 0 \<le> rnd x"
  using rnd_mono [of 0 x] by simp

text \<open>Integers below \<open>2\<^sup>5\<^sup>3\<close> are exact.\<close>

lemma rnd_pos_of_int:
  assumes "0 < n" "n < 2 ^ 53"
  shows "rnd_pos (of_int n) = of_int n"
proof -
  let ?x = "of_int n :: rat"
  have x: "0 < ?x" using assms by simp
  have "pow2 (ilog2 ?x) \<le> ?x" by (rule ilog2_bounds(1) [OF x])
  also have "?x < pow2 53" using assms by (simp add: pow2_def)
  finally have "ilog2 ?x < 53" by (rule pow2_less_cancel)
  then have e: "0 \<le> - max (ilog2 ?x - 52) (- 1074)" by simp
  then obtain m where "pow2 (- max (ilog2 ?x - 52) (- 1074)) = of_int m" using pow2_int by blast
  then have "?x / ulp ?x = of_int (n * m)"
    using pow2_diff [of 0 "max (ilog2 ?x - 52) (- 1074)"] by (simp add: ulp_def pow2_def [of 0])
  then show ?thesis
    by (metis nonzero_eq_divide_eq order_less_irrefl rnd_int_of_int rnd_pos_def ulp_pos)
qed

lemma rnd_of_int:
  assumes "\<bar>n\<bar> < 2 ^ 53"
  shows "rnd (of_int n) = of_int n"
  using rnd_pos_of_int [of n] rnd_pos_of_int [of "- n"] assms by (simp add: rnd_def not_less)

section \<open>Operations\<close>

definition f64_of_rat :: "rat \<Rightarrow> f64" where
  "f64_of_rat x = (let r = rnd x
     in if 2 ^ 1024 \<le> r then PInf else if r \<le> - (2 ^ 1024) then NInf else Fin r)"

definition f64_of_int :: "int \<Rightarrow> f64" where
  "f64_of_int n = f64_of_rat (of_int n)"

lemma f64_of_rat_not_NaN [simp]: "f64_of_rat x \<noteq> NaN"
  by (simp add: f64_of_rat_def Let_def)

lemma f64_of_int_not_NaN [simp]: "f64_of_int x \<noteq> NaN"
  by (simp add: f64_of_int_def)

lemma f64_of_rat_mono: "x \<le> y \<Longrightarrow> f64_of_rat x \<le> f64_of_rat y"
  using rnd_mono [of x y] by (auto simp: f64_of_rat_def Let_def)

lemma f64_of_rat_0 [simp]: "f64_of_rat 0 = Fin 0"
  by (simp add: f64_of_rat_def)

lemma f64_of_int_exact:
  assumes "\<bar>n\<bar> < 2 ^ 53"
  shows "f64_of_int n = Fin (of_int n)"
proof -
  have "of_int \<bar>n\<bar> < (of_int (2 ^ 53) :: rat)" using assms by (simp only: of_int_less_iff)
  also have "\<dots> < 2 ^ 1024" by simp
  finally have "\<bar>of_int n\<bar> < (2 ^ 1024 :: rat)" by simp
  then show ?thesis using rnd_of_int [OF assms]
    by (simp add: f64_of_int_def f64_of_rat_def abs_less_iff)
qed

lemma f64_of_int_mono: "m \<le> n \<Longrightarrow> f64_of_int m \<le> f64_of_int n"
  by (simp add: f64_of_int_def f64_of_rat_mono)

text \<open>A certificate for evaluating a rounding: the exponent and the 53-bit significand.\<close>

lemma ilog2_eqI:
  assumes "pow2 k \<le> x" "x < pow2 (k + 1)"
  shows "ilog2 x = k"
proof -
  have x: "0 < x" using assms(1) pow2_pos [of k] by linarith
  have "pow2 k < pow2 (ilog2 x + 1)" "pow2 (ilog2 x) < pow2 (k + 1)"
    using ilog2_bounds [OF x] assms by linarith+
  then have "k < ilog2 x + 1" "ilog2 x < k + 1" by (blast intro: pow2_less_cancel)+
  then show ?thesis by simp
qed

lemma f64_of_rat_eval:
  assumes "pow2 k \<le> x" "x < pow2 (k + 1)" "- 1022 \<le> k" "k < 1023"
    and near: "\<bar>x * pow2 (52 - k) - of_int m\<bar> < 1 / 2
             \<or> \<bar>x * pow2 (52 - k) - of_int m\<bar> = 1 / 2 \<and> even m"
  shows "f64_of_rat x = Fin (of_int m * pow2 (k - 52))"
proof -
  have x: "0 < x" using assms(1) pow2_pos [of k] by linarith
  have u: "ulp x = pow2 (k - 52)" using assms by (simp add: ulp_def ilog2_eqI)
  have q: "x / ulp x = x * pow2 (52 - k)" by (simp add: u pow2_diff)
  from near have m: "rnd_int (x * pow2 (52 - k)) = m" by (rule rnd_int_eqI)
  have r: "rnd x = of_int m * pow2 (k - 52)"
    using x m q by (simp add: rnd_def rnd_pos_def u)
  have g: "of_int (2 ^ 53) * ulp x = pow2 (k + 1)"
    using pow2_add [of 53 "k - 52"] by (simp add: u pow2_def [of 53] add.commute)
  then have "rnd_pos x \<le> pow2 (k + 1)"
    using rnd_pos_le_grid [OF x, of "2 ^ 53"] assms(2) by simp
  also have "\<dots> \<le> pow2 1023" using assms(4) by (intro pow2_mono) simp
  also have "\<dots> < 2 ^ 1024" by (simp add: pow2_def)
  finally have "rnd x < 2 ^ 1024" using x by (simp add: rnd_def)
  moreover have "0 \<le> rnd x" using rnd_nonneg x by simp
  then have "\<not> rnd x \<le> - (2 ^ 1024)" by simp
  ultimately show ?thesis by (simp add: f64_of_rat_def r)
qed

fun fneg :: "f64 \<Rightarrow> f64" where
  "fneg NInf = PInf"
| "fneg (Fin a) = Fin (- a)"
| "fneg PInf = NInf"
| "fneg NaN = NaN"

fun fadd :: "f64 \<Rightarrow> f64 \<Rightarrow> f64" where
  "fadd (Fin a) (Fin b) = f64_of_rat (a + b)"
| "fadd (Fin a) y = y"
| "fadd PInf (Fin b) = PInf"
| "fadd PInf PInf = PInf"
| "fadd NInf (Fin b) = NInf"
| "fadd NInf NInf = NInf"
| "fadd _ _ = NaN"

definition fsub :: "f64 \<Rightarrow> f64 \<Rightarrow> f64" where
  "fsub a b = fadd a (fneg b)"

definition inf_signed :: "bool \<Rightarrow> f64" where
  "inf_signed neg = (if neg then NInf else PInf)"

fun fmul :: "f64 \<Rightarrow> f64 \<Rightarrow> f64" where
  "fmul (Fin a) (Fin b) = f64_of_rat (a * b)"
| "fmul NaN _ = NaN"
| "fmul _ NaN = NaN"
| "fmul (Fin a) PInf = (if a = 0 then NaN else inf_signed (a < 0))"
| "fmul (Fin a) NInf = (if a = 0 then NaN else inf_signed (0 < a))"
| "fmul PInf (Fin b) = (if b = 0 then NaN else inf_signed (b < 0))"
| "fmul NInf (Fin b) = (if b = 0 then NaN else inf_signed (0 < b))"
| "fmul PInf PInf = PInf"
| "fmul NInf NInf = PInf"
| "fmul PInf NInf = NInf"
| "fmul NInf PInf = NInf"

fun fdiv :: "f64 \<Rightarrow> f64 \<Rightarrow> f64" where
  "fdiv (Fin a) (Fin b) =
     (if b = 0 then (if a = 0 then NaN else inf_signed (a < 0)) else f64_of_rat (a / b))"
| "fdiv NaN _ = NaN"
| "fdiv _ NaN = NaN"
| "fdiv (Fin a) _ = Fin 0"
| "fdiv PInf (Fin b) = inf_signed (b < 0)"
| "fdiv NInf (Fin b) = inf_signed (\<not> b < 0)"
| "fdiv _ _ = NaN"

text \<open>
  \<open>math.Round\<close> rounds half away from zero; \<open>int64(x)\<close> truncates, and out of range it is the value
  amd64's conversion instruction gives.
\<close>

fun math_Round :: "f64 \<Rightarrow> f64" where
  "math_Round (Fin a) = Fin (of_int (if a < 0 then - \<lfloor>- a + 1 / 2\<rfloor> else \<lfloor>a + 1 / 2\<rfloor>))"
| "math_Round x = x"

fun int64_of_f64 :: "f64 \<Rightarrow> int64" where
  "int64_of_f64 (Fin a) =
     (let t = (if a < 0 then - \<lfloor>- a\<rfloor> else \<lfloor>a\<rfloor>) in if in_int64 t then t else min_int64)"
| "int64_of_f64 _ = min_int64"

lemma fadd_mono:
  assumes "a \<le> a'" "b \<le> b'" "fadd a b \<noteq> NaN" "fadd a' b' \<noteq> NaN"
  shows "fadd a b \<le> fadd a' b'"
  using assms f64_of_rat_mono
  by (cases a; cases b; cases a'; cases b') (auto simp: add_mono PInf_le_iff)

lemma fmul_Fin_mono:
  "0 \<le> w \<Longrightarrow> a \<le> b \<Longrightarrow> fmul (Fin w) (Fin a) \<le> fmul (Fin w) (Fin b)"
  by (simp add: f64_of_rat_mono mult_left_mono)

lemma fneg_mono: "a \<noteq> NaN \<Longrightarrow> b \<noteq> NaN \<Longrightarrow> a \<le> b \<Longrightarrow> fneg b \<le> fneg a"
  by (cases a; cases b) auto

lemma math_Round_mono: "a \<le> b \<Longrightarrow> math_Round a \<le> math_Round b"
proof (cases a; cases b)
  fix x y assume ab: "a = Fin x" "b = Fin y" and "a \<le> b"
  then have xy: "x \<le> y" by simp
  then have f: "\<lfloor>x + 1 / 2\<rfloor> \<le> \<lfloor>y + 1 / 2\<rfloor>" "\<lfloor>- y + 1 / 2\<rfloor> \<le> \<lfloor>- x + 1 / 2\<rfloor>"
    by (auto intro!: floor_mono)
  have g: "0 \<le> \<lfloor>- x + 1 / 2\<rfloor>" if "x < 0" using that by (simp add: le_floor_iff)
  have h: "0 \<le> \<lfloor>y + 1 / 2\<rfloor>" if "\<not> y < 0" using that by (simp add: le_floor_iff)
  show ?thesis
  proof (cases "x < 0 \<and> \<not> y < 0")
    case True
    then have "- \<lfloor>- x + 1 / 2\<rfloor> \<le> \<lfloor>y + 1 / 2\<rfloor>" using g h by linarith
    with True show ?thesis by (simp add: ab)
  next
    case False
    with xy f show ?thesis by (auto simp: ab)
  qed
qed auto

section \<open>The unit interval\<close>

lemma f64_of_rat_1 [simp]: "f64_of_rat 1 = Fin 1"
  using f64_of_int_exact [of 1] by (simp add: f64_of_int_def)

lemma f64_of_rat_unit:
  assumes "0 \<le> x" "x \<le> 1"
  obtains r where "f64_of_rat x = Fin r" "0 \<le> r" "r \<le> 1"
proof -
  have "Fin 0 \<le> f64_of_rat x" "f64_of_rat x \<le> Fin 1"
    using f64_of_rat_mono [OF assms(1)] f64_of_rat_mono [OF assms(2)] by simp_all
  then show ?thesis using that by (cases "f64_of_rat x") auto
qed

lemma f64_eps: "f64_of_rat (1 / 2 ^ 53) = Fin (1 / 2 ^ 53)"
  by (subst f64_of_rat_eval [where k = "- 53" and m = "2 ^ 52"]) (simp_all add: pow2_def)

lemma f64_below_1: "f64_of_rat (1 - 1 / 2 ^ 53) = Fin (1 - 1 / 2 ^ 53)"
  by (subst f64_of_rat_eval [where k = "- 1" and m = "2 ^ 53 - 1"]) (simp_all add: pow2_def)

text \<open>
  One minus a fraction of counts below \<open>2\<^sup>5\<^sup>3\<close>, as Go computes it, stays in the unit interval and is
  one only when the count above the line is zero.
\<close>

lemma one_minus_ratio:
  assumes "0 \<le> m" "m \<le> t" "0 < t" "t < 2 ^ 53"
  obtains r where "fsub (Fin 1) (fdiv (f64_of_int m) (f64_of_int t)) = Fin r"
    "0 \<le> r" "r \<le> 1" "r = 1 \<longleftrightarrow> m = 0"
proof -
  have x: "0 \<le> rat_of_int m / of_int t" "rat_of_int m / of_int t \<le> 1"
    using assms by (simp_all add: divide_le_eq)
  then obtain q where q: "f64_of_rat (of_int m / of_int t) = Fin q" "0 \<le> q" "q \<le> 1"
    using f64_of_rat_unit by blast
  have c: "fsub (Fin 1) (fdiv (f64_of_int m) (f64_of_int t)) = f64_of_rat (1 - q)"
    using assms q(1) by (simp add: fsub_def f64_of_int_exact)
  obtain r where r: "f64_of_rat (1 - q) = Fin r" "0 \<le> r" "r \<le> 1"
    using f64_of_rat_unit [of "1 - q"] q by auto
  have zero: "r = 1" if "m = 0" using that q r by simp
  have pos: "r < 1" if "m \<noteq> 0"
  proof -
    have "1 / 2 ^ 53 \<le> 1 / rat_of_int t" "1 / rat_of_int t \<le> of_int m / of_int t"
      using assms that by (auto simp: frac_le divide_right_mono)
    then have "f64_of_rat (1 / 2 ^ 53) \<le> f64_of_rat (of_int m / of_int t)"
      by (intro f64_of_rat_mono) linarith
    then have "1 / 2 ^ 53 \<le> q" by (simp only: q f64_eps less_eq_f64.simps)
    then have "f64_of_rat (1 - q) \<le> f64_of_rat (1 - 1 / 2 ^ 53)"
      by (intro f64_of_rat_mono) linarith
    then have "r \<le> 1 - 1 / 2 ^ 53" by (simp only: r f64_below_1 less_eq_f64.simps)
    then show ?thesis by (rule order_le_less_trans) simp
  qed
  from zero pos have "r = 1 \<longleftrightarrow> m = 0" by (cases "m = 0") auto
  with that [of r] c r show ?thesis by simp
qed

text \<open>A rounding that stays below a value that is exact.\<close>

lemma f64_of_rat_upto:
  assumes "f64_of_rat y = Fin m" "0 \<le> x" "x \<le> y"
  obtains r where "f64_of_rat x = Fin r" "0 \<le> r" "r \<le> m"
proof -
  have "Fin 0 \<le> f64_of_rat x" "f64_of_rat x \<le> Fin m"
    using f64_of_rat_mono [OF assms(2)] f64_of_rat_mono [OF assms(3)] assms(1) by simp_all
  then show ?thesis using that by (cases "f64_of_rat x") auto
qed

end
