(* ===== verification/Book.thy ===== *)
theory Book
  imports GoFloat
begin

text \<open>
  The validator's reference order book, \<open>services/validator/internal/replay/book.go\<close>: one symbol,
  bids and asks as slices in price-time priority, limit orders that match and rest, market orders
  that match and are discarded, cancels. The lemmas show that the binary-search insertion keeps the
  slices in priority order, that matching fills exactly the liquidity the limit price allows, front
  first, and that the book stays well formed and uncrossed.
\<close>

section \<open>Data\<close>

datatype Side = Buy | Sell

record Order =
  oID :: string
  oSide :: Side
  oPrice :: f64
  oQty :: int64
  oTsNs :: int64

record Book =
  bids :: "Order list"
  asks :: "Order list"

definition New :: Book where
  "New = \<lparr>bids = [], asks = []\<rparr>"

section \<open>Insertion\<close>

text \<open>The predicates that \<open>insertBid\<close> and \<open>insertAsk\<close> hand to \<open>sort.Search\<close>: \<open>x\<close> sorts behind \<open>o\<close>.\<close>

definition bid_behind :: "Order \<Rightarrow> Order \<Rightarrow> bool" where
  "bid_behind x o' = (if \<not> feq (oPrice x) (oPrice o') then flt (oPrice x) (oPrice o')
                      else oTsNs o' < oTsNs x)"

definition ask_behind :: "Order \<Rightarrow> Order \<Rightarrow> bool" where
  "ask_behind x o' = (if \<not> feq (oPrice x) (oPrice o') then flt (oPrice o') (oPrice x)
                      else oTsNs o' < oTsNs x)"

definition insertBid :: "Book \<Rightarrow> Order \<Rightarrow> Book" where
  "insertBid b o' =
     (let idx = sort_Search (length (bids b)) (\<lambda>i. bid_behind (bids b ! i) o')
      in b\<lparr>bids := slice_insert idx o' (bids b)\<rparr>)"

definition insertAsk :: "Book \<Rightarrow> Order \<Rightarrow> Book" where
  "insertAsk b o' =
     (let idx = sort_Search (length (asks b)) (\<lambda>i. ask_behind (asks b ! i) o')
      in b\<lparr>asks := slice_insert idx o' (asks b)\<rparr>)"

section \<open>Matching\<close>

text \<open>
  The loops of \<open>matchBuy\<close> and \<open>matchSell\<close>, over the resting slice, the incoming order and the
  quantity filled so far. The incoming order is modified in place, so it is returned.
\<close>

function matchBuy_loop :: "Order list \<Rightarrow> Order \<Rightarrow> int64 \<Rightarrow> Order list \<times> Order \<times> int64" where
  "matchBuy_loop [] o' filled = ([], o', filled)"
| "matchBuy_loop (ask # rest) o' filled =
     (if \<not> 0 < oQty o' then (ask # rest, o', filled)
      else if flt (oPrice o') (oPrice ask) then (ask # rest, o', filled)
      else let take = min64 (oQty o') (oQty ask);
               o2 = o'\<lparr>oQty := oQty o' - take\<rparr>;
               ask2 = ask\<lparr>oQty := oQty ask - take\<rparr>
           in if oQty ask2 = 0 then matchBuy_loop rest o2 (filled + take)
              else matchBuy_loop (ask2 # rest) o2 (filled + take))"
  by pat_completeness auto
termination
  by (relation "measure (\<lambda>(xs, o', _). length xs + (if 0 < oQty o' then 1 else 0))") auto

function matchSell_loop :: "Order list \<Rightarrow> Order \<Rightarrow> int64 \<Rightarrow> Order list \<times> Order \<times> int64" where
  "matchSell_loop [] o' filled = ([], o', filled)"
| "matchSell_loop (bid # rest) o' filled =
     (if \<not> 0 < oQty o' then (bid # rest, o', filled)
      else if flt (oPrice bid) (oPrice o') then (bid # rest, o', filled)
      else let take = min64 (oQty o') (oQty bid);
               o2 = o'\<lparr>oQty := oQty o' - take\<rparr>;
               bid2 = bid\<lparr>oQty := oQty bid - take\<rparr>
           in if oQty bid2 = 0 then matchSell_loop rest o2 (filled + take)
              else matchSell_loop (bid2 # rest) o2 (filled + take))"
  by pat_completeness auto
termination
  by (relation "measure (\<lambda>(xs, o', _). length xs + (if 0 < oQty o' then 1 else 0))") auto

definition matchBuy :: "Book \<Rightarrow> Order \<Rightarrow> Book \<times> Order \<times> int64" where
  "matchBuy b o' = (case matchBuy_loop (asks b) o' 0 of
     (as, o2, filled) \<Rightarrow> (b\<lparr>asks := as\<rparr>, o2, filled))"

definition matchSell :: "Book \<Rightarrow> Order \<Rightarrow> Book \<times> Order \<times> int64" where
  "matchSell b o' = (case matchSell_loop (bids b) o' 0 of
     (bs, o2, filled) \<Rightarrow> (b\<lparr>bids := bs\<rparr>, o2, filled))"

definition Place :: "Book \<Rightarrow> Order \<Rightarrow> Book \<times> int64" where
  "Place b o' = (case oSide o' of
     Buy \<Rightarrow> (case matchBuy b o' of (b2, o2, filled) \<Rightarrow>
              (if 0 < oQty o2 then insertBid b2 o2 else b2, filled))
   | Sell \<Rightarrow> (case matchSell b o' of (b2, o2, filled) \<Rightarrow>
              (if 0 < oQty o2 then insertAsk b2 o2 else b2, filled)))"

text \<open>The loop of \<open>PlaceMarket\<close>, the same on both sides: no price is looked at.\<close>

function market_loop :: "Order list \<Rightarrow> int64 \<Rightarrow> int64 \<Rightarrow> Order list \<times> int64" where
  "market_loop [] qty filled = ([], filled)"
| "market_loop (r # rest) qty filled =
     (if \<not> 0 < qty then (r # rest, filled)
      else let take = min64 qty (oQty r);
               r2 = r\<lparr>oQty := oQty r - take\<rparr>
           in if oQty r2 = 0 then market_loop rest (qty - take) (filled + take)
              else market_loop (r2 # rest) (qty - take) (filled + take))"
  by pat_completeness auto
termination
  by (relation "measure (\<lambda>(xs, q, _). length xs + (if 0 < q then 1 else 0))") auto

definition PlaceMarket :: "Book \<Rightarrow> Side \<Rightarrow> int64 \<Rightarrow> Book \<times> int64" where
  "PlaceMarket b side qty = (case side of
     Buy \<Rightarrow> (case market_loop (asks b) qty 0 of (as, filled) \<Rightarrow> (b\<lparr>asks := as\<rparr>, filled))
   | Sell \<Rightarrow> (case market_loop (bids b) qty 0 of (bs, filled) \<Rightarrow> (b\<lparr>bids := bs\<rparr>, filled)))"

section \<open>Cancel and quotes\<close>

text \<open>The index of the first order with the id, as the \<open>range\<close> loop of \<open>Cancel\<close> finds it.\<close>

fun index_of_id :: "string \<Rightarrow> Order list \<Rightarrow> nat option" where
  "index_of_id i [] = None"
| "index_of_id i (x # xs) = (if oID x = i then Some 0 else map_option Suc (index_of_id i xs))"

definition Cancel :: "Book \<Rightarrow> string \<Rightarrow> Book \<times> bool" where
  "Cancel b i = (case index_of_id i (bids b) of
     Some k \<Rightarrow> (b\<lparr>bids := slice_remove k (bids b)\<rparr>, True)
   | None \<Rightarrow> (case index_of_id i (asks b) of
       Some k \<Rightarrow> (b\<lparr>asks := slice_remove k (asks b)\<rparr>, True)
     | None \<Rightarrow> (b, False)))"

definition BestBid :: "Book \<Rightarrow> f64 \<times> bool" where
  "BestBid b = (case bids b of [] \<Rightarrow> (Fin 0, False) | x # _ \<Rightarrow> (oPrice x, True))"

definition BestAsk :: "Book \<Rightarrow> f64 \<times> bool" where
  "BestAsk b = (case asks b of [] \<Rightarrow> (Fin 0, False) | x # _ \<Rightarrow> (oPrice x, True))"

section \<open>Priority orders\<close>

text \<open>
  What the two sides share: \<open>behind x y\<close> is a strict weak order on the valid elements, and a slice is
  in order when no element is behind a later one. Inserting at the index \<open>sort.Search\<close> finds is then
  insertion before the first element that is behind the new one: after its equals, so that the
  earlier of two equal orders stays in front.
\<close>

fun insert_before :: "('a \<Rightarrow> bool) \<Rightarrow> 'a \<Rightarrow> 'a list \<Rightarrow> 'a list" where
  "insert_before p x [] = [x]"
| "insert_before p x (y # ys) = (if p y then x # y # ys else y # insert_before p x ys)"

lemma insert_before_append:
  "(\<forall>y \<in> set ys. \<not> p y) \<Longrightarrow> (zs \<noteq> [] \<Longrightarrow> p (hd zs)) \<Longrightarrow> insert_before p x (ys @ zs) = ys @ x # zs"
proof (induction ys)
  case Nil
  then show ?case by (cases zs) auto
qed auto

lemma set_insert_before [simp]: "set (insert_before p x xs) = insert x (set xs)"
  by (induction xs) auto

locale priority_order =
  fixes behind :: "'a \<Rightarrow> 'a \<Rightarrow> bool" and valid :: "'a \<Rightarrow> bool"
  assumes behind_irrefl: "valid x \<Longrightarrow> \<not> behind x x"
    and behind_trans: "valid x \<Longrightarrow> valid y \<Longrightarrow> valid z \<Longrightarrow> behind x y \<Longrightarrow> behind y z \<Longrightarrow> behind x z"
    and behind_split: "valid x \<Longrightarrow> valid y \<Longrightarrow> valid z \<Longrightarrow> behind x z \<Longrightarrow> behind x y \<or> behind y z"
begin

definition in_order :: "'a list \<Rightarrow> bool" where
  "in_order xs \<longleftrightarrow> sorted_wrt (\<lambda>x y. \<not> behind x y) xs \<and> (\<forall>x \<in> set xs. valid x)"

lemma in_order_Nil [simp]: "in_order []"
  by (simp add: in_order_def)

lemma in_order_Cons: "in_order (x # xs) \<longleftrightarrow> valid x \<and> (\<forall>y \<in> set xs. \<not> behind x y) \<and> in_order xs"
  by (auto simp: in_order_def)

lemma in_order_append_drop: "in_order (xs @ ys) \<Longrightarrow> in_order ys"
  by (auto simp: in_order_def sorted_wrt_append)

lemma in_order_remove: "in_order xs \<Longrightarrow> in_order (slice_remove k xs)"
  by (auto simp: in_order_def slice_remove_def sorted_wrt_append sorted_wrt_take sorted_wrt_drop
        dest: in_set_takeD in_set_dropD)
    (metis (no_types, lifting) Suc_leD append_take_drop_id in_set_takeD le_refl set_drop_subset_set_drop
      sorted_wrt_append subsetD)

lemma not_behind_trans:
  "valid x \<Longrightarrow> valid y \<Longrightarrow> valid z \<Longrightarrow> \<not> behind x y \<Longrightarrow> \<not> behind y z \<Longrightarrow> \<not> behind x z"
  using behind_split by blast

text \<open>On a slice in order the search predicate is false and then true.\<close>

lemma search_mono:
  assumes "in_order xs" "valid x" "k \<le> l" "l < length xs" "behind (xs ! k) x"
  shows "behind (xs ! l) x"
proof (cases "k = l")
  case False
  with assms have "\<not> behind (xs ! k) (xs ! l)"
    by (auto simp: in_order_def sorted_wrt_iff_nth_less)
  moreover have "valid (xs ! k)" "valid (xs ! l)"
    using assms by (auto simp: in_order_def)
  ultimately show ?thesis using behind_split assms by blast
qed (use assms in simp)

lemma search_insert:
  assumes "in_order xs" "valid x"
  shows "slice_insert (sort_Search (length xs) (\<lambda>i. behind (xs ! i) x)) x xs
       = insert_before (\<lambda>y. behind y x) x xs"
proof -
  define k where "k = sort_Search (length xs) (\<lambda>i. behind (xs ! i) x)"
  have mono: "behind (xs ! l) x" if "i \<le> l" "l < length xs" "behind (xs ! i) x" for i l
    using search_mono [OF assms] that by blast
  have k: "k \<le> length xs" unfolding k_def by (rule sort_Search_first(1)) (rule mono)
  have before: "\<not> behind (xs ! i) x" if "i < k" for i
    using sort_Search_first(2) [of "length xs" "\<lambda>i. behind (xs ! i) x" i] mono that
    by (auto simp: k_def)
  have after: "behind (xs ! i) x" if "k \<le> i" "i < length xs" for i
    using sort_Search_first(3) [of "length xs" "\<lambda>i. behind (xs ! i) x" i] mono that
    by (auto simp: k_def)
  have "insert_before (\<lambda>y. behind y x) x (take k xs @ drop k xs) = take k xs @ x # drop k xs"
    using before after k
    by (intro insert_before_append) (auto simp: in_set_conv_nth hd_drop_conv_nth)
  then show ?thesis by (simp add: slice_insert_def k_def)
qed

lemma in_order_insert:
  assumes "in_order xs" "valid x"
  shows "in_order (insert_before (\<lambda>y. behind y x) x xs)"
  using assms
proof (induction xs)
  case (Cons y ys)
  show ?case
  proof (cases "behind y x")
    case True
    have "\<not> behind x z" if "z \<in> set (y # ys)" for z
    proof
      assume "behind x z"
      moreover have "valid z" "valid y" using that Cons.prems by (auto simp: in_order_def)
      ultimately have "behind y z" using True behind_trans Cons.prems by blast
      with that Cons.prems show False by (auto simp: in_order_Cons behind_irrefl)
    qed
    with True Cons.prems show ?thesis by (simp add: in_order_Cons)
  next
    case False
    with Cons show ?thesis by (auto simp: in_order_Cons)
  qed
qed (simp add: in_order_Cons)

end

definition priced :: "Order \<Rightarrow> bool" where
  "priced x \<longleftrightarrow> oPrice x \<noteq> NaN"

lemma bid_behind_priced:
  "priced x \<Longrightarrow> priced y \<Longrightarrow>
     bid_behind x y \<longleftrightarrow> oPrice x < oPrice y \<or> oPrice x = oPrice y \<and> oTsNs y < oTsNs x"
  by (auto simp: bid_behind_def priced_def)

lemma ask_behind_priced:
  "priced x \<Longrightarrow> priced y \<Longrightarrow>
     ask_behind x y \<longleftrightarrow> oPrice y < oPrice x \<or> oPrice x = oPrice y \<and> oTsNs y < oTsNs x"
  by (auto simp: ask_behind_def priced_def)

interpretation bid: priority_order bid_behind priced
  by unfold_locales (auto simp: bid_behind_priced)

interpretation ask: priority_order ask_behind priced
  by unfold_locales (auto simp: ask_behind_priced)

section \<open>What matching does\<close>

text \<open>
  The reference behaviour: \<open>consume q\<close> takes a quantity from the front of a slice, whole orders first
  and at most one in part; \<open>liquidity\<close> is what a slice offers. All three loops are one loop that stops
  at a resting order the incoming price does not reach.
\<close>

definition liquidity :: "Order list \<Rightarrow> int" where
  "liquidity xs = sum_list (map oQty xs)"

fun consume :: "int \<Rightarrow> Order list \<Rightarrow> Order list" where
  "consume q [] = []"
| "consume q (x # xs) =
     (if q \<le> 0 then x # xs else if q < oQty x then x\<lparr>oQty := oQty x - q\<rparr> # xs
      else consume (q - oQty x) xs)"

function fill_loop :: "(Order \<Rightarrow> bool) \<Rightarrow> Order list \<Rightarrow> int \<Rightarrow> int \<Rightarrow> Order list \<times> int \<times> int" where
  "fill_loop stop [] q filled = ([], q, filled)"
| "fill_loop stop (r # rest) q filled =
     (if \<not> 0 < q \<or> stop r then (r # rest, q, filled)
      else let t = min q (oQty r); r2 = r\<lparr>oQty := oQty r - t\<rparr>
           in if oQty r2 = 0 then fill_loop stop rest (q - t) (filled + t)
              else fill_loop stop (r2 # rest) (q - t) (filled + t))"
  by pat_completeness auto
termination
  by (relation "measure (\<lambda>(_, xs, q, _). length xs + (if 0 < q then 1 else 0))") auto

lemma matchBuy_loop_fill:
  "matchBuy_loop xs o' f = (case fill_loop (\<lambda>r. flt (oPrice o') (oPrice r)) xs (oQty o') f of
     (xs', q, f') \<Rightarrow> (xs', o'\<lparr>oQty := q\<rparr>, f'))"
  by (induction xs o' f rule: matchBuy_loop.induct) (auto simp: Let_def)

lemma matchSell_loop_fill:
  "matchSell_loop xs o' f = (case fill_loop (\<lambda>r. flt (oPrice r) (oPrice o')) xs (oQty o') f of
     (xs', q, f') \<Rightarrow> (xs', o'\<lparr>oQty := q\<rparr>, f'))"
  by (induction xs o' f rule: matchSell_loop.induct) (auto simp: Let_def)

lemma market_loop_fill:
  "market_loop xs q f = (case fill_loop (\<lambda>r. False) xs q f of (xs', q', f') \<Rightarrow> (xs', f'))"
  by (induction xs q f rule: market_loop.induct) (auto simp: Let_def)

definition all_pos :: "Order list \<Rightarrow> bool" where
  "all_pos xs \<longleftrightarrow> (\<forall>x \<in> set xs. 0 < oQty x)"

lemma all_pos_simps [simp]:
  "all_pos []" "all_pos (x # xs) \<longleftrightarrow> 0 < oQty x \<and> all_pos xs"
  by (auto simp: all_pos_def)

lemma liquidity_simps [simp]: "liquidity [] = 0" "liquidity (x # xs) = oQty x + liquidity xs"
  by (simp_all add: liquidity_def)

lemma liquidity_append [simp]: "liquidity (xs @ ys) = liquidity xs + liquidity ys"
  by (simp add: liquidity_def)

lemma liquidity_nonneg: "all_pos xs \<Longrightarrow> 0 \<le> liquidity xs"
  by (induction xs) auto

lemma all_pos_insert_before [simp]:
  "all_pos (insert_before p x xs) \<longleftrightarrow> 0 < oQty x \<and> all_pos xs"
  by (auto simp: all_pos_def)

lemma all_pos_takeWhile: "all_pos xs \<Longrightarrow> all_pos (takeWhile p xs)"
  by (auto simp: all_pos_def dest: set_takeWhileD)

lemma all_pos_filter: "all_pos xs \<Longrightarrow> all_pos (filter p xs)"
  by (auto simp: all_pos_def)

definition fillable :: "(Order \<Rightarrow> bool) \<Rightarrow> Order list \<Rightarrow> int \<Rightarrow> int" where
  "fillable stop xs q = max 0 (min q (liquidity (takeWhile (\<lambda>r. \<not> stop r) xs)))"

lemma fill_loop_spec:
  "all_pos xs \<Longrightarrow> fill_loop stop xs q f =
     (consume (fillable stop xs q) xs, q - fillable stop xs q, f + fillable stop xs q)"
proof (induction stop xs q f rule: fill_loop.induct)
  case (2 stop r rest q f)
  have pos: "0 \<le> liquidity (takeWhile (\<lambda>r. \<not> stop r) rest)"
    using "2.prems" by (simp add: all_pos_takeWhile liquidity_nonneg)
  show ?case
  proof (cases "0 < q \<and> \<not> stop r")
    case True
    show ?thesis
    proof (cases "oQty r \<le> q")
      case le: True
      have "fill_loop stop (r # rest) q f = fill_loop stop rest (q - oQty r) (f + oQty r)"
        using True le by (simp add: Let_def)
      also have "\<dots> = (consume (fillable stop rest (q - oQty r)) rest,
          q - oQty r - fillable stop rest (q - oQty r), f + oQty r + fillable stop rest (q - oQty r))"
        using "2.IH"(1) True le "2.prems" by (simp add: Let_def)
      also have "fillable stop rest (q - oQty r) = fillable stop (r # rest) q - oQty r"
        using True le pos "2.prems" by (auto simp: fillable_def)
      finally have eq: "fill_loop stop (r # rest) q f =
          (consume (fillable stop (r # rest) q - oQty r) rest, q - fillable stop (r # rest) q,
           f + fillable stop (r # rest) q)" by simp
      have ge: "oQty r \<le> fillable stop (r # rest) q"
        using True le pos by (auto simp: fillable_def)
      show ?thesis unfolding eq using ge "2.prems" by simp
    next
      case False
      with True "2.prems" pos show ?thesis by (simp add: Let_def fillable_def)
    qed
  next
    case False
    then show ?thesis by (auto simp: fillable_def)
  qed
qed (simp add: fillable_def)

lemma fillable_bounds: "0 \<le> fillable stop xs q" "fillable stop xs q \<le> max 0 q"
  by (simp_all add: fillable_def)

lemma consume_le_0 [simp]: "q \<le> 0 \<Longrightarrow> consume q xs = xs"
  by (cases xs) simp_all

lemma liquidity_consume:
  "all_pos xs \<Longrightarrow> 0 \<le> q \<Longrightarrow> q \<le> liquidity xs \<Longrightarrow> liquidity (consume q xs) = liquidity xs - q"
  by (induction q xs rule: consume.induct) auto

lemma all_pos_consume: "all_pos xs \<Longrightarrow> all_pos (consume q xs)"
  by (induction q xs rule: consume.induct) auto

lemma consume_keys: "y \<in> set (consume q xs) \<Longrightarrow> \<exists>x \<in> set xs. y = x\<lparr>oQty := oQty y\<rparr>"
proof (induction q xs rule: consume.induct)
  case (2 q x xs)
  have self: "y = y\<lparr>oQty := oQty y\<rparr>" by simp
  show ?case
    using 2 self by (cases "q \<le> 0"; cases "q < oQty x") (auto intro: bexI [of _ y])
qed simp

lemma consume_price: "y \<in> set (consume q xs) \<Longrightarrow> \<exists>x \<in> set xs. oPrice y = oPrice x"
  using consume_keys by (metis Order.select_convs(3) Order.surjective Order.update_convs(4))

lemma consume_takeWhile:
  "all_pos xs \<Longrightarrow> consume (liquidity (takeWhile p xs)) xs = dropWhile p xs"
proof (induction xs)
  case (Cons x xs)
  then have "0 \<le> liquidity (takeWhile p xs)" by (simp add: all_pos_takeWhile liquidity_nonneg)
  with Cons show ?case by simp
qed simp

lemma bid_behind_qty [simp]:
  "bid_behind (x\<lparr>oQty := q\<rparr>) y = bid_behind x y" "bid_behind x (y\<lparr>oQty := q\<rparr>) = bid_behind x y"
  by (simp_all add: bid_behind_def)

lemma ask_behind_qty [simp]:
  "ask_behind (x\<lparr>oQty := q\<rparr>) y = ask_behind x y" "ask_behind x (y\<lparr>oQty := q\<rparr>) = ask_behind x y"
  by (simp_all add: ask_behind_def)

lemma priced_qty [simp]: "priced (x\<lparr>oQty := q\<rparr>) = priced x"
  by (simp add: priced_def)

lemma bid_in_order_consume: "bid.in_order xs \<Longrightarrow> bid.in_order (consume q xs)"
  by (induction q xs rule: consume.induct) (auto simp: bid.in_order_Cons)

lemma ask_in_order_consume: "ask.in_order xs \<Longrightarrow> ask.in_order (consume q xs)"
  by (induction q xs rule: consume.induct) (auto simp: ask.in_order_Cons)

text \<open>On a slice in order, the orders a limit price reaches are the front of the slice.\<close>

lemma ask_reach_prefix:
  assumes "ask.in_order xs" "p \<noteq> NaN"
  shows "takeWhile (\<lambda>r. \<not> flt p (oPrice r)) xs = filter (\<lambda>r. oPrice r \<le> p) xs"
    and "dropWhile (\<lambda>r. \<not> flt p (oPrice r)) xs = filter (\<lambda>r. p < oPrice r) xs"
proof -
  have "takeWhile (\<lambda>r. \<not> flt p (oPrice r)) xs = filter (\<lambda>r. oPrice r \<le> p) xs
      \<and> dropWhile (\<lambda>r. \<not> flt p (oPrice r)) xs = filter (\<lambda>r. p < oPrice r) xs"
    using assms
  proof (induction xs)
    case (Cons x xs)
    have x: "priced x" "ask.in_order xs" and ord: "\<forall>y \<in> set xs. oPrice x \<le> oPrice y"
      using Cons.prems by (auto simp: ask.in_order_Cons ask_behind_priced ask.in_order_def not_less)
    from x(1) have nan: "oPrice x \<noteq> NaN" by (simp add: priced_def)
    have "p < oPrice y" if "p < oPrice x" "y \<in> set xs" for y
      using that ord by (metis order_less_le_trans)
    then show ?case
      using Cons.IH [OF x(2) Cons.prems(2)] nan Cons.prems(2) by (cases "p < oPrice x")
        (auto simp: not_less not_le intro!: filter_False [symmetric] filter_True [symmetric])
  qed simp
  then show "takeWhile (\<lambda>r. \<not> flt p (oPrice r)) xs = filter (\<lambda>r. oPrice r \<le> p) xs"
    and "dropWhile (\<lambda>r. \<not> flt p (oPrice r)) xs = filter (\<lambda>r. p < oPrice r) xs" by auto
qed

lemma bid_reach_prefix:
  assumes "bid.in_order xs" "p \<noteq> NaN"
  shows "takeWhile (\<lambda>r. \<not> flt (oPrice r) p) xs = filter (\<lambda>r. p \<le> oPrice r) xs"
    and "dropWhile (\<lambda>r. \<not> flt (oPrice r) p) xs = filter (\<lambda>r. oPrice r < p) xs"
proof -
  have "takeWhile (\<lambda>r. \<not> flt (oPrice r) p) xs = filter (\<lambda>r. p \<le> oPrice r) xs
      \<and> dropWhile (\<lambda>r. \<not> flt (oPrice r) p) xs = filter (\<lambda>r. oPrice r < p) xs"
    using assms
  proof (induction xs)
    case (Cons x xs)
    have x: "priced x" "bid.in_order xs" and ord: "\<forall>y \<in> set xs. oPrice y \<le> oPrice x"
      using Cons.prems by (auto simp: bid.in_order_Cons bid_behind_priced bid.in_order_def not_less)
    from x(1) have nan: "oPrice x \<noteq> NaN" by (simp add: priced_def)
    have "oPrice y < p" if "oPrice x < p" "y \<in> set xs" for y
      using that ord by (metis order_le_less_trans)
    then show ?case
      using Cons.IH [OF x(2) Cons.prems(2)] nan Cons.prems(2) by (cases "oPrice x < p")
        (auto simp: not_less not_le intro!: filter_False [symmetric] filter_True [symmetric])
  qed simp
  then show "takeWhile (\<lambda>r. \<not> flt (oPrice r) p) xs = filter (\<lambda>r. p \<le> oPrice r) xs"
    and "dropWhile (\<lambda>r. \<not> flt (oPrice r) p) xs = filter (\<lambda>r. oPrice r < p) xs" by auto
qed

section \<open>The book invariant\<close>

text \<open>
  Both slices are in priority order, every resting quantity is positive, and no bid reaches an ask.
\<close>

definition book_inv :: "Book \<Rightarrow> bool" where
  "book_inv b \<longleftrightarrow> bid.in_order (bids b) \<and> ask.in_order (asks b) \<and> all_pos (bids b) \<and> all_pos (asks b)
     \<and> (\<forall>x \<in> set (bids b). \<forall>y \<in> set (asks b). oPrice x < oPrice y)"

lemma book_inv_New [simp]: "book_inv New"
  by (simp add: book_inv_def New_def)

lemma book_invD:
  assumes "book_inv b"
  shows "bid.in_order (bids b)" "ask.in_order (asks b)" "all_pos (bids b)" "all_pos (asks b)"
    "\<And>x y. x \<in> set (bids b) \<Longrightarrow> y \<in> set (asks b) \<Longrightarrow> oPrice x < oPrice y"
  using assms by (auto simp: book_inv_def)

text \<open>The liquidity an incoming order can take: all of the other side that its price reaches.\<close>

definition reach :: "Book \<Rightarrow> Side \<Rightarrow> f64 \<Rightarrow> int" where
  "reach b side p = (case side of
     Buy \<Rightarrow> liquidity (filter (\<lambda>r. oPrice r \<le> p) (asks b))
   | Sell \<Rightarrow> liquidity (filter (\<lambda>r. p \<le> oPrice r) (bids b)))"

definition fill_of :: "Book \<Rightarrow> Order \<Rightarrow> int" where
  "fill_of b o' = max 0 (min (oQty o') (reach b (oSide o') (oPrice o')))"

lemma matchBuy_spec:
  assumes "book_inv b" "oPrice o' \<noteq> NaN" "oSide o' = Buy"
  shows "matchBuy b o' = (b\<lparr>asks := consume (fill_of b o') (asks b)\<rparr>,
           o'\<lparr>oQty := oQty o' - fill_of b o'\<rparr>, fill_of b o')"
proof -
  have "fillable (\<lambda>r. flt (oPrice o') (oPrice r)) (asks b) (oQty o') = fill_of b o'"
    using ask_reach_prefix [OF book_invD(2) [OF assms(1)] assms(2)] assms(3)
    by (simp add: fillable_def fill_of_def reach_def)
  then show ?thesis
    using book_invD(4) [OF assms(1)]
    by (simp add: matchBuy_def matchBuy_loop_fill fill_loop_spec)
qed

lemma matchSell_spec:
  assumes "book_inv b" "oPrice o' \<noteq> NaN" "oSide o' = Sell"
  shows "matchSell b o' = (b\<lparr>bids := consume (fill_of b o') (bids b)\<rparr>,
           o'\<lparr>oQty := oQty o' - fill_of b o'\<rparr>, fill_of b o')"
proof -
  have "fillable (\<lambda>r. flt (oPrice r) (oPrice o')) (bids b) (oQty o') = fill_of b o'"
    using bid_reach_prefix [OF book_invD(1) [OF assms(1)] assms(2)] assms(3)
    by (simp add: fillable_def fill_of_def reach_def)
  then show ?thesis
    using book_invD(3) [OF assms(1)]
    by (simp add: matchSell_def matchSell_loop_fill fill_loop_spec)
qed

lemma insertBid_spec:
  "bid.in_order (bids b) \<Longrightarrow> oPrice o' \<noteq> NaN \<Longrightarrow>
     insertBid b o' = b\<lparr>bids := insert_before (\<lambda>x. bid_behind x o') o' (bids b)\<rparr>"
  by (simp add: insertBid_def bid.search_insert priced_def Let_def)

lemma insertAsk_spec:
  "ask.in_order (asks b) \<Longrightarrow> oPrice o' \<noteq> NaN \<Longrightarrow>
     insertAsk b o' = b\<lparr>asks := insert_before (\<lambda>x. ask_behind x o') o' (asks b)\<rparr>"
  by (simp add: insertAsk_def ask.search_insert priced_def Let_def)

text \<open>A limit order in one equation: take from the other side, rest what is left behind its equals.\<close>

lemma Place_spec:
  assumes "book_inv b" "oPrice o' \<noteq> NaN"
  shows "Place b o' =
    (let f = fill_of b o'; rest = o'\<lparr>oQty := oQty o' - f\<rparr> in
     (case oSide o' of
        Buy \<Rightarrow> \<lparr>bids = (if 0 < oQty rest then insert_before (\<lambda>x. bid_behind x rest) rest (bids b) else bids b),
                asks = consume f (asks b)\<rparr>
      | Sell \<Rightarrow> \<lparr>bids = consume f (bids b),
                 asks = (if 0 < oQty rest then insert_before (\<lambda>x. ask_behind x rest) rest (asks b) else asks b)\<rparr>,
      f))"
  using assms matchBuy_spec matchSell_spec book_invD(1,2) [OF assms(1)]
  by (auto simp: Place_def insertBid_spec insertAsk_spec Let_def split: Side.splits)

text \<open>What does not fill has exhausted every order its price reaches.\<close>

lemma consume_reached:
  assumes "book_inv b" "oPrice o' \<noteq> NaN" "0 < oQty o' - fill_of b o'" "0 < oQty o'"
  shows "oSide o' = Buy \<Longrightarrow> consume (fill_of b o') (asks b) = filter (\<lambda>r. oPrice o' < oPrice r) (asks b)"
    and "oSide o' = Sell \<Longrightarrow> consume (fill_of b o') (bids b) = filter (\<lambda>r. oPrice r < oPrice o') (bids b)"
proof -
  note inv = book_invD [OF assms(1)]
  show "consume (fill_of b o') (asks b) = filter (\<lambda>r. oPrice o' < oPrice r) (asks b)" if "oSide o' = Buy"
  proof -
    have "fill_of b o' = liquidity (takeWhile (\<lambda>r. \<not> flt (oPrice o') (oPrice r)) (asks b))"
      using assms(3,4) that ask_reach_prefix(1) [OF inv(2) assms(2)]
        liquidity_nonneg [OF all_pos_filter [OF inv(4)], of "\<lambda>r. oPrice r \<le> oPrice o'"]
      by (simp add: fill_of_def reach_def min_def max_def split: if_splits)
    then show ?thesis using consume_takeWhile [OF inv(4)] ask_reach_prefix(2) [OF inv(2) assms(2)] by simp
  qed
  show "consume (fill_of b o') (bids b) = filter (\<lambda>r. oPrice r < oPrice o') (bids b)" if "oSide o' = Sell"
  proof -
    have "fill_of b o' = liquidity (takeWhile (\<lambda>r. \<not> flt (oPrice r) (oPrice o')) (bids b))"
      using assms(3,4) that bid_reach_prefix(1) [OF inv(1) assms(2)]
        liquidity_nonneg [OF all_pos_filter [OF inv(3)], of "\<lambda>r. oPrice o' \<le> oPrice r"]
      by (simp add: fill_of_def reach_def min_def max_def split: if_splits)
    then show ?thesis using consume_takeWhile [OF inv(3)] bid_reach_prefix(2) [OF inv(1) assms(2)] by simp
  qed
qed

section \<open>Every operation keeps the invariant\<close>

lemma Place_book_inv:
  assumes inv: "book_inv b" and p: "oPrice o' \<noteq> NaN"
  shows "book_inv (fst (Place b o'))"
proof -
  note I = book_invD [OF inv]
  define f where "f = fill_of b o'"
  define r where "r = o'\<lparr>oQty := oQty o' - f\<rparr>"
  have f0: "0 \<le> f" by (simp add: f_def fill_of_def)
  have rq: "0 < oQty r \<longleftrightarrow> f < oQty o'" by (simp add: r_def)
  have pr: "priced r" "oPrice r = oPrice o'" using p by (simp_all add: r_def priced_def)
  have crossA: "oPrice x < oPrice y" if "x \<in> set (bids b)" "y \<in> set (consume f (asks b))" for x y
    using I(5) [OF that(1)] consume_price [OF that(2)] by auto
  have crossB: "oPrice x < oPrice y" if "x \<in> set (consume f (bids b))" "y \<in> set (asks b)" for x y
    using I(5) [OF _ that(2)] consume_price [OF that(1)] by auto
  show ?thesis
  proof (cases "oSide o'")
    case Buy
    show ?thesis
    proof (cases "0 < oQty r")
      case True
      then have q: "0 < oQty o' - f" "0 < oQty o'" using f0 by (simp_all add: r_def)
      have "\<forall>y \<in> set (consume f (asks b)). oPrice o' < oPrice y"
        using consume_reached(1) [OF inv p q(1) [unfolded f_def] q(2) Buy] by (simp add: f_def)
      with True Buy I pr crossA show ?thesis
        by (auto simp: Place_spec [OF inv p] Let_def f_def [symmetric] r_def [symmetric] book_inv_def
            ask_in_order_consume bid.in_order_insert all_pos_consume)
    next
      case False
      with Buy I crossA rq show ?thesis
        by (auto simp: Place_spec [OF inv p] Let_def f_def [symmetric] r_def [symmetric] book_inv_def
            ask_in_order_consume all_pos_consume)
    qed
  next
    case Sell
    show ?thesis
    proof (cases "0 < oQty r")
      case True
      then have q: "0 < oQty o' - f" "0 < oQty o'" using f0 by (simp_all add: r_def)
      have "\<forall>y \<in> set (consume f (bids b)). oPrice y < oPrice o'"
        using consume_reached(2) [OF inv p q(1) [unfolded f_def] q(2) Sell] by (simp add: f_def)
      with True Sell I pr crossB show ?thesis
        by (auto simp: Place_spec [OF inv p] Let_def f_def [symmetric] r_def [symmetric] book_inv_def
            bid_in_order_consume ask.in_order_insert all_pos_consume)
    next
      case False
      with Sell I crossB rq show ?thesis
        by (auto simp: Place_spec [OF inv p] Let_def f_def [symmetric] r_def [symmetric] book_inv_def
            bid_in_order_consume all_pos_consume)
    qed
  qed
qed

lemma PlaceMarket_spec:
  assumes "book_inv b"
  shows "PlaceMarket b side q = (case side of
     Buy \<Rightarrow> (let f = max 0 (min q (liquidity (asks b))) in (b\<lparr>asks := consume f (asks b)\<rparr>, f))
   | Sell \<Rightarrow> (let f = max 0 (min q (liquidity (bids b))) in (b\<lparr>bids := consume f (bids b)\<rparr>, f)))"
proof -
  have t: "takeWhile (\<lambda>r. True) xs = xs" for xs :: "Order list"
    by (simp add: takeWhile_eq_all_conv)
  show ?thesis
    using book_invD(3,4) [OF assms]
    by (auto simp: PlaceMarket_def market_loop_fill fill_loop_spec fillable_def Let_def t
        split: Side.splits)
qed

lemma PlaceMarket_book_inv:
  assumes "book_inv b"
  shows "book_inv (fst (PlaceMarket b side q))"
proof -
  note I = book_invD [OF assms]
  have "oPrice x < oPrice y" if "x \<in> set (bids b)" "y \<in> set (consume f (asks b))" for x y f
    using I(5) [OF that(1)] consume_price [OF that(2)] by auto
  moreover have "oPrice x < oPrice y" if "x \<in> set (consume f (bids b))" "y \<in> set (asks b)" for x y f
    using I(5) [OF _ that(2)] consume_price [OF that(1)] by auto
  ultimately show ?thesis using I
    by (auto simp: PlaceMarket_spec [OF assms] Let_def book_inv_def ask_in_order_consume
        bid_in_order_consume all_pos_consume split: Side.splits)
qed

lemma index_of_id_None: "index_of_id i xs = None \<longleftrightarrow> i \<notin> oID ` set xs"
  by (induction xs) auto

lemma index_of_id_remove:
  "index_of_id i xs = Some k \<Longrightarrow> slice_remove k xs = remove1 (xs ! k) xs \<and> k < length xs \<and> oID (xs ! k) = i"
proof (induction xs arbitrary: k)
  case (Cons x xs)
  show ?case
  proof (cases "oID x = i")
    case True
    with Cons.prems show ?thesis by (auto simp: slice_remove_def)
  next
    case False
    with Cons.prems obtain j where j: "index_of_id i xs = Some j" "k = Suc j" by auto
    with Cons.IH [OF j(1)] False show ?thesis by (auto simp: slice_remove_def)
  qed
qed simp

lemma set_slice_remove: "set (slice_remove k xs) \<subseteq> set xs"
  by (auto simp: slice_remove_def dest: in_set_takeD in_set_dropD)

lemma all_pos_slice_remove: "all_pos xs \<Longrightarrow> all_pos (slice_remove k xs)"
  using set_slice_remove [of k xs] by (auto simp: all_pos_def)

lemma Cancel_book_inv:
  assumes "book_inv b"
  shows "book_inv (fst (Cancel b i))"
  using book_invD [OF assms]
  by (auto simp: Cancel_def book_inv_def bid.in_order_remove ask.in_order_remove all_pos_slice_remove
      dest: set_slice_remove [THEN subsetD] split: option.splits)

section \<open>Properties of the book\<close>

datatype book_op = OpLimit Order | OpMarket Side int64 | OpCancel string

fun book_apply :: "Book \<Rightarrow> book_op \<Rightarrow> Book" where
  "book_apply b (OpLimit o') = fst (Place b o')"
| "book_apply b (OpMarket side q) = fst (PlaceMarket b side q)"
| "book_apply b (OpCancel i) = fst (Cancel b i)"

fun op_priced :: "book_op \<Rightarrow> bool" where
  "op_priced (OpLimit o') = priced o'"
| "op_priced _ = True"

lemma book_apply_inv: "book_inv b \<Longrightarrow> op_priced e \<Longrightarrow> book_inv (book_apply b e)"
  by (cases e) (auto simp: priced_def Place_book_inv PlaceMarket_book_inv Cancel_book_inv)

lemma book_run_inv: "book_inv b \<Longrightarrow> list_all op_priced es \<Longrightarrow> book_inv (foldl book_apply b es)"
  by (induction es arbitrary: b) (auto simp: book_apply_inv)

text \<open>C4: After any sequence of limit orders, market orders and cancels on a new book, both sides are
  in price-time priority, every resting quantity is positive and no bid reaches an ask.\<close>

theorem book_always_well_formed:
  assumes "list_all op_priced es"
  shows "book_inv (foldl book_apply New es)"
  using assms by (rule book_run_inv [OF book_inv_New])

definition ex_bid :: Order where
  "ex_bid = \<lparr>oID = ''b1'', oSide = Buy, oPrice = Fin 101, oQty = 5, oTsNs = 1\<rparr>"

definition ex_ask :: Order where
  "ex_ask = \<lparr>oID = ''a1'', oSide = Sell, oPrice = Fin 100, oQty = 3, oTsNs = 2\<rparr>"

theorem book_always_well_formed_witness:
  "book_inv (foldl book_apply New [OpLimit ex_bid, OpLimit ex_ask, OpMarket Sell 1, OpCancel ''b1''])"
  by (rule book_always_well_formed) (simp add: ex_bid_def ex_ask_def priced_def)

text \<open>C5: A limit order fills exactly the smaller of its quantity and the liquidity its price reaches on
  the other side; it takes that from the front of the other side, and the rest of it, if any, is
  inserted on its own side behind every order of the same or an earlier priority.\<close>

theorem Place_fills_reachable_liquidity:
  assumes "book_inv b" "oPrice o' \<noteq> NaN"
  shows "let f = max 0 (min (oQty o') (reach b (oSide o') (oPrice o'))); rest = o'\<lparr>oQty := oQty o' - f\<rparr> in
     Place b o' = (case oSide o' of
        Buy \<Rightarrow> \<lparr>bids = (if f < oQty o' then insert_before (\<lambda>x. bid_behind x rest) rest (bids b) else bids b),
                asks = consume f (asks b)\<rparr>
      | Sell \<Rightarrow> \<lparr>bids = consume f (bids b),
                 asks = (if f < oQty o' then insert_before (\<lambda>x. ask_behind x rest) rest (asks b) else asks b)\<rparr>,
      f)"
  using Place_spec [OF assms] by (simp add: Let_def fill_of_def split: Side.splits)

theorem Place_fills_reachable_liquidity_witness:
  "snd (Place (fst (Place New ex_bid)) ex_ask) = 3"
proof -
  have inv: "book_inv (fst (Place New ex_bid))"
    by (rule Place_book_inv) (simp_all add: ex_bid_def)
  have "fst (Place New ex_bid) = \<lparr>bids = [ex_bid], asks = []\<rparr>" by code_simp
  with Place_fills_reachable_liquidity [OF inv, of ex_ask] show ?thesis
    by (simp add: ex_ask_def ex_bid_def reach_def Let_def)
qed

text \<open>A market order fills the smaller of its quantity and all the liquidity of the other side,
  takes it from the front, and never rests: its own side is untouched.\<close>

theorem PlaceMarket_takes_and_never_rests:
  assumes "book_inv b"
  shows "PlaceMarket b Buy q = (b\<lparr>asks := consume (max 0 (min q (liquidity (asks b)))) (asks b)\<rparr>,
           max 0 (min q (liquidity (asks b))))
       \<and> PlaceMarket b Sell q = (b\<lparr>bids := consume (max 0 (min q (liquidity (bids b)))) (bids b)\<rparr>,
           max 0 (min q (liquidity (bids b))))"
  using PlaceMarket_spec [OF assms] by (simp add: Let_def)

theorem PlaceMarket_takes_and_never_rests_witness:
  "snd (PlaceMarket (fst (Place New ex_bid)) Sell 7) = 5
   \<and> bids (fst (PlaceMarket (fst (Place New ex_bid)) Sell 7)) = []"
proof -
  have inv: "book_inv (fst (Place New ex_bid))"
    by (rule Place_book_inv) (simp_all add: ex_bid_def)
  have "fst (Place New ex_bid) = \<lparr>bids = [ex_bid], asks = []\<rparr>" by code_simp
  with PlaceMarket_takes_and_never_rests [OF inv, of 7] show ?thesis
    by (simp add: ex_bid_def)
qed

lemma index_of_id_insert_before:
  "oID x \<notin> oID ` set xs \<Longrightarrow>
     \<exists>k. index_of_id (oID x) (insert_before p x xs) = Some k \<and> slice_remove k (insert_before p x xs) = xs"
proof (induction xs)
  case (Cons y ys)
  then obtain k where "index_of_id (oID x) (insert_before p x ys) = Some k"
    "slice_remove k (insert_before p x ys) = ys" by auto
  with Cons.prems show ?case by (auto simp: slice_remove_def)
qed (simp add: slice_remove_def)

text \<open>Cancelling an order that rested without matching restores the book it was placed on.\<close>

theorem Place_Cancel_restores:
  assumes inv: "book_inv b" and "oPrice o' \<noteq> NaN" and q: "0 < oQty o'"
    and cross: "reach b (oSide o') (oPrice o') = 0"
    and new: "oID o' \<notin> oID ` (set (bids b) \<union> set (asks b))"
  shows "Cancel (fst (Place b o')) (oID o') = (b, True)"
proof -
  have f: "fill_of b o' = 0" using cross q by (simp add: fill_of_def)
  have none: "index_of_id (oID o') (bids b) = None"
    using new by (auto simp: index_of_id_None)
  show ?thesis
  proof (cases "oSide o'")
    case Buy
    obtain k where "index_of_id (oID o') (insert_before (\<lambda>x. bid_behind x o') o' (bids b)) = Some k"
      "slice_remove k (insert_before (\<lambda>x. bid_behind x o') o' (bids b)) = bids b"
      using index_of_id_insert_before [of o' "bids b"] new by blast
    with Buy f q show ?thesis by (simp add: Place_spec [OF assms(1,2)] Let_def Cancel_def)
  next
    case Sell
    obtain k where "index_of_id (oID o') (insert_before (\<lambda>x. ask_behind x o') o' (asks b)) = Some k"
      "slice_remove k (insert_before (\<lambda>x. ask_behind x o') o' (asks b)) = asks b"
      using index_of_id_insert_before [of o' "asks b"] new by blast
    with Sell f q none show ?thesis by (simp add: Place_spec [OF assms(1,2)] Let_def Cancel_def)
  qed
qed

theorem Place_Cancel_restores_witness: "Cancel (fst (Place New ex_bid)) ''b1'' = (New, True)"
proof -
  have "Cancel (fst (Place New ex_bid)) (oID ex_bid) = (New, True)"
    by (rule Place_Cancel_restores [OF book_inv_New]) (simp_all add: ex_bid_def reach_def New_def)
  then show ?thesis by (simp add: ex_bid_def)
qed

end
