(* ===== verification/GoHeap.thy ===== *)
theory GoHeap
  imports Book
begin

text \<open>
  Go's \<open>container/heap\<close> on a slice whose elements record their own index, the way the reference order
  book uses it: \<open>Swap\<close> writes the new index into both elements. The state is the slice and the index
  field of every element. The lemmas show that push, pop and remove keep the heap order, the recorded
  indices and the multiset of elements, and that the top of the heap is ahead of every other element.
\<close>

section \<open>The operations\<close>

type_synonym 'a hstate = "'a list \<times> ('a \<Rightarrow> nat)"

definition hswap :: "nat \<Rightarrow> nat \<Rightarrow> 'a hstate \<Rightarrow> 'a hstate" where
  "hswap i j s = (case s of (h, ix) \<Rightarrow>
     let x = h ! j; y = h ! i in (h[i := x, j := y], ix(x := i, y := j)))"

text \<open>\<open>up\<close> and \<open>down\<close>; \<open>lt\<close> is the element order behind \<open>Less\<close>. \<open>down\<close> returns the final index.\<close>

fun hup :: "('a \<Rightarrow> 'a \<Rightarrow> bool) \<Rightarrow> nat \<Rightarrow> 'a hstate \<Rightarrow> 'a hstate" where
  "hup lt j s =
     (let i = (j - 1) div 2
      in if i = j \<or> \<not> lt (fst s ! j) (fst s ! i) then s else hup lt i (hswap i j s))"

declare hup.simps [simp del]

definition hchild :: "('a \<Rightarrow> 'a \<Rightarrow> bool) \<Rightarrow> nat \<Rightarrow> nat \<Rightarrow> 'a list \<Rightarrow> nat" where
  "hchild lt n i h =
     (let j1 = 2 * i + 1; j2 = j1 + 1 in if j2 < n \<and> lt (h ! j2) (h ! j1) then j2 else j1)"

function hdown :: "('a \<Rightarrow> 'a \<Rightarrow> bool) \<Rightarrow> nat \<Rightarrow> nat \<Rightarrow> 'a hstate \<Rightarrow> 'a hstate \<times> nat" where
  "hdown lt n i s =
     (if n \<le> 2 * i + 1 then (s, i)
      else let j = hchild lt n i (fst s)
           in if \<not> lt (fst s ! j) (fst s ! i) then (s, i) else hdown lt n j (hswap i j s))"
  by pat_completeness auto
termination
  by (relation "measure (\<lambda>(_, n, i, _). n - i)") (auto simp: hchild_def Let_def)

declare hdown.simps [simp del]

text \<open>The \<open>Push\<close> and \<open>Pop\<close> methods of the slice type, and the three functions of the package.\<close>

definition slice_Push :: "'a \<Rightarrow> 'a hstate \<Rightarrow> 'a hstate" where
  "slice_Push e s = (case s of (h, ix) \<Rightarrow> (h @ [e], ix(e := length h)))"

definition slice_Pop :: "'a hstate \<Rightarrow> 'a hstate" where
  "slice_Pop s = (case s of (h, ix) \<Rightarrow> (butlast h, ix))"

definition heap_Push :: "('a \<Rightarrow> 'a \<Rightarrow> bool) \<Rightarrow> 'a \<Rightarrow> 'a hstate \<Rightarrow> 'a hstate" where
  "heap_Push lt e s = hup lt (length (fst s)) (slice_Push e s)"

definition heap_Pop :: "('a \<Rightarrow> 'a \<Rightarrow> bool) \<Rightarrow> 'a hstate \<Rightarrow> 'a hstate" where
  "heap_Pop lt s =
     (let n = length (fst s) - 1 in slice_Pop (fst (hdown lt n 0 (hswap 0 n s))))"

definition heap_Remove :: "('a \<Rightarrow> 'a \<Rightarrow> bool) \<Rightarrow> nat \<Rightarrow> 'a hstate \<Rightarrow> 'a hstate" where
  "heap_Remove lt i s =
     (let n = length (fst s) - 1
      in if n \<noteq> i
         then case hdown lt n i (hswap i n s) of (s', k) \<Rightarrow>
                slice_Pop (if \<not> i < k then hup lt i s' else s')
         else slice_Pop s)"

section \<open>Indices and elements\<close>

definition idx_ok :: "'a hstate \<Rightarrow> bool" where
  "idx_ok s \<longleftrightarrow> distinct (fst s) \<and> (\<forall>i < length (fst s). snd s (fst s ! i) = i)"

lemma length_hswap [simp]: "length (fst (hswap i j s)) = length (fst s)"
  by (simp add: hswap_def Let_def split: prod.splits)

lemma mset_hswap [simp]:
  "i < length (fst s) \<Longrightarrow> j < length (fst s) \<Longrightarrow> mset (fst (hswap i j s)) = mset (fst s)"
  by (cases s) (simp add: hswap_def Let_def mset_swap)

lemma nth_hswap:
  "i < length (fst s) \<Longrightarrow> j < length (fst s) \<Longrightarrow> k < length (fst s) \<Longrightarrow>
     fst (hswap i j s) ! k = (if k = j then fst s ! i else if k = i then fst s ! j else fst s ! k)"
  by (auto simp: hswap_def Let_def nth_list_update split: prod.splits)

lemma idx_ok_hswap:
  assumes "idx_ok s" "i < length (fst s)" "j < length (fst s)"
  shows "idx_ok (hswap i j s)"
proof -
  obtain h ix where s: "s = (h, ix)" by (cases s)
  have d: "distinct h" and ix: "\<And>k. k < length h \<Longrightarrow> ix (h ! k) = k"
    using assms by (auto simp: idx_ok_def s)
  have ij: "i < length h" "j < length h" using assms by (auto simp: s)
  have "distinct (fst (hswap i j s))"
    by (metis assms(2,3) d fst_conv mset_hswap mset_eq_imp_distinct_iff s)
  moreover have "snd (hswap i j s) (fst (hswap i j s) ! k) = k" if "k < length h" for k
    using that ij d ix by (auto simp: s hswap_def Let_def nth_list_update nth_eq_iff_index_eq)
  ultimately show ?thesis by (simp add: idx_ok_def s)
qed

lemma hup_frame:
  assumes "j < length (fst s)"
  shows "length (fst (hup lt j s)) = length (fst s)" "mset (fst (hup lt j s)) = mset (fst s)"
    "idx_ok s \<Longrightarrow> idx_ok (hup lt j s)"
  using assms
proof (induction lt j s rule: hup.induct)
  case (1 lt j s)
  define i where "i = (j - 1) div 2"
  have i: "i \<le> j" by (simp add: i_def)
  have eq: "hup lt j s = (if i = j \<or> \<not> lt (fst s ! j) (fst s ! i) then s else hup lt i (hswap i j s))"
    by (simp add: hup.simps [of lt j s] i_def Let_def)
  {
    case 1
    show ?case using "1.IH"(1) [OF i_def] 1 i by (auto simp: eq)
  next
    case 2
    show ?case using "1.IH"(2) [OF i_def] 2 i by (auto simp: eq)
  next
    case 3
    show ?case using "1.IH"(3) [OF i_def] 3 i by (auto simp: eq idx_ok_hswap)
  }
qed

lemma hup_above:
  "j < n \<Longrightarrow> n < length (fst s) \<Longrightarrow> fst (hup lt j s) ! n = fst s ! n"
proof (induction lt j s rule: hup.induct)
  case (1 lt j s)
  define i where "i = (j - 1) div 2"
  have i: "i \<le> j" by (simp add: i_def)
  have eq: "hup lt j s = (if i = j \<or> \<not> lt (fst s ! j) (fst s ! i) then s else hup lt i (hswap i j s))"
    by (simp add: hup.simps [of lt j s] i_def Let_def)
  show ?case using "1.IH" [OF i_def] "1.prems" i by (auto simp: eq nth_hswap)
qed

lemma hchild_cases:
  "2 * i + 1 < n \<Longrightarrow> hchild lt n i h < n \<and> (hchild lt n i h = 2 * i + 1 \<or> hchild lt n i h = 2 * i + 2)"
  by (auto simp: hchild_def Let_def)

lemma hdown_frame:
  assumes "n \<le> length (fst s)"
  shows "length (fst (fst (hdown lt n i s))) = length (fst s)"
    "mset (fst (fst (hdown lt n i s))) = mset (fst s)"
    "idx_ok s \<Longrightarrow> idx_ok (fst (hdown lt n i s))"
    "n \<le> k \<Longrightarrow> k < length (fst s) \<Longrightarrow> fst (fst (hdown lt n i s)) ! k = fst s ! k"
    "i \<le> snd (hdown lt n i s)"
  using assms
proof (induction lt n i s rule: hdown.induct)
  case (1 lt n i s)
  define j where "j = hchild lt n i (fst s)"
  have eq: "hdown lt n i s = (if n \<le> 2 * i + 1 then (s, i)
      else if \<not> lt (fst s ! j) (fst s ! i) then (s, i) else hdown lt n j (hswap i j s))"
    by (simp add: hdown.simps [of lt n i s] j_def Let_def)
  have j: "j < n" "i < j" if "\<not> n \<le> 2 * i + 1"
    using hchild_cases [of i n lt "fst s"] that by (auto simp: j_def)
  note IH = "1.IH" [OF _ j_def]
  {
    case 1
    show ?case using IH(1) 1 j by (auto simp: eq)
  next
    case 2
    show ?case using IH(2) 2 j by (auto simp: eq)
  next
    case 3
    show ?case using IH(3) 3 j by (auto simp: eq idx_ok_hswap)
  next
    case 4
    show ?case using IH(4) 4 j by (auto simp: eq nth_hswap)
  next
    case 5
    show ?case using IH(5) 5 j by (auto simp: eq intro: less_imp_le less_le_trans)
  }
qed

lemma heap_Push_mem: "e \<in> set (fst (heap_Push lt e s))"
proof -
  have "mset (fst (heap_Push lt e s)) = add_mset e (mset (fst s))"
    using hup_frame(2) [of "length (fst s)" "slice_Push e s" lt] by (cases s) (simp add: heap_Push_def slice_Push_def)
  then show ?thesis by (metis set_mset_mset union_single_eq_member)
qed

section \<open>Heap order\<close>

text \<open>
  The order laws on the first \<open>n\<close> places. \<open>up_at j\<close> is the invariant of \<open>up\<close>: only the place \<open>j\<close> may
  be ahead of its parent. \<open>down_at i\<close> is the one of \<open>down\<close>: only the children of \<open>i\<close> may be ahead of
  their parent. \<open>broken_at i\<close> allows both, which is what \<open>heap.Remove\<close> starts from. In the last three
  the children of the place are not ahead of its parent.
\<close>

context priority_order
begin

abbreviation ahead :: "'a \<Rightarrow> 'a \<Rightarrow> bool" where
  "ahead x y \<equiv> behind y x"

definition ok_at :: "'a list \<Rightarrow> nat \<Rightarrow> bool" where
  "ok_at h k \<longleftrightarrow> \<not> ahead (h ! k) (h ! ((k - 1) div 2))"

definition heap_upto :: "nat \<Rightarrow> 'a list \<Rightarrow> bool" where
  "heap_upto n h \<longleftrightarrow> n \<le> length h \<and> (\<forall>x \<in> set h. valid x) \<and> (\<forall>k. 0 < k \<and> k < n \<longrightarrow> ok_at h k)"

definition skips :: "nat \<Rightarrow> nat \<Rightarrow> 'a list \<Rightarrow> bool" where
  "skips n i h \<longleftrightarrow> n \<le> length h \<and> (\<forall>x \<in> set h. valid x) \<and>
     (0 < i \<longrightarrow> (\<forall>c. 0 < c \<and> c < n \<and> (c - 1) div 2 = i \<longrightarrow> \<not> ahead (h ! c) (h ! ((i - 1) div 2))))"

definition up_at :: "nat \<Rightarrow> nat \<Rightarrow> 'a list \<Rightarrow> bool" where
  "up_at n j h \<longleftrightarrow> skips n j h \<and> (\<forall>k. 0 < k \<and> k < n \<and> k \<noteq> j \<longrightarrow> ok_at h k)"

definition down_at :: "nat \<Rightarrow> nat \<Rightarrow> 'a list \<Rightarrow> bool" where
  "down_at n i h \<longleftrightarrow> skips n i h \<and> (\<forall>k. 0 < k \<and> k < n \<and> (k - 1) div 2 \<noteq> i \<longrightarrow> ok_at h k)"

definition broken_at :: "nat \<Rightarrow> nat \<Rightarrow> 'a list \<Rightarrow> bool" where
  "broken_at n i h \<longleftrightarrow> skips n i h \<and>
     (\<forall>k. 0 < k \<and> k < n \<and> k \<noteq> i \<and> (k - 1) div 2 \<noteq> i \<longrightarrow> ok_at h k)"

lemma down_at_broken: "down_at n i h \<Longrightarrow> broken_at n i h"
  by (auto simp: down_at_def broken_at_def)

lemma behind_asym: "valid x \<Longrightarrow> valid y \<Longrightarrow> behind x y \<Longrightarrow> \<not> behind y x"
  using behind_irrefl behind_trans by blast

lemma hswap_valid:
  "\<forall>x \<in> set (fst s). valid x \<Longrightarrow> i < length (fst s) \<Longrightarrow> j < length (fst s) \<Longrightarrow>
     \<forall>x \<in> set (fst (hswap i j s)). valid x"
  by (metis mset_hswap set_mset_mset)

lemma up_at_step:
  assumes u: "up_at n j (fst s)" and j: "j < n" "(j - 1) div 2 \<noteq> j"
    and a: "ahead (fst s ! j) (fst s ! ((j - 1) div 2))"
  shows "up_at n ((j - 1) div 2) (fst (hswap ((j - 1) div 2) j s))"
proof -
  define i where "i = (j - 1) div 2"
  let ?h = "fst s" and ?g = "fst (hswap i j s)"
  have i: "i < j" using j by (auto simp: i_def)
  have a': "ahead (?h ! j) (?h ! i)" using a by (simp add: i_def)
  have len: "n \<le> length ?h" and v: "\<forall>x \<in> set ?h. valid x"
    and gp: "\<And>c. 0 < c \<Longrightarrow> c < n \<Longrightarrow> (c - 1) div 2 = j \<Longrightarrow> \<not> ahead (?h ! c) (?h ! i)"
    and ok: "\<And>k. 0 < k \<Longrightarrow> k < n \<Longrightarrow> k \<noteq> j \<Longrightarrow> \<not> ahead (?h ! k) (?h ! ((k - 1) div 2))"
    using u i by (auto simp: up_at_def skips_def ok_at_def i_def)
  have val: "valid (?h ! k)" if "k < n" for k using v len that by simp
  have nth: "?g ! k = (if k = j then ?h ! i else if k = i then ?h ! j else ?h ! k)" if "k < n" for k
    using that len i j by (intro nth_hswap) auto
  have "ok_at ?g k" if k: "0 < k" "k < n" "k \<noteq> i" for k
  proof -
    let ?p = "(k - 1) div 2"
    have p: "?p < k" "?p < n" using k by auto
    consider "k = j" | "k \<noteq> j" "?p = j" | "k \<noteq> j" "?p = i" | "k \<noteq> j" "?p \<noteq> j" "?p \<noteq> i" by blast
    then show ?thesis
    proof cases
      case 1
      have "\<not> ahead (?h ! i) (?h ! j)"
        using behind_asym [of "?h ! i" "?h ! j"] a val [of i] val [of j] i j by (simp add: i_def)
      with 1 show ?thesis using nth [of j] nth [of i] i j by (simp add: ok_at_def i_def [symmetric] del: One_nat_def)
    next
      case 2
      then show ?thesis using gp [of k] k p nth by (simp add: ok_at_def)
    next
      case 3
      have "\<not> ahead (?h ! k) (?h ! j)"
        using ok [OF k(1,2) 3(1)] 3(2) a' behind_trans [of "?h ! i" "?h ! j" "?h ! k"] val i j k by auto
      with 3 k p i nth show ?thesis by (simp add: ok_at_def)
    next
      case 4
      then show ?thesis using ok k p nth by (simp add: ok_at_def)
    qed
  qed
  moreover have "\<not> ahead (?g ! c) (?g ! ((i - 1) div 2))" if c: "0 < i" "0 < c" "c < n" "(c - 1) div 2 = i" for c
  proof -
    have q: "(i - 1) div 2 < i" "i < n" using c i j by auto
    have top: "\<not> ahead (?h ! i) (?h ! ((i - 1) div 2))" using ok [of i] c i j by auto
    have "\<not> ahead (?h ! c) (?h ! ((i - 1) div 2))" if "c \<noteq> j"
      using not_behind_trans [of "?h ! ((i - 1) div 2)" "?h ! i" "?h ! c"] ok [of c] c that top val q by auto
    then show ?thesis using nth c q i top j by auto
  qed
  ultimately have "up_at n i ?g"
    using len hswap_valid [OF v, of i j] i j by (auto simp: up_at_def skips_def)
  then show ?thesis by (simp add: i_def)
qed

lemma hup_heap: "up_at n j (fst s) \<Longrightarrow> j < n \<Longrightarrow> heap_upto n (fst (hup ahead j s))"
proof (induction ahead j s rule: hup.induct)
  case (1 j s)
  show ?case
  proof (cases "(j - 1) div 2 = j \<or> \<not> ahead (fst s ! j) (fst s ! ((j - 1) div 2))")
    case True
    then have "heap_upto n (fst s)"
      using "1.prems" by (auto simp: heap_upto_def up_at_def skips_def ok_at_def)
    with True show ?thesis by (auto simp: hup.simps [of _ j s] Let_def)
  next
    case False
    then have "heap_upto n (fst (hup ahead ((j - 1) div 2) (hswap ((j - 1) div 2) j s)))"
      using "1.prems" up_at_step [of n j s] by (intro "1.hyps") (simp_all del: One_nat_def)
    with False show ?thesis by (simp add: hup.simps [of _ j s] Let_def)
  qed
qed

lemma hchild_first:
  assumes "2 * i + 1 < n" "n \<le> length h" "\<forall>x \<in> set h. valid x" "0 < c" "c < n" "(c - 1) div 2 = i"
  shows "\<not> ahead (h ! c) (h ! hchild ahead n i h)"
proof -
  let ?l = "2 * i + 1" and ?r = "2 * i + 2"
  have val: "valid (h ! k)" if "k < n" for k using assms(2,3) that by simp
  have c: "c = ?l \<or> c = ?r" using assms(4-6) by auto
  have irr: "\<not> behind (h ! c) (h ! c)" using behind_irrefl val assms(5) by blast
  have asym: "\<not> behind (h ! ?r) (h ! ?l)" if "?r < n" "ahead (h ! ?r) (h ! ?l)"
    using behind_asym [OF val val, of ?l ?r] assms(1) that by blast
  show ?thesis
    using c irr asym assms(5) by (cases "?r < n \<and> ahead (h ! ?r) (h ! ?l)") (auto simp: hchild_def Let_def)
qed

lemma broken_at_stop:
  assumes b: "broken_at n i (fst s)" and i: "i < n"
    and stop: "n \<le> 2 * i + 1 \<or> \<not> ahead (fst s ! hchild ahead n i (fst s)) (fst s ! i)"
  shows "up_at n i (fst s)"
proof -
  let ?h = "fst s" and ?j = "hchild ahead n i (fst s)"
  have len: "n \<le> length ?h" and v: "\<forall>x \<in> set ?h. valid x" using b by (auto simp: broken_at_def skips_def)
  have "ok_at ?h k" if k: "0 < k" "k < n" "(k - 1) div 2 = i" for k
  proof -
    have lt: "2 * i + 1 < n" using k by auto
    have "\<not> ahead (?h ! k) (?h ! i)"
      using hchild_first [OF lt len v k] stop lt hchild_cases [OF lt, of ahead ?h]
        not_behind_trans [of "?h ! i" "?h ! ?j" "?h ! k"] v len i k(2) by auto
    with k show ?thesis by (simp add: ok_at_def)
  qed
  with b show ?thesis by (auto simp: up_at_def broken_at_def)
qed

lemma broken_at_step:
  assumes b: "broken_at n i (fst s)" and lt: "2 * i + 1 < n"
    and a: "ahead (fst s ! hchild ahead n i (fst s)) (fst s ! i)"
  shows "down_at n (hchild ahead n i (fst s)) (fst (hswap i (hchild ahead n i (fst s)) s))"
proof -
  define j where "j = hchild ahead n i (fst s)"
  let ?h = "fst s" and ?g = "fst (hswap i j s)"
  have len: "n \<le> length ?h" and v: "\<forall>x \<in> set ?h. valid x"
    and gp: "\<And>c. 0 < i \<Longrightarrow> 0 < c \<Longrightarrow> c < n \<Longrightarrow> (c - 1) div 2 = i \<Longrightarrow> \<not> ahead (?h ! c) (?h ! ((i - 1) div 2))"
    and ok: "\<And>k. 0 < k \<Longrightarrow> k < n \<Longrightarrow> k \<noteq> i \<Longrightarrow> (k - 1) div 2 \<noteq> i \<Longrightarrow> ok_at ?h k"
    using b by (auto simp: broken_at_def skips_def)
  have j: "j < n" "i < j" "(j - 1) div 2 = i" using hchild_cases [OF lt, of ahead ?h] by (auto simp: j_def)
  have val: "valid (?h ! k)" if "k < n" for k using v len that by simp
  have nth: "?g ! k = (if k = j then ?h ! i else if k = i then ?h ! j else ?h ! k)" if "k < n" for k
    using that len j by (intro nth_hswap) auto
  have asym: "\<not> ahead (?h ! i) (?h ! j)"
    using behind_asym [of "?h ! i" "?h ! j"] a val [of i] val [of j] j by (simp add: j_def)
  have "ok_at ?g k" if k: "0 < k" "k < n" "(k - 1) div 2 \<noteq> j" for k
  proof -
    let ?p = "(k - 1) div 2"
    have p: "?p < k" "?p < n" using k by auto
    consider "k = j" | "k \<noteq> j" "?p = i" | "k = i" | "k \<noteq> j" "?p \<noteq> i" "k \<noteq> i" by blast
    then show ?thesis
    proof cases
      case 1
      then show ?thesis using asym nth [of j] nth [of i] j by (simp add: ok_at_def del: One_nat_def)
    next
      case 2
      then show ?thesis using hchild_first [OF lt len v k(1,2)] nth [of k] nth [of i] k j p
        by (simp add: ok_at_def j_def [symmetric] del: One_nat_def)
    next
      case 3
      then show ?thesis using gp [of j] nth [of i] nth [of ?p] k j p by (simp add: ok_at_def del: One_nat_def)
    next
      case 4
      then show ?thesis using ok [of k] k p nth by (simp add: ok_at_def)
    qed
  qed
  moreover have "\<not> ahead (?g ! c) (?g ! ((j - 1) div 2))" if c: "0 < c" "c < n" "(c - 1) div 2 = j" for c
  proof -
    have cj: "c \<noteq> i" "c \<noteq> j" using c j by auto
    then have "ok_at ?h c" using ok [of c] c j by auto
    then show ?thesis using c j cj nth by (simp add: ok_at_def del: One_nat_def)
  qed
  ultimately have "down_at n j ?g"
    using len hswap_valid [OF v, of i j] j by (auto simp: down_at_def skips_def)
  then show ?thesis by (simp add: j_def)
qed

lemma up_at_ok_heap: "up_at n i h \<Longrightarrow> i = 0 \<or> ok_at h i \<Longrightarrow> heap_upto n h"
  by (auto simp: up_at_def heap_upto_def skips_def)

lemma hdown_heap: "down_at n i (fst s) \<Longrightarrow> i < n \<Longrightarrow> heap_upto n (fst (fst (hdown ahead n i s)))"
proof (induction ahead n i s rule: hdown.induct)
  case (1 n i s)
  show ?case
  proof (cases "n \<le> 2 * i + 1 \<or> \<not> ahead (fst s ! hchild ahead n i (fst s)) (fst s ! i)")
    case True
    have "i = 0 \<or> ok_at (fst s) i"
      using "1.prems" by (auto simp: down_at_def)
    then have "heap_upto n (fst s)"
      using up_at_ok_heap [OF broken_at_stop [OF down_at_broken [OF "1.prems"(1)] "1.prems"(2) True]] by blast
    with True show ?thesis by (auto simp: hdown.simps [of _ n i s] Let_def)
  next
    case False
    then have "heap_upto n (fst (fst (hdown ahead n (hchild ahead n i (fst s)) (hswap i (hchild ahead n i (fst s)) s))))"
      using broken_at_step [OF down_at_broken [OF "1.prems"(1)]] hchild_cases [of i n ahead "fst s"]
      by (intro "1.hyps") simp_all
    with False show ?thesis by (simp add: hdown.simps [of _ n i s] Let_def)
  qed
qed

text \<open>From a place that may be wrong both ways: not moved, only \<open>up\<close> is left to do; moved, nothing is.\<close>

lemma hdown_broken:
  assumes b: "broken_at n i (fst s)" and i: "i < n" and d: "hdown ahead n i s = (s', k)"
  shows "\<not> i < k \<Longrightarrow> up_at n i (fst s')" "i < k \<Longrightarrow> heap_upto n (fst s')"
proof -
  let ?j = "hchild ahead n i (fst s)"
  have *: "(\<not> i < k \<longrightarrow> up_at n i (fst s')) \<and> (i < k \<longrightarrow> heap_upto n (fst s'))"
  proof (cases "n \<le> 2 * i + 1 \<or> \<not> ahead (fst s ! ?j) (fst s ! i)")
    case True
    then have "s' = s" "k = i"
      using d by (auto simp: hdown.simps [of _ n i s] Let_def split: if_splits)
    with broken_at_stop [OF b i True] show ?thesis by simp
  next
    case False
    then have lt: "2 * i + 1 < n" and a: "ahead (fst s ! ?j) (fst s ! i)" by auto
    have j: "?j < n" "i < ?j" using hchild_cases [OF lt, of ahead "fst s"] by auto
    have eq: "hdown ahead n ?j (hswap i ?j s) = (s', k)"
      using False d by (simp add: hdown.simps [of _ n i s] Let_def)
    have len: "n \<le> length (fst s)" using b by (simp add: broken_at_def skips_def)
    have "?j \<le> k" using hdown_frame(5) [of n "hswap i ?j s" ?j ahead] eq len by simp
    with j hdown_heap [OF broken_at_step [OF b lt a] j(1)] eq show ?thesis by simp
  qed
  then show "\<not> i < k \<Longrightarrow> up_at n i (fst s')" "i < k \<Longrightarrow> heap_upto n (fst s')" by blast+
qed

definition heap_inv :: "'a hstate \<Rightarrow> bool" where
  "heap_inv s \<longleftrightarrow> heap_upto (length (fst s)) (fst s) \<and> idx_ok s"

lemma heap_top:
  assumes "heap_upto n h" "k < n"
  shows "\<not> ahead (h ! k) (h ! 0)"
  using assms(2)
proof (induction k rule: less_induct)
  case (less k)
  have val: "valid (h ! i)" if "i < n" for i using assms(1) that by (auto simp: heap_upto_def)
  show ?case
  proof (cases "k = 0")
    case True
    then show ?thesis using behind_irrefl val less.prems by blast
  next
    case False
    let ?p = "(k - 1) div 2"
    have p: "?p < k" using False by auto
    have "\<not> ahead (h ! k) (h ! ?p)" using assms(1) False less.prems by (auto simp: heap_upto_def ok_at_def)
    with less.IH [OF p] p less.prems show ?thesis
      using not_behind_trans [of "h ! 0" "h ! ?p" "h ! k"] val by auto
  qed
qed

lemma heap_inv_top: "heap_inv s \<Longrightarrow> x \<in> set (fst s) \<Longrightarrow> \<not> ahead x (fst s ! 0)"
  using heap_top by (fastforce simp: heap_inv_def in_set_conv_nth)

lemma slice_Pop_heap:
  assumes "heap_upto n (fst s)" "length (fst s) = Suc n" "idx_ok s"
  shows "heap_inv (slice_Pop s)" "mset (fst (slice_Pop s)) = mset (fst s) - {#fst s ! n#}"
proof -
  obtain h ix where s: "s = (h, ix)" by (cases s)
  have ne: "h \<noteq> []" using assms(2) by (auto simp: s)
  then have last: "last h = h ! n" using assms(2) by (simp add: s last_conv_nth)
  from ne this have h: "h = butlast h @ [h ! n]" by (metis append_butlast_last_id)
  have "distinct (butlast h)" "\<forall>i < n. ix (butlast h ! i) = i"
    using assms(2,3) by (auto simp: s idx_ok_def distinct_butlast nth_butlast)
  moreover have "ok_at (butlast h) k" if "0 < k" "k < n" for k
  proof -
    have "(k - 1) div 2 < n" using that by auto
    with assms that show ?thesis by (auto simp: s heap_upto_def ok_at_def nth_butlast)
  qed
  ultimately show "heap_inv (slice_Pop s)"
    using assms by (auto simp: s slice_Pop_def heap_inv_def idx_ok_def heap_upto_def dest: in_set_butlastD)
  show "mset (fst (slice_Pop s)) = mset (fst s) - {#fst s ! n#}"
    using arg_cong [OF h, of mset] by (simp add: s slice_Pop_def)
qed

lemma heap_Push_heap:
  assumes "heap_inv s" "valid e" "e \<notin> set (fst s)"
  shows "heap_inv (heap_Push ahead e s)" "mset (fst (heap_Push ahead e s)) = add_mset e (mset (fst s))"
proof -
  obtain h ix where s: "s = (h, ix)" by (cases s)
  let ?s = "slice_Push e s"
  have "up_at (Suc (length h)) (length h) (h @ [e])"
  proof -
    have "ok_at (h @ [e]) k" if k: "0 < k" "k < length h" for k
    proof -
      have "(k - 1) div 2 < length h" using k by auto
      with assms(1) k show ?thesis by (auto simp: s heap_inv_def heap_upto_def ok_at_def nth_append)
    qed
    moreover have "\<not> c < Suc (length h)" if "0 < length h" "0 < c" "(c - 1) div 2 = length h" for c
      using that by linarith
    ultimately show ?thesis using assms by (auto simp: up_at_def skips_def s heap_inv_def heap_upto_def less_Suc_eq)
  qed
  moreover have ix: "idx_ok ?s"
    using assms by (auto simp: s idx_ok_def slice_Push_def heap_inv_def nth_append less_Suc_eq)
  moreover note hup_frame [of "length h" ?s ahead]
  ultimately show "heap_inv (heap_Push ahead e s)"
    using hup_heap [of "Suc (length h)" "length h" ?s] by (simp add: heap_inv_def heap_Push_def s slice_Push_def)
  show "mset (fst (heap_Push ahead e s)) = add_mset e (mset (fst s))"
    using hup_frame(2) [of "length h" ?s ahead] by (simp add: heap_Push_def s slice_Push_def)
qed

lemma swap_last_broken:
  assumes h: "heap_upto (Suc n) (fst s)" and n: "length (fst s) = Suc n" and i: "i < n"
  shows "broken_at n i (fst (hswap i n s))"
proof -
  let ?h = "fst s" and ?g = "fst (hswap i n s)"
  have v: "\<forall>x \<in> set ?h. valid x"
    and ok: "\<And>k. 0 < k \<Longrightarrow> k < n \<Longrightarrow> \<not> ahead (?h ! k) (?h ! ((k - 1) div 2))"
    using h by (auto simp: heap_upto_def ok_at_def)
  have nth: "?g ! k = (if k = i then ?h ! n else ?h ! k)" if "k < n" for k
    using nth_hswap [of i s n k] that n i by auto
  have "ok_at ?g k" if k: "0 < k" "k < n" "k \<noteq> i" "(k - 1) div 2 \<noteq> i" for k
  proof -
    have "(k - 1) div 2 < n" using k by auto
    with ok k show ?thesis by (simp add: ok_at_def nth)
  qed
  moreover have "\<not> ahead (?g ! c) (?g ! ((i - 1) div 2))" if c: "0 < i" "0 < c" "c < n" "(c - 1) div 2 = i" for c
  proof -
    have q: "(i - 1) div 2 < i" "c \<noteq> i" using c by auto
    have "\<not> ahead (?h ! c) (?h ! ((i - 1) div 2))"
      using not_behind_trans [of "?h ! ((i - 1) div 2)" "?h ! i" "?h ! c"] ok [of c] ok [of i] c q i v n by auto
    then show ?thesis using nth c q i by auto
  qed
  ultimately show ?thesis
    using hswap_valid [OF v, of i n] n i by (auto simp: broken_at_def skips_def)
qed

lemma nth_swap_last: "length (fst s) = Suc n \<Longrightarrow> i \<le> n \<Longrightarrow> fst (hswap i n s) ! n = fst s ! i"
  using nth_hswap [of i s n n] by simp

lemma heap_Remove_heap:
  assumes inv: "heap_inv s" and i: "i < length (fst s)"
  shows "heap_inv (heap_Remove ahead i s) \<and> mset (fst (heap_Remove ahead i s)) = mset (fst s) - {#fst s ! i#}"
proof -
  define n where "n = length (fst s) - 1"
  have n: "length (fst s) = Suc n" using i by (simp add: n_def)
  have h: "heap_upto (Suc n) (fst s)" and ix: "idx_ok s" using inv n by (auto simp: heap_inv_def)
  show ?thesis
  proof (cases "n = i")
    case True
    have "heap_upto n (fst s)" using h by (auto simp: heap_upto_def)
    with True slice_Pop_heap [OF this n ix] show ?thesis by (simp add: heap_Remove_def n Let_def)
  next
    case False
    then have lt: "i < n" using i n by simp
    let ?t = "hswap i n s"
    obtain s' k where d: "hdown ahead n i ?t = (s', k)" by fastforce
    note br = hdown_broken [OF swap_last_broken [OF h n lt] lt d]
    have le: "n \<le> length (fst ?t)" using n by simp
    have s': "length (fst s') = Suc n" "mset (fst s') = mset (fst s)" "idx_ok s'" "fst s' ! n = fst s ! i"
      using hdown_frame [OF le, where lt = ahead and i = i] d n ix idx_ok_hswap [OF ix, of i n] nth_swap_last [OF n, of i] lt
      by auto
    define u where "u = (if \<not> i < k then hup ahead i s' else s')"
    have u: "heap_upto n (fst u)" "length (fst u) = Suc n" "mset (fst u) = mset (fst s)" "idx_ok u"
      "fst u ! n = fst s ! i"
      using br s' hup_heap [of n i s'] hup_frame [of i s' ahead] hup_above [of i n s' ahead] lt by (auto simp: u_def)
    have "heap_Remove ahead i s = slice_Pop u"
      using False d by (simp add: heap_Remove_def n u_def Let_def)
    with slice_Pop_heap [OF u(1,2,4)] u show ?thesis by simp
  qed
qed

lemma heap_Pop_heap:
  assumes inv: "heap_inv s" and ne: "fst s \<noteq> []"
  shows "heap_inv (heap_Pop ahead s) \<and> mset (fst (heap_Pop ahead s)) = mset (fst s) - {#fst s ! 0#}"
proof -
  define n where "n = length (fst s) - 1"
  have n: "length (fst s) = Suc n" using ne by (simp add: n_def)
  have h: "heap_upto (Suc n) (fst s)" and ix: "idx_ok s" using inv n by (auto simp: heap_inv_def)
  let ?t = "hswap 0 n s"
  have le: "n \<le> length (fst ?t)" using n by simp
  define u where "u = fst (hdown ahead n 0 ?t)"
  have u: "length (fst u) = Suc n" "mset (fst u) = mset (fst s)" "idx_ok u" "fst u ! n = fst s ! 0"
    using hdown_frame [OF le, where lt = ahead and i = 0] n ix idx_ok_hswap [OF ix, of 0 n] nth_swap_last [OF n, of 0]
    by (auto simp: u_def)
  have "heap_upto n (fst u)"
  proof (cases "n = 0")
    case True
    have "\<forall>x \<in> set (fst u). valid x" using h u(2) by (metis heap_upto_def set_mset_mset)
    then show ?thesis using True by (simp add: heap_upto_def)
  next
    case False
    then have "down_at n 0 (fst ?t)"
      using swap_last_broken [OF h n, of 0] by (auto simp: down_at_def broken_at_def)
    then show ?thesis using hdown_heap False by (auto simp: u_def)
  qed
  moreover have "heap_Pop ahead s = slice_Pop u" by (simp add: heap_Pop_def u_def n_def Let_def)
  ultimately show ?thesis using slice_Pop_heap u by auto
qed

end

end
