(* ===== verification/Engine.thy ===== *)
theory Engine
  imports GoHeap
begin

text \<open>
  The reference contestant, \<open>samples/reference-orderbook/engine/orderbook.go\<close>: a matching engine on two
  binary heaps with an id index per side. Orders are heap objects shared by the maps and the heaps, so
  the model has an explicit store of orders; a heap entry is named by the address of its order, and its
  \<open>idx\<close> field is the index component of the heap state. The bid and ask halves of the source mirror each
  other and are one definition with a \<open>Side\<close> argument here. The lemmas show that the heaps, the indices
  and the order table stay consistent under each primitive step, and that the snapshot is sorted.
\<close>

section \<open>Data\<close>

type_synonym addr = nat

record EOrder =
  eoID :: string
  eoSide :: Side
  eoPrice :: f64
  eoQty :: int64
  eoRemaining :: int64
  eoAt :: int64

record Fill =
  BuyOrderID :: string
  SellOrderID :: string
  fPrice :: f64
  fQty :: int64

record Level =
  lPrice :: f64
  lQty :: int64

record OrderBook =
  ob_store :: "addr \<Rightarrow> EOrder"
  ob_bids :: "addr hstate"
  ob_asks :: "addr hstate"
  ob_orders :: "string \<rightharpoonup> addr"
  ob_bidIndex :: "string \<rightharpoonup> addr"
  ob_askIndex :: "string \<rightharpoonup> addr"

fun opposite :: "Side \<Rightarrow> Side" where
  "opposite Buy = Sell"
| "opposite Sell = Buy"

fun side_heap :: "OrderBook \<Rightarrow> Side \<Rightarrow> addr hstate" where
  "side_heap ob Buy = ob_bids ob"
| "side_heap ob Sell = ob_asks ob"

fun set_side_heap :: "Side \<Rightarrow> addr hstate \<Rightarrow> OrderBook \<Rightarrow> OrderBook" where
  "set_side_heap Buy h ob = ob\<lparr>ob_bids := h\<rparr>"
| "set_side_heap Sell h ob = ob\<lparr>ob_asks := h\<rparr>"

fun side_index :: "OrderBook \<Rightarrow> Side \<Rightarrow> string \<rightharpoonup> addr" where
  "side_index ob Buy = ob_bidIndex ob"
| "side_index ob Sell = ob_askIndex ob"

fun set_side_index :: "Side \<Rightarrow> (string \<rightharpoonup> addr) \<Rightarrow> OrderBook \<Rightarrow> OrderBook" where
  "set_side_index Buy m ob = ob\<lparr>ob_bidIndex := m\<rparr>"
| "set_side_index Sell m ob = ob\<lparr>ob_askIndex := m\<rparr>"

definition set_remaining :: "addr \<Rightarrow> int64 \<Rightarrow> OrderBook \<Rightarrow> OrderBook" where
  "set_remaining a q ob = ob\<lparr>ob_store := (ob_store ob)(a := (ob_store ob a)\<lparr>eoRemaining := q\<rparr>)\<rparr>"

text \<open>\<open>bidHeap.Less\<close> and \<open>askHeap.Less\<close> on the orders two entries point to.\<close>

fun heap_Less :: "Side \<Rightarrow> EOrder \<Rightarrow> EOrder \<Rightarrow> bool" where
  "heap_Less Buy x y = (if \<not> feq (eoPrice x) (eoPrice y) then flt (eoPrice y) (eoPrice x) else eoAt x < eoAt y)"
| "heap_Less Sell x y = (if \<not> feq (eoPrice x) (eoPrice y) then flt (eoPrice x) (eoPrice y) else eoAt x < eoAt y)"

definition entry_Less :: "OrderBook \<Rightarrow> Side \<Rightarrow> addr \<Rightarrow> addr \<Rightarrow> bool" where
  "entry_Less ob s a c = heap_Less s (ob_store ob a) (ob_store ob c)"

definition NewOrderBook :: "(addr \<Rightarrow> EOrder) \<Rightarrow> OrderBook" where
  "NewOrderBook st = \<lparr>ob_store = st, ob_bids = ([], \<lambda>_. 0), ob_asks = ([], \<lambda>_. 0), ob_orders = Map.empty,
     ob_bidIndex = Map.empty, ob_askIndex = Map.empty\<rparr>"

section \<open>Matching\<close>

text \<open>\<open>popAsk\<close> and \<open>popBid\<close>: \<open>heap.Pop\<close> returns the entry that was at the top.\<close>

definition pop_side :: "Side \<Rightarrow> OrderBook \<Rightarrow> OrderBook" where
  "pop_side s ob =
     (let e = fst (side_heap ob s) ! 0;
          ob1 = set_side_heap s (heap_Pop (entry_Less ob s) (side_heap ob s)) ob
      in set_side_index s ((side_index ob1 s)(eoID (ob_store ob1 e) := None)) ob1)"

definition popAsk :: "OrderBook \<Rightarrow> OrderBook" where
  "popAsk = pop_side Sell"

definition popBid :: "OrderBook \<Rightarrow> OrderBook" where
  "popBid = pop_side Buy"

lemma opposite_neq [simp]: "opposite s \<noteq> s" "opposite (opposite s) = s"
  by (cases s; simp)+

lemma side_get_set [simp]:
  "side_heap (set_side_heap s h ob) t = (if t = s then h else side_heap ob t)"
  "side_heap (set_side_index s m ob) t = side_heap ob t"
  "side_index (set_side_index s m ob) t = (if t = s then m else side_index ob t)"
  "side_index (set_side_heap s h ob) t = side_index ob t"
  "ob_store (set_side_heap s h ob) = ob_store ob" "ob_store (set_side_index s m ob) = ob_store ob"
  "ob_orders (set_side_heap s h ob) = ob_orders ob" "ob_orders (set_side_index s m ob) = ob_orders ob"
  by (cases s; cases t; simp)+

lemma set_remaining_simps [simp]:
  "side_heap (set_remaining a q ob) t = side_heap ob t" "side_index (set_remaining a q ob) t = side_index ob t"
  "ob_orders (set_remaining a q ob) = ob_orders ob"
  "ob_store (set_remaining a q ob) c = (if c = a then (ob_store ob a)\<lparr>eoRemaining := q\<rparr> else ob_store ob c)"
  by (cases t; simp add: set_remaining_def)+

lemma orders_update_simps [simp]:
  "side_heap (ob\<lparr>ob_orders := m\<rparr>) t = side_heap ob t" "side_index (ob\<lparr>ob_orders := m\<rparr>) t = side_index ob t"
  by (cases t; simp)+

lemma length_heap_Pop [simp]: "length (fst (heap_Pop lt s)) = length (fst s) - 1"
  using hdown_frame(1) [of "length (fst s) - 1" "hswap 0 (length (fst s) - 1) s" lt 0]
  by (cases "fst (hdown lt (length (fst s) - 1) 0 (hswap 0 (length (fst s) - 1) s))")
    (simp add: heap_Pop_def slice_Pop_def Let_def)

lemma pop_side_simps [simp]:
  "side_heap (pop_side s ob) t = (if t = s then heap_Pop (entry_Less ob s) (side_heap ob s) else side_heap ob t)"
  "ob_store (pop_side s ob) = ob_store ob" "ob_orders (pop_side s ob) = ob_orders ob"
  "side_index (pop_side s ob) t = (if t = s
     then (side_index ob s)(eoID (ob_store ob (fst (side_heap ob s) ! 0)) := None) else side_index ob t)"
  by (simp_all add: pop_side_def Let_def)

text \<open>The inner loop that skips exhausted tops.\<close>

function skip_exhausted :: "Side \<Rightarrow> OrderBook \<Rightarrow> OrderBook" where
  "skip_exhausted s ob =
     (if fst (side_heap ob s) \<noteq> [] \<and> eoRemaining (ob_store ob (fst (side_heap ob s) ! 0)) = 0
      then skip_exhausted s (pop_side s ob) else ob)"
  by pat_completeness auto
termination
  by (relation "measure (\<lambda>(s, ob). length (fst (side_heap ob s)))") auto

declare skip_exhausted.simps [simp del]

lemma skip_exhausted_frame:
  "length (fst (side_heap (skip_exhausted s ob) s)) \<le> length (fst (side_heap ob s))"
  "ob_store (skip_exhausted s ob) = ob_store ob"
  "fst (side_heap (skip_exhausted s ob) s) \<noteq> [] \<Longrightarrow>
     eoRemaining (ob_store ob (fst (side_heap (skip_exhausted s ob) s) ! 0)) \<noteq> 0"
proof (induction s ob rule: skip_exhausted.induct)
  case (1 s ob)
  {
    case 1
    show ?case using "1.IH"(1) by (subst skip_exhausted.simps) (auto split: if_splits)
  next
    case 2
    show ?case using "1.IH"(2) by (subst skip_exhausted.simps) simp
  next
    case 3
    then show ?case using "1.IH"(3) by (subst (asm) skip_exhausted.simps, subst skip_exhausted.simps)
        (simp split: if_splits)
  }
qed

text \<open>One fill between the incoming order \<open>a\<close> and the best resting order on side \<open>s\<close>.\<close>

definition make_fill :: "Side \<Rightarrow> EOrder \<Rightarrow> EOrder \<Rightarrow> int64 \<Rightarrow> Fill" where
  "make_fill s o' best qty = (case s of
     Sell \<Rightarrow> \<lparr>BuyOrderID = eoID o', SellOrderID = eoID best, fPrice = eoPrice best, fQty = qty\<rparr>
   | Buy \<Rightarrow> \<lparr>BuyOrderID = eoID best, SellOrderID = eoID o', fPrice = eoPrice best, fQty = qty\<rparr>)"

definition fill_best :: "Side \<Rightarrow> addr \<Rightarrow> OrderBook \<Rightarrow> OrderBook \<times> Fill" where
  "fill_best s a ob =
     (let best = fst (side_heap ob s) ! 0;
          qty = min64 (eoRemaining (ob_store ob a)) (eoRemaining (ob_store ob best));
          f = make_fill s (ob_store ob a) (ob_store ob best) qty;
          ob1 = set_remaining a (eoRemaining (ob_store ob a) - qty) ob;
          ob2 = set_remaining best (eoRemaining (ob_store ob1 best) - qty) ob1;
          ob3 = (if eoRemaining (ob_store ob2 best) = 0 then pop_side s ob2 else ob2)
      in (ob3, f))"

text \<open>The price check of \<open>Place\<close>; a market order has none.\<close>

definition out_of_reach :: "Side \<Rightarrow> f64 option \<Rightarrow> f64 \<Rightarrow> bool" where
  "out_of_reach s limit best = (case limit of None \<Rightarrow> False
     | Some p \<Rightarrow> (case s of Sell \<Rightarrow> flt p best | Buy \<Rightarrow> flt best p))"

function match_loop :: "Side \<Rightarrow> f64 option \<Rightarrow> addr \<Rightarrow> OrderBook \<Rightarrow> Fill list \<Rightarrow> OrderBook \<times> Fill list" where
  "match_loop s limit a ob fills =
     (if 0 < eoRemaining (ob_store ob a) \<and> fst (side_heap ob s) \<noteq> []
      then let ob1 = skip_exhausted s ob
           in if fst (side_heap ob1 s) = [] then (ob1, fills)
              else if out_of_reach s limit (eoPrice (ob_store ob1 (fst (side_heap ob1 s) ! 0))) then (ob1, fills)
              else match_loop s limit a (fst (fill_best s a ob1)) (fills @ [snd (fill_best s a ob1)])
      else (ob, fills))"
  by pat_completeness auto
termination
proof (relation "measure (\<lambda>(s, _, a, ob, _).
    length (fst (side_heap ob s)) + (if 0 < eoRemaining (ob_store ob a) then 1 else 0))", goal_cases)
  case (2 s limit a ob fills ob1)
  note fr = skip_exhausted_frame [of s ob]
  let ?r = "fst (side_heap ob1 s) ! 0"
  have ne: "fst (side_heap ob1 s) \<noteq> []" and r: "eoRemaining (ob_store ob ?r) \<noteq> 0"
    using 2 fr(3) by auto
  then have pos: "0 < length (fst (side_heap ob1 s))" by simp
  have "length (fst (side_heap (fst (fill_best s a ob1)) s)) +
      (if 0 < eoRemaining (ob_store (fst (fill_best s a ob1)) a) then 1 else 0)
      < length (fst (side_heap ob1 s)) + 1"
    using 2 r pos by (auto simp: fill_best_def Let_def min64_def fr(2))
  then show ?case using 2 fr(1) by (auto simp: fr(2))
qed simp

declare match_loop.simps [simp del]

section \<open>Place, PlaceMarket, Cancel\<close>

text \<open>The errors of the three operations, each with the id its message names.\<close>

datatype engine_error = DuplicateOrder string | OrderNotFound string

definition rest_order :: "Side \<Rightarrow> addr \<Rightarrow> OrderBook \<Rightarrow> OrderBook" where
  "rest_order s a ob =
     (let ob1 = set_side_heap s (heap_Push (entry_Less ob s) a (side_heap ob s)) ob
      in set_side_index s ((side_index ob1 s)(eoID (ob_store ob1 a) \<mapsto> a)) ob1)"

text \<open>What \<open>Place\<close> and \<open>PlaceMarket\<close> do before matching, once the id is known to be new.\<close>

definition register :: "addr \<Rightarrow> OrderBook \<Rightarrow> OrderBook" where
  "register a ob =
     (let ob1 = (if eoRemaining (ob_store ob a) = 0 then set_remaining a (eoQty (ob_store ob a)) ob else ob)
      in ob1\<lparr>ob_orders := (ob_orders ob1)(eoID (ob_store ob1 a) \<mapsto> a)\<rparr>)"

definition ob_Place :: "OrderBook \<Rightarrow> addr \<Rightarrow> OrderBook \<times> (engine_error + Fill list)" where
  "ob_Place ob a =
     (let o' = ob_store ob a in
      if ob_orders ob (eoID o') \<noteq> None then (ob, Inl (DuplicateOrder (eoID o')))
      else case match_loop (opposite (eoSide o')) (Some (eoPrice o')) a (register a ob) [] of
        (ob2, fills) \<Rightarrow>
          (if 0 < eoRemaining (ob_store ob2 a) then rest_order (eoSide o') a ob2 else ob2, Inr fills))"

definition ob_PlaceMarket :: "OrderBook \<Rightarrow> addr \<Rightarrow> OrderBook \<times> (engine_error + Fill list)" where
  "ob_PlaceMarket ob a =
     (let o' = ob_store ob a in
      if ob_orders ob (eoID o') \<noteq> None then (ob, Inl (DuplicateOrder (eoID o')))
      else case match_loop (opposite (eoSide o')) None a (register a ob) [] of
        (ob2, fills) \<Rightarrow> (ob2\<lparr>ob_orders := (ob_orders ob2)(eoID o' := None)\<rparr>, Inr fills))"

text \<open>The two removals of \<open>Cancel\<close>.\<close>

definition unindex :: "Side \<Rightarrow> string \<Rightarrow> OrderBook \<Rightarrow> OrderBook" where
  "unindex s i ob = (case side_index ob s i of None \<Rightarrow> ob
     | Some e \<Rightarrow>
        let ob1 = set_side_heap s (heap_Remove (entry_Less ob s) (snd (side_heap ob s) e) (side_heap ob s)) ob
        in set_side_index s ((side_index ob1 s)(i := None)) ob1)"

definition ob_Cancel :: "OrderBook \<Rightarrow> string \<Rightarrow> OrderBook \<times> engine_error option" where
  "ob_Cancel ob i = (case ob_orders ob i of
     None \<Rightarrow> (ob, Some (OrderNotFound i))
   | Some a \<Rightarrow>
       let ob1 = set_remaining a 0 ob;
           ob2 = ob1\<lparr>ob_orders := (ob_orders ob1)(i := None)\<rparr>
       in (unindex Sell i (unindex Buy i ob2), None))"

section \<open>Snapshot\<close>

definition add_level :: "(f64 \<rightharpoonup> int64) \<Rightarrow> EOrder \<Rightarrow> (f64 \<rightharpoonup> int64)" where
  "add_level m o' =
     (if 0 < eoRemaining o'
      then m(eoPrice o' \<mapsto> wrap64 ((case m (eoPrice o') of None \<Rightarrow> 0 | Some q \<Rightarrow> q) + eoRemaining o')) else m)"

definition side_levels :: "OrderBook \<Rightarrow> Side \<Rightarrow> (f64 \<rightharpoonup> int64)" where
  "side_levels ob s = foldl add_level Map.empty (map (ob_store ob) (fst (side_heap ob s)))"

definition better_level :: "bool \<Rightarrow> Level \<Rightarrow> Level \<Rightarrow> bool" where
  "better_level desc x y = (if desc then flt (lPrice y) (lPrice x) else flt (lPrice x) (lPrice y))"

function sort_inner :: "bool \<Rightarrow> nat \<Rightarrow> nat \<Rightarrow> Level list \<Rightarrow> Level list" where
  "sort_inner desc i j ls =
     (if j < length ls
      then sort_inner desc i (j + 1) (if better_level desc (ls ! j) (ls ! i) then ls[i := ls ! j, j := ls ! i] else ls)
      else ls)"
  by pat_completeness auto
termination
  by (relation "measure (\<lambda>(_, _, j, ls). length ls - j)") auto

declare sort_inner.simps [simp del]

lemma length_sort_inner [simp]: "length (sort_inner desc i j ls) = length ls"
  by (induction desc i j ls rule: sort_inner.induct) (simp add: sort_inner.simps)

function sort_outer :: "bool \<Rightarrow> nat \<Rightarrow> Level list \<Rightarrow> Level list" where
  "sort_outer desc i ls =
     (if i < length ls then sort_outer desc (i + 1) (sort_inner desc i (i + 1) ls) else ls)"
  by pat_completeness auto
termination
  by (relation "measure (\<lambda>(_, i, ls). length ls - i)") auto

declare sort_outer.simps [simp del]

definition sortLevels :: "Level list \<Rightarrow> bool \<Rightarrow> Level list" where
  "sortLevels ls desc = sort_outer desc 0 ls"

text \<open>\<open>bks\<close> and \<open>aks\<close> are the orders in which the two price maps are ranged over.\<close>

definition levels_of :: "f64 list \<Rightarrow> (f64 \<rightharpoonup> int64) \<Rightarrow> Level list" where
  "levels_of ks m = map (\<lambda>p. \<lparr>lPrice = p, lQty = the (m p)\<rparr>) (filter (\<lambda>p. m p \<noteq> None) ks)"

definition Snapshot :: "f64 list \<Rightarrow> f64 list \<Rightarrow> OrderBook \<Rightarrow> Level list \<times> Level list" where
  "Snapshot bks aks ob =
     (sortLevels (levels_of bks (side_levels ob Buy)) True, sortLevels (levels_of aks (side_levels ob Sell)) False)"

section \<open>Structure of the book\<close>

text \<open>
  Each side is a heap for its order with correct \<open>idx\<close> fields, the id indices hold exactly the resting
  orders, and the order table has every resting order under its id. Nothing here looks at remaining
  quantities; those of resting orders are positive.
\<close>

definition resting :: "OrderBook \<Rightarrow> Side \<Rightarrow> addr set" where
  "resting ob s = set (fst (side_heap ob s))"

abbreviation entry_behind :: "OrderBook \<Rightarrow> Side \<Rightarrow> addr \<Rightarrow> addr \<Rightarrow> bool" where
  "entry_behind ob s x y \<equiv> entry_Less ob s y x"

definition entry_priced :: "OrderBook \<Rightarrow> addr \<Rightarrow> bool" where
  "entry_priced ob a \<longleftrightarrow> eoPrice (ob_store ob a) \<noteq> NaN"

definition struct_inv :: "OrderBook \<Rightarrow> bool" where
  "struct_inv ob \<longleftrightarrow>
     (\<forall>s. priority_order.heap_inv (entry_behind ob s) (entry_priced ob) (side_heap ob s))
   \<and> (\<forall>s. \<forall>a \<in> resting ob s. eoSide (ob_store ob a) = s \<and> ob_orders ob (eoID (ob_store ob a)) = Some a)
   \<and> (\<forall>s i a. side_index ob s i = Some a \<longleftrightarrow> a \<in> resting ob s \<and> eoID (ob_store ob a) = i)
   \<and> (\<forall>i a. ob_orders ob i = Some a \<longrightarrow> eoID (ob_store ob a) = i)"

definition engine_inv :: "OrderBook \<Rightarrow> bool" where
  "engine_inv ob \<longleftrightarrow> struct_inv ob \<and> (\<forall>s. \<forall>a \<in> resting ob s. 0 < eoRemaining (ob_store ob a))"

text \<open>
  An engine order seen as an order of the reference book; \<open>f\<close> translates the engine's clock into the
  timestamps of the book.
\<close>

definition view :: "(int64 \<Rightarrow> int64) \<Rightarrow> EOrder \<Rightarrow> Order" where
  "view f x = \<lparr>oID = eoID x, oSide = eoSide x, oPrice = eoPrice x, oQty = eoRemaining x, oTsNs = f (eoAt x)\<rparr>"

fun behind_of :: "Side \<Rightarrow> Order \<Rightarrow> Order \<Rightarrow> bool" where
  "behind_of Buy = bid_behind"
| "behind_of Sell = ask_behind"

lemma behind_of_order: "priority_order (behind_of s) priced"
  by (cases s) (simp_all add: bid.priority_order_axioms ask.priority_order_axioms)

lemma priority_order_pull:
  "priority_order beh ok \<Longrightarrow> priority_order (\<lambda>x y. beh (g x) (g y)) (\<lambda>x. ok (g x))"
  unfolding priority_order_def by blast

lemma entry_Less_view: "entry_Less ob s x y = behind_of s (view (\<lambda>t. t) (ob_store ob y)) (view (\<lambda>t. t) (ob_store ob x))"
  by (cases s) (auto simp: entry_Less_def view_def bid_behind_def ask_behind_def feq_def)

lemma entry_order: "priority_order (entry_behind ob s) (entry_priced ob)"
  using priority_order_pull [OF behind_of_order, of s "\<lambda>a. view (\<lambda>t. t) (ob_store ob a)"]
  by (simp add: entry_Less_view entry_priced_def [abs_def] priced_def view_def)

lemma entry_heapD:
  assumes "priority_order.heap_inv (entry_behind ob s) (entry_priced ob) h"
  shows "distinct (fst h)" "\<And>i. i < length (fst h) \<Longrightarrow> snd h (fst h ! i) = i" "\<And>a. a \<in> set (fst h) \<Longrightarrow> entry_priced ob a"
  using assms
  by (auto simp: priority_order.heap_inv_def [OF entry_order] priority_order.heap_upto_def [OF entry_order] idx_ok_def)

lemma struct_invD:
  assumes "struct_inv ob"
  shows "priority_order.heap_inv (entry_behind ob s) (entry_priced ob) (side_heap ob s)"
    "a \<in> resting ob s \<Longrightarrow> eoSide (ob_store ob a) = s"
    "a \<in> resting ob s \<Longrightarrow> ob_orders ob (eoID (ob_store ob a)) = Some a"
    "side_index ob s i = Some a \<longleftrightarrow> a \<in> resting ob s \<and> eoID (ob_store ob a) = i"
    "ob_orders ob i = Some a \<Longrightarrow> eoID (ob_store ob a) = i"
    "distinct (fst (side_heap ob s))"
    "a \<in> resting ob s \<Longrightarrow> entry_priced ob a"
proof -
  show h: "priority_order.heap_inv (entry_behind ob s) (entry_priced ob) (side_heap ob s)"
    using assms by (simp add: struct_inv_def)
  show "distinct (fst (side_heap ob s))" by (rule entry_heapD [OF h])
  show "a \<in> resting ob s \<Longrightarrow> entry_priced ob a" by (rule entry_heapD(3) [OF h]) (simp add: resting_def)
qed (use assms in \<open>auto simp: struct_inv_def\<close>)

text \<open>Two resting orders never share an id, and no order rests on both sides.\<close>

lemma resting_id_unique:
  "struct_inv ob \<Longrightarrow> a \<in> resting ob s \<Longrightarrow> c \<in> resting ob t \<Longrightarrow> eoID (ob_store ob a) = eoID (ob_store ob c) \<Longrightarrow> a = c"
  by (metis option.inject struct_invD(3))

lemma entry_Less_remaining [simp]: "entry_Less (set_remaining a q ob) s = entry_Less ob s"
  by (rule ext, rule ext, cases s) (simp_all add: entry_Less_def)

lemma entry_priced_remaining [simp]: "entry_priced (set_remaining a q ob) = entry_priced ob"
  by (rule ext) (simp add: entry_priced_def)

lemma resting_remaining [simp]: "resting (set_remaining a q ob) s = resting ob s"
  by (simp add: resting_def)

lemma struct_inv_remaining [simp]: "struct_inv (set_remaining a q ob) = struct_inv ob"
proof -
  have "eoID (ob_store (set_remaining a q ob) c) = eoID (ob_store ob c)"
    "eoSide (ob_store (set_remaining a q ob) c) = eoSide (ob_store ob c)" for c by simp_all
  then show ?thesis by (simp only: struct_inv_def entry_Less_remaining entry_priced_remaining
        resting_remaining set_remaining_simps(1-3))
qed

lemma entry_same_store [simp]:
  "entry_Less (set_side_heap s h ob) = entry_Less ob" "entry_Less (set_side_index s m ob) = entry_Less ob"
  "entry_Less (pop_side s ob) = entry_Less ob" "entry_Less (ob\<lparr>ob_orders := orders\<rparr>) = entry_Less ob"
  "entry_priced (set_side_heap s h ob) = entry_priced ob" "entry_priced (set_side_index s m ob) = entry_priced ob"
  "entry_priced (pop_side s ob) = entry_priced ob" "entry_priced (ob\<lparr>ob_orders := orders\<rparr>) = entry_priced ob"
  by (simp_all add: fun_eq_iff entry_Less_def entry_priced_def)

lemma resting_simps [simp]:
  "resting (set_side_heap s h ob) t = (if t = s then set (fst h) else resting ob t)"
  "resting (set_side_index s m ob) t = resting ob t" "resting (ob\<lparr>ob_orders := orders\<rparr>) t = resting ob t"
  by (simp_all add: resting_def)

lemma set_minus_distinct: "distinct xs \<Longrightarrow> mset ys = mset xs - {#x#} \<Longrightarrow> set ys = set xs - {x}"
  by (metis mset_remove1 set_mset_mset set_remove1_eq)

text \<open>Taking one order out of a heap and of its index, and putting one in.\<close>

lemma struct_inv_remove:
  assumes inv: "struct_inv ob" and r: "r \<in> resting ob s"
    and h: "priority_order.heap_inv (entry_behind ob s) (entry_priced ob) h" "set (fst h) = resting ob s - {r}"
  shows "struct_inv (set_side_index s ((side_index ob s)(eoID (ob_store ob r) := None)) (set_side_heap s h ob))"
proof -
  note I = struct_invD [OF inv]
  have "(((side_index ob s)(eoID (ob_store ob r) := None)) i = Some a) \<longleftrightarrow>
      a \<in> resting ob s - {r} \<and> eoID (ob_store ob a) = i" for i a
    using I(4) [of s i a] resting_id_unique [OF inv r, of a s] by auto
  then show ?thesis
    using I h by (auto simp: struct_inv_def)
qed

lemma struct_inv_add:
  assumes inv: "struct_inv ob" and a: "\<And>t. a \<notin> resting ob t" "eoSide (ob_store ob a) = s" "ob_orders ob (eoID (ob_store ob a)) = Some a"
    and h: "priority_order.heap_inv (entry_behind ob s) (entry_priced ob) h" "set (fst h) = insert a (resting ob s)"
  shows "struct_inv (set_side_index s ((side_index ob s)(eoID (ob_store ob a) \<mapsto> a)) (set_side_heap s h ob))"
proof -
  note I = struct_invD [OF inv]
  have "(((side_index ob s)(eoID (ob_store ob a) \<mapsto> a)) i = Some c) \<longleftrightarrow>
      c \<in> insert a (resting ob s) \<and> eoID (ob_store ob c) = i" for i c
  proof (cases "eoID (ob_store ob a) = i")
    case True
    have "c = a" if "c \<in> resting ob s" "eoID (ob_store ob c) = i"
      using I(3) [OF that(1)] that(2) a(3) True by simp
    with True show ?thesis by auto
  next
    case False
    then show ?thesis using I(4) [of s i c] by auto
  qed
  moreover have "eoSide (ob_store ob c) = s \<and> ob_orders ob (eoID (ob_store ob c)) = Some c"
    if "c \<in> set (fst h)" for c using that h(2) a(2,3) I(2,3) [of c s] by (cases "c = a") auto
  ultimately show ?thesis
    using I(1-5) h unfolding struct_inv_def by (simp add: h(2) del: fun_upd_apply)
qed

lemma pop_side_struct:
  assumes inv: "struct_inv ob" and ne: "fst (side_heap ob s) \<noteq> []"
  shows "struct_inv (pop_side s ob)"
    and "resting (pop_side s ob) t = (if t = s then resting ob s - {fst (side_heap ob s) ! 0} else resting ob t)"
    and "mset (fst (side_heap (pop_side s ob) s)) = mset (fst (side_heap ob s)) - {#fst (side_heap ob s) ! 0#}"
proof -
  let ?h = "heap_Pop (entry_Less ob s) (side_heap ob s)" and ?r = "fst (side_heap ob s) ! 0"
  note I = struct_invD [OF inv]
  have r: "?r \<in> resting ob s" using ne by (simp add: resting_def)
  note P = priority_order.heap_Pop_heap [OF entry_order I(1) ne]
  have set: "set (fst ?h) = resting ob s - {?r}"
    unfolding resting_def using set_minus_distinct [OF I(6)] P by blast
  show "struct_inv (pop_side s ob)"
    using struct_inv_remove [OF inv r, of ?h] P set by (simp add: pop_side_def Let_def)
  show "resting (pop_side s ob) t = (if t = s then resting ob s - {?r} else resting ob t)"
    using set by (simp add: resting_def)
  show "mset (fst (side_heap (pop_side s ob) s)) = mset (fst (side_heap ob s)) - {#?r#}"
    using P by simp
qed

lemma rest_order_struct:
  assumes inv: "struct_inv ob" and a: "\<And>t. a \<notin> resting ob t" "eoSide (ob_store ob a) = s"
      "ob_orders ob (eoID (ob_store ob a)) = Some a" "eoPrice (ob_store ob a) \<noteq> NaN"
  shows "struct_inv (rest_order s a ob)"
    and "resting (rest_order s a ob) t = (if t = s then insert a (resting ob s) else resting ob t)"
    and "mset (fst (side_heap (rest_order s a ob) s)) = add_mset a (mset (fst (side_heap ob s)))"
    and "t \<noteq> s \<Longrightarrow> side_heap (rest_order s a ob) t = side_heap ob t"
    and "ob_store (rest_order s a ob) = ob_store ob" "ob_orders (rest_order s a ob) = ob_orders ob"
proof -
  let ?h = "heap_Push (entry_Less ob s) a (side_heap ob s)"
  have "entry_priced ob a" "a \<notin> set (fst (side_heap ob s))"
    using a(1,4) by (auto simp: entry_priced_def resting_def)
  note P = priority_order.heap_Push_heap [OF entry_order struct_invD(1) [OF inv] this]
  have set: "set (fst ?h) = insert a (resting ob s)"
    using arg_cong [OF P(2), of set_mset] by (simp add: resting_def)
  show "struct_inv (rest_order s a ob)"
    using struct_inv_add [OF inv a(1-3) P(1) set] by (simp add: rest_order_def Let_def)
  show "resting (rest_order s a ob) t = (if t = s then insert a (resting ob s) else resting ob t)"
    "mset (fst (side_heap (rest_order s a ob) s)) = add_mset a (mset (fst (side_heap ob s)))"
    using set P(2) by (simp_all add: rest_order_def Let_def)
qed (simp_all add: rest_order_def Let_def)

text \<open>The recorded index of a resting order is its place, so \<open>heap.Remove\<close> takes out that order.\<close>

lemma recorded_index:
  assumes "struct_inv ob" "a \<in> resting ob s"
  shows "snd (side_heap ob s) a < length (fst (side_heap ob s)) \<and> fst (side_heap ob s) ! snd (side_heap ob s) a = a"
  using assms(2) entry_heapD(2) [OF struct_invD(1) [OF assms(1)]] by (auto simp: resting_def in_set_conv_nth)

lemma unindex_struct:
  assumes inv: "struct_inv ob"
  shows "struct_inv (unindex s i ob)"
    and "resting (unindex s i ob) t = resting ob t - (if t = s then {a. eoID (ob_store ob a) = i} else {})"
    and "a \<in> resting ob s \<Longrightarrow> eoID (ob_store ob a) = i \<Longrightarrow>
       mset (fst (side_heap (unindex s i ob) s)) = mset (fst (side_heap ob s)) - {#a#}"
    and "t \<noteq> s \<or> side_index ob s i = None \<Longrightarrow> side_heap (unindex s i ob) t = side_heap ob t"
    and "ob_store (unindex s i ob) = ob_store ob" "ob_orders (unindex s i ob) = ob_orders ob"
    and "t \<noteq> s \<Longrightarrow> side_index (unindex s i ob) t = side_index ob t"
proof -
  note I = struct_invD [OF inv]
  have *: "struct_inv (unindex s i ob)
     \<and> resting (unindex s i ob) t = resting ob t - (if t = s then {a. eoID (ob_store ob a) = i} else {})
     \<and> (a \<in> resting ob s \<longrightarrow> eoID (ob_store ob a) = i \<longrightarrow>
          mset (fst (side_heap (unindex s i ob) s)) = mset (fst (side_heap ob s)) - {#a#})" for t a
  proof (cases "side_index ob s i")
    case None
    then have "{a \<in> resting ob s. eoID (ob_store ob a) = i} = {}" using I(4) [of s i] by auto
    with None inv show ?thesis by (auto simp: unindex_def)
  next
    case (Some r)
    then have r: "r \<in> resting ob s" "eoID (ob_store ob r) = i" using I(4) by auto
    note ix = recorded_index [OF inv r(1)]
    let ?h = "heap_Remove (entry_Less ob s) (snd (side_heap ob s) r) (side_heap ob s)"
    note R = priority_order.heap_Remove_heap [OF entry_order I(1), OF ix [THEN conjunct1]]
    have set: "set (fst ?h) = resting ob s - {r}"
      unfolding resting_def using set_minus_distinct [OF I(6)] R ix by metis
    have u: "c = r" if "c \<in> resting ob s" "eoID (ob_store ob c) = i" for c
      using resting_id_unique [OF inv that(1) r(1)] that(2) r(2) by simp
    have eq: "unindex s i ob = set_side_index s ((side_index ob s)(i := None)) (set_side_heap s ?h ob)"
      using Some by (simp add: unindex_def Let_def)
    have "struct_inv (unindex s i ob)"
      using struct_inv_remove [OF inv r(1), of ?h] R set r(2) by (simp add: eq)
    moreover have "resting (unindex s i ob) t = resting ob t - (if t = s then {a. eoID (ob_store ob a) = i} else {})"
      using set u r(2) by (auto simp: eq)
    ultimately show ?thesis using u R ix by (auto simp: eq)
  qed
  show "struct_inv (unindex s i ob)"
    "resting (unindex s i ob) t = resting ob t - (if t = s then {a. eoID (ob_store ob a) = i} else {})"
    "a \<in> resting ob s \<Longrightarrow> eoID (ob_store ob a) = i \<Longrightarrow>
       mset (fst (side_heap (unindex s i ob) s)) = mset (fst (side_heap ob s)) - {#a#}"
    using * by blast+
qed (auto simp: unindex_def Let_def split: option.splits)

section \<open>The snapshot is sorted\<close>

definition level_priced :: "Level \<Rightarrow> bool" where
  "level_priced l \<longleftrightarrow> lPrice l \<noteq> NaN"

lemma level_order: "priority_order (\<lambda>x y. better_level desc y x) level_priced"
proof -
  define g where "g l = \<lparr>oID = '''', oSide = Buy, oPrice = lPrice l, oQty = 0, oTsNs = 0\<rparr>" for l :: Level
  have "better_level desc y x = behind_of (if desc then Buy else Sell) (g x) (g y)" for x y
    by (auto simp: better_level_def bid_behind_def ask_behind_def g_def flt_def feq_def)
  moreover have "level_priced l = priced (g l)" for l by (simp add: level_priced_def priced_def g_def)
  ultimately have "(\<lambda>x y. better_level desc y x) = (\<lambda>x y. behind_of (if desc then Buy else Sell) (g x) (g y))"
    "level_priced = (\<lambda>l. priced (g l))" by (rule_tac ext, simp)+
  then show ?thesis using priority_order_pull [OF behind_of_order, of "if desc then Buy else Sell" g] by metis
qed

lemma mset_drop_swap:
  assumes "i < j" "j < length xs"
  shows "take i (xs[i := xs ! j, j := xs ! i]) = take i xs" "mset (drop i (xs[i := xs ! j, j := xs ! i])) = mset (drop i xs)"
proof -
  let ?ys = "xs[i := xs ! j, j := xs ! i]"
  show t: "take i ?ys = take i xs" using assms by simp
  have "mset (take i ?ys) + mset (drop i ?ys) = mset (take i xs) + mset (drop i xs)"
    using assms by (metis append_take_drop_id mset_append mset_swap order.strict_trans)
  then show "mset (drop i ?ys) = mset (drop i xs)" by (simp add: t)
qed

lemma sort_inner_spec:
  assumes "i < j" "j \<le> length ls" "\<forall>l \<in> set ls. level_priced l"
    and "\<And>k. i < k \<Longrightarrow> k < j \<Longrightarrow> \<not> better_level desc (ls ! k) (ls ! i)"
  shows "take i (sort_inner desc i j ls) = take i ls \<and> mset (drop i (sort_inner desc i j ls)) = mset (drop i ls)
     \<and> (\<forall>k. i < k \<and> k < length ls \<longrightarrow> \<not> better_level desc (sort_inner desc i j ls ! k) (sort_inner desc i j ls ! i))"
  using assms
proof (induction desc i j ls rule: sort_inner.induct)
  case (1 desc i j ls)
  show ?case
  proof (cases "j < length ls")
    case True
    let ?ls = "if better_level desc (ls ! j) (ls ! i) then ls[i := ls ! j, j := ls ! i] else ls"
    have eq: "sort_inner desc i j ls = sort_inner desc i (j + 1) ?ls" using True by (simp add: sort_inner.simps [of desc i j ls])
    have val: "level_priced (ls ! k)" if "k < length ls" for k using "1.prems"(3) that by simp
    have sw: "take i ?ls = take i ls" "mset (drop i ?ls) = mset (drop i ls)" "mset ?ls = mset ls"
      using mset_drop_swap [of i j ls] mset_swap [of j ls i] True "1.prems"(1) by auto
    have "\<not> better_level desc (?ls ! k) (?ls ! i)" if k: "i < k" "k < j + 1" for k
    proof (cases "better_level desc (ls ! j) (ls ! i)")
      case sw: True
      have "\<not> better_level desc (ls ! i) (ls ! j)"
        using priority_order.behind_asym [OF level_order, OF _ _ sw] val True "1.prems"(1) by simp
      moreover have "\<not> better_level desc (ls ! k) (ls ! j)" if "k < j"
        using "1.prems"(4) [OF k(1) that] priority_order.behind_trans [OF level_order, of "ls ! i" "ls ! j" "ls ! k" desc] sw val True
          "1.prems"(1) that by auto
      ultimately show ?thesis using k True "1.prems"(1) by (auto simp: sw nth_list_update)
    qed (use k "1.prems"(4) in \<open>auto simp: less_Suc_eq\<close>)
    moreover have "\<forall>l \<in> set ?ls. level_priced l" using "1.prems"(3) sw(3) by (metis set_mset_mset)
    ultimately have "take i (sort_inner desc i (j + 1) ?ls) = take i ?ls \<and> mset (drop i (sort_inner desc i (j + 1) ?ls)) = mset (drop i ?ls)
     \<and> (\<forall>k. i < k \<and> k < length ?ls \<longrightarrow> \<not> better_level desc (sort_inner desc i (j + 1) ?ls ! k) (sort_inner desc i (j + 1) ?ls ! i))"
      using True "1.prems"(1) by (intro "1.IH") auto
    then show ?thesis unfolding eq using sw by simp
  next
    case False
    then have "sort_inner desc i j ls = ls" by (subst sort_inner.simps) simp
    moreover have "j = length ls" using False "1.prems"(2) by simp
    ultimately show ?thesis using "1.prems"(4) by simp
  qed
qed

lemma sort_outer_spec:
  assumes "i \<le> length ls" "\<forall>l \<in> set ls. level_priced l"
    and "\<And>p q. p < i \<Longrightarrow> p < q \<Longrightarrow> q < length ls \<Longrightarrow> \<not> better_level desc (ls ! q) (ls ! p)"
  shows "mset (sort_outer desc i ls) = mset ls \<and> sorted_wrt (\<lambda>x y. \<not> better_level desc y x) (sort_outer desc i ls)"
  using assms
proof (induction desc i ls rule: sort_outer.induct)
  case (1 desc i ls)
  show ?case
  proof (cases "i < length ls")
    case True
    let ?ls = "sort_inner desc i (i + 1) ls"
    have S: "take i ?ls = take i ls" "mset (drop i ?ls) = mset (drop i ls)"
      "\<And>k. i < k \<Longrightarrow> k < length ls \<Longrightarrow> \<not> better_level desc (?ls ! k) (?ls ! i)"
      using sort_inner_spec [of i "i + 1" ls desc] True "1.prems"(2) by auto
    have m: "mset ?ls = mset ls" using S(1,2) by (metis append_take_drop_id mset_append)
    have low: "?ls ! p = ls ! p" if "p < i" for p using S(1) that by (metis nth_take)
    have high: "\<exists>q' \<ge> i. q' < length ls \<and> ?ls ! q = ls ! q'" if "i \<le> q" "q < length ls" for q
    proof -
      have "drop i ?ls ! (q - i) \<in> set (drop i ?ls)" using that by (intro nth_mem) simp
      then have "?ls ! q \<in> set (drop i ls)" using that S(2) by (metis le_add_diff_inverse nth_drop length_sort_inner less_imp_le order.trans set_mset_mset)
      then obtain m where "m < length (drop i ls)" "drop i ls ! m = ?ls ! q" by (metis in_set_conv_nth)
      then show ?thesis by (intro exI [of _ "i + m"]) simp
    qed
    have "\<not> better_level desc (?ls ! q) (?ls ! p)" if "p < i + 1" "p < q" "q < length ?ls" for p q
    proof (cases "p < i")
      case True
      have "\<exists>q' > p. q' < length ls \<and> ?ls ! q = ls ! q'"
      proof (cases "q < i")
        case False
        then obtain q' where "i \<le> q'" "q' < length ls" "?ls ! q = ls ! q'" using high [of q] \<open>q < length ?ls\<close> by auto
        then show ?thesis using True by (intro exI [of _ q']) simp
      qed (use low that in auto)
      then show ?thesis using "1.prems"(3) True low by metis
    next
      case False
      with that have "p = i" by simp
      then show ?thesis using S(3) [of q] that by simp
    qed
    then show ?thesis
      using "1.IH" [OF True] True "1.prems"(2) m by (metis Suc_eq_plus1 Suc_leI length_sort_inner set_mset_mset sort_outer.simps)
  next
    case False
    then have "sort_outer desc i ls = ls" by (subst sort_outer.simps) simp
    with False "1.prems"(1,3) show ?thesis by (simp add: sorted_wrt_iff_nth_less)
  qed
qed

lemma add_levels_at:
  "foldl add_level m xs p =
     (let ys = filter (\<lambda>x. eoPrice x = p \<and> 0 < eoRemaining x) xs
      in if ys = [] then m p
         else Some (wrap64 ((case m p of None \<Rightarrow> 0 | Some q \<Rightarrow> q) + sum_list (map eoRemaining ys))))"
proof (induction xs arbitrary: m)
  case (Cons x xs)
  show ?case
    unfolding foldl_Cons Cons.IH
    by (auto simp: add_level_def Let_def algebra_simps split: option.splits)
qed simp

text \<open>The resting quantity of a side at a price.\<close>

definition depth_at :: "OrderBook \<Rightarrow> Side \<Rightarrow> f64 \<Rightarrow> int" where
  "depth_at ob s p = (\<Sum>a \<in> {a \<in> resting ob s. eoPrice (ob_store ob a) = p}. eoRemaining (ob_store ob a))"

lemma side_levels_depth:
  assumes "engine_inv ob"
  shows "side_levels ob s p =
    (if \<exists>a \<in> resting ob s. eoPrice (ob_store ob a) = p then Some (wrap64 (depth_at ob s p)) else None)"
proof -
  let ?h = "fst (side_heap ob s)" and ?P = "\<lambda>a. eoPrice (ob_store ob a) = p"
  have pos: "0 < eoRemaining (ob_store ob a)" if "a \<in> set ?h" for a
    using assms that by (auto simp: engine_inv_def resting_def)
  have "filter (\<lambda>x. eoPrice x = p \<and> 0 < eoRemaining x) (map (ob_store ob) ?h) = map (ob_store ob) (filter ?P ?h)"
    using pos by (simp add: filter_map comp_def cong: filter_cong)
  moreover have "sum_list (map (\<lambda>a. eoRemaining (ob_store ob a)) (filter ?P ?h)) = depth_at ob s p"
    using assms struct_invD(6) [of ob s]
    by (simp add: sum_list_distinct_conv_sum_set depth_at_def resting_def engine_inv_def)
  ultimately show ?thesis
    by (auto simp: side_levels_def add_levels_at Let_def resting_def filter_empty_conv comp_def)
qed

lemma levels_of_props:
  assumes "enumerates ks m"
  shows "set (levels_of ks m) = {\<lparr>lPrice = p, lQty = q\<rparr> | p q. m p = Some q}" "distinct (map lPrice (levels_of ks m))"
  using assms by (force simp: levels_of_def enumerates_def dom_def, simp add: levels_of_def enumerates_def comp_def)

lemma sortLevels_props:
  assumes "distinct (map lPrice ls)" "\<forall>l \<in> set ls. level_priced l"
  shows "set (sortLevels ls desc) = set ls"
    "sorted_wrt (\<lambda>x y. if desc then lPrice y < lPrice x else lPrice x < lPrice y) (sortLevels ls desc)"
proof -
  note S = sort_outer_spec [of 0 ls desc, simplified, OF assms(2)]
  have m: "mset (sortLevels ls desc) = mset ls" using S by (simp add: sortLevels_def)
  then show set: "set (sortLevels ls desc) = set ls" by (metis set_mset_mset)
  have d: "distinct (map lPrice (sortLevels ls desc))"
    using assms(1) m by (metis mset_eq_imp_distinct_iff mset_map)
  show "sorted_wrt (\<lambda>x y. if desc then lPrice y < lPrice x else lPrice x < lPrice y) (sortLevels ls desc)"
    unfolding sorted_wrt_iff_nth_less
  proof (intro allI impI)
    fix i j
    assume ij: "i < j" "j < length (sortLevels ls desc)"
    let ?x = "sortLevels ls desc ! i" and ?y = "sortLevels ls desc ! j"
    have "\<not> better_level desc ?y ?x"
      using S ij by (simp add: sortLevels_def sorted_wrt_iff_nth_less)
    moreover have "lPrice ?x \<noteq> lPrice ?y"
      using nth_eq_iff_index_eq [OF d, of i j] ij by simp
    moreover have "?x \<in> set ls" "?y \<in> set ls" using ij set by (metis less_trans nth_mem)+
    then have "lPrice ?x \<noteq> NaN" "lPrice ?y \<noteq> NaN" using assms(2) by (auto simp: level_priced_def)
    ultimately show "if desc then lPrice ?y < lPrice ?x else lPrice ?x < lPrice ?y"
      by (auto simp: better_level_def)
  qed
qed

section \<open>Allocation\<close>

text \<open>\<open>a\<close> is the address of a new order object: no heap and no table entry points to it.\<close>

definition unused :: "OrderBook \<Rightarrow> addr \<Rightarrow> bool" where
  "unused ob a \<longleftrightarrow> (\<forall>t. a \<notin> resting ob t) \<and> a \<notin> ran (ob_orders ob)"

definition alloc :: "addr \<Rightarrow> EOrder \<Rightarrow> OrderBook \<Rightarrow> OrderBook" where
  "alloc a x ob = ob\<lparr>ob_store := (ob_store ob)(a := x)\<rparr>"

lemma alloc_simps [simp]:
  "side_heap (alloc a x ob) t = side_heap ob t" "side_index (alloc a x ob) t = side_index ob t"
  "ob_orders (alloc a x ob) = ob_orders ob" "ob_store (alloc a x ob) = (ob_store ob)(a := x)"
  by (cases t; simp add: alloc_def)+

lemma alloc_resting [simp]: "resting (alloc a x ob) t = resting ob t" "unused (alloc a x ob) c = unused ob c"
  by (simp_all add: resting_def unused_def)

lemma entry_heap_cong:
  assumes h: "priority_order.heap_inv (entry_behind ob s) (entry_priced ob) h"
    and eq: "\<And>c. c \<in> set (fst h) \<Longrightarrow> ob_store ob' c = ob_store ob c"
  shows "priority_order.heap_inv (entry_behind ob' s) (entry_priced ob') h"
proof -
  have same: "entry_Less ob' s c d = entry_Less ob s c d" "entry_priced ob' c = entry_priced ob c"
    if "c \<in> set (fst h)" "d \<in> set (fst h)" for c d
    using eq that by (simp_all add: entry_Less_def entry_priced_def)
  have "entry_Less ob' s (fst h ! k) (fst h ! ((k - 1) div 2)) = entry_Less ob s (fst h ! k) (fst h ! ((k - 1) div 2))"
    if "k < length (fst h)" for k
    using that by (intro same(1) nth_mem) linarith+
  with h same(2) show ?thesis
    unfolding priority_order.heap_inv_def [OF entry_order] priority_order.heap_upto_def [OF entry_order]
      priority_order.ok_at_def [OF entry_order] by simp
qed

lemma alloc_inv:
  assumes "unused ob a"
  shows "struct_inv ob \<Longrightarrow> struct_inv (alloc a x ob)" "engine_inv ob \<Longrightarrow> engine_inv (alloc a x ob)"
proof -
  have keep: "ob_store (alloc a x ob) c = ob_store ob c" if "c \<in> resting ob t" for c t
    using assms that by (auto simp: unused_def)
  have tab: "ob_store (alloc a x ob) c = ob_store ob c" if "ob_orders ob i = Some c" for c i
    using assms that by (auto simp: unused_def ran_def)
  show str: "struct_inv (alloc a x ob)" if inv: "struct_inv ob"
  proof -
    note I = struct_invD [OF inv]
    have "priority_order.heap_inv (entry_behind (alloc a x ob) s) (entry_priced (alloc a x ob)) (side_heap ob s)" for s
      by (rule entry_heap_cong [OF I(1)]) (rule keep [of _ s], simp add: resting_def)
    moreover have "eoSide (ob_store (alloc a x ob) c) = s \<and> ob_orders ob (eoID (ob_store (alloc a x ob) c)) = Some c"
      if "c \<in> resting ob s" for c s using I(2,3) [OF that] keep [OF that] by simp
    moreover have "side_index ob s i = Some c \<longleftrightarrow> c \<in> resting ob s \<and> eoID (ob_store (alloc a x ob) c) = i" for s i c
      using I(4) [of s i c] keep [of c s] by metis
    moreover have "eoID (ob_store (alloc a x ob) c) = i" if "ob_orders ob i = Some c" for i c
      using I(5) [OF that] tab [OF that] by simp
    ultimately show ?thesis by (simp add: struct_inv_def del: alloc_simps(4))
  qed
  show "engine_inv (alloc a x ob)" if "engine_inv ob"
    using that str keep by (simp add: engine_inv_def del: alloc_simps(4))
qed

end
