(* ===== verification/EngineRefinement.thy ===== *)
theory EngineRefinement
  imports Engine
begin

text \<open>
  What the operations of the reference contestant's engine achieve: they keep its structure whatever
  the order times are, \<open>Cancel\<close> takes out exactly the order it names, and as long as two orders of a
  side never carry the same time the engine implements the validator's reference book, fill for fill.
\<close>

section \<open>Refinement of the reference book\<close>

text \<open>
  The clock \<open>f\<close> keeps the order of the times in \<open>T\<close>; the resting orders of a side have different times.
  A side of the engine and a slice of the reference book agree when they hold the same orders, whatever
  their layout.
\<close>

definition clock_ok :: "int64 set \<Rightarrow> (int64 \<Rightarrow> int64) \<Rightarrow> bool" where
  "clock_ok T f \<longleftrightarrow> (\<forall>x \<in> T. \<forall>y \<in> T. x < y \<longrightarrow> f x < f y)"

definition timed :: "int64 set \<Rightarrow> OrderBook \<Rightarrow> bool" where
  "timed T ob \<longleftrightarrow> (\<forall>s. inj_on (\<lambda>a. eoAt (ob_store ob a)) (resting ob s)
     \<and> (\<forall>a \<in> resting ob s. eoAt (ob_store ob a) \<in> T))"

definition sim_side :: "(int64 \<Rightarrow> int64) \<Rightarrow> OrderBook \<Rightarrow> Side \<Rightarrow> Order list \<Rightarrow> bool" where
  "sim_side f ob s xs \<longleftrightarrow> mset xs = image_mset (\<lambda>a. view f (ob_store ob a)) (mset (fst (side_heap ob s)))
     \<and> priority_order.in_order (behind_of s) priced xs \<and> all_pos xs"

lemma clock_less: "clock_ok T f \<Longrightarrow> x \<in> T \<Longrightarrow> y \<in> T \<Longrightarrow> f x < f y \<longleftrightarrow> x < y"
  unfolding clock_ok_def by (metis less_asym not_less_iff_gr_or_eq)

lemma clock_eq: "clock_ok T f \<Longrightarrow> x \<in> T \<Longrightarrow> y \<in> T \<Longrightarrow> f x = f y \<longleftrightarrow> x = y"
  unfolding clock_ok_def by (metis less_irrefl not_less_iff_gr_or_eq)

lemma behind_of_clock:
  "clock_ok T f \<Longrightarrow> eoAt x \<in> T \<Longrightarrow> eoAt y \<in> T \<Longrightarrow>
     behind_of s (view f x) (view f y) = behind_of s (view (\<lambda>t. t) x) (view (\<lambda>t. t) y)"
  by (cases s) (simp_all add: view_def bid_behind_def ask_behind_def clock_less)

lemma behind_of_tie:
  "priced x \<Longrightarrow> priced y \<Longrightarrow> \<not> behind_of s x y \<Longrightarrow> \<not> behind_of s y x \<Longrightarrow> oTsNs x = oTsNs y"
  by (cases s) (auto simp: bid_behind_priced ask_behind_priced)

lemmas sim_sideD = sim_side_def [THEN iffD1, THEN conjunct1] sim_side_def [THEN iffD1, THEN conjunct2, THEN conjunct1]
  sim_side_def [THEN iffD1, THEN conjunct2, THEN conjunct2]

lemma sim_side_set: "sim_side f ob s xs \<Longrightarrow> set xs = (\<lambda>a. view f (ob_store ob a)) ` resting ob s"
  using arg_cong [OF sim_sideD(1), of f ob s xs set_mset] by (simp add: resting_def)

lemma sim_side_pos: "sim_side f ob s xs \<Longrightarrow> a \<in> resting ob s \<Longrightarrow> 0 < eoRemaining (ob_store ob a)"
  using sim_side_set [of f ob s xs] sim_sideD(3) [of f ob s xs] by (auto simp: all_pos_def view_def)

lemma sim_side_empty: "sim_side f ob s xs \<Longrightarrow> xs = [] \<longleftrightarrow> fst (side_heap ob s) = []"
  using sim_side_set [of f ob s xs] by (auto simp: resting_def)

text \<open>The top of the heap is the front of the slice.\<close>

lemma top_is_head:
  assumes inv: "struct_inv ob" and clk: "clock_ok T f" "timed T ob"
    and sim: "sim_side f ob s (x # xs)"
  shows "x = view f (ob_store ob (fst (side_heap ob s) ! 0))"
    and "mset xs = image_mset (\<lambda>a. view f (ob_store ob a)) (mset (fst (side_heap ob s)) - {#fst (side_heap ob s) ! 0#})"
proof -
  let ?h = "fst (side_heap ob s)" and ?v = "\<lambda>a. view f (ob_store ob a)"
  let ?r = "?h ! 0"
  note I = struct_invD [OF inv]
  have ne: "?h \<noteq> []" using sim_side_empty [OF sim] by simp
  then have r: "?r \<in> resting ob s" by (simp add: resting_def)
  have set: "set (x # xs) = ?v ` resting ob s" by (rule sim_side_set [OF sim])
  then obtain c where c: "c \<in> resting ob s" "x = ?v c" by (metis image_iff list.set_intros(1))
  have priced: "priced (?v a)" if "a \<in> resting ob s" for a
    using I(7) [OF that] by (simp add: entry_priced_def priced_def view_def)
  have inT: "eoAt (ob_store ob a) \<in> T" if "a \<in> resting ob s" for a
    using clk(2) that by (auto simp: timed_def)
  show x: "x = ?v ?r"
  proof (cases "?v ?r \<in> set xs")
    case True
    have "\<not> behind_of s x (?v ?r)"
      using sim_sideD(2) [OF sim] True by (auto simp: priority_order.in_order_Cons [OF behind_of_order])
    moreover have "\<not> entry_Less ob s c ?r"
      using priority_order.heap_inv_top [OF entry_order I(1)] c(1) by (simp add: resting_def)
    then have "\<not> behind_of s (?v ?r) x"
      using behind_of_clock [OF clk(1) inT [OF r] inT [OF c(1)]] by (simp add: c(2) entry_Less_view)
    ultimately have "f (eoAt (ob_store ob c)) = f (eoAt (ob_store ob ?r))"
      using behind_of_tie [OF priced [OF c(1)] priced [OF r]] by (auto simp: c(2) view_def)
    then have "eoAt (ob_store ob c) = eoAt (ob_store ob ?r)" using clock_eq [OF clk(1)] inT c(1) r by blast
    then have "c = ?r" using clk(2) c(1) r by (auto simp: timed_def inj_on_def)
    then show ?thesis using c(2) by simp
  next
    case False
    then show ?thesis using set r by auto
  qed
  have "mset (x # xs) = image_mset ?v (add_mset ?r (mset ?h - {#?r#}))"
    using sim_sideD(1) [OF sim] ne by simp
  then show "mset xs = image_mset ?v (mset ?h - {#?r#})" by (simp add: x)
qed

text \<open>What matching on side \<open>s\<close> for the incoming order \<open>a\<close> leaves alone.\<close>

definition match_frame :: "Side \<Rightarrow> addr \<Rightarrow> OrderBook \<Rightarrow> OrderBook \<Rightarrow> bool" where
  "match_frame s a ob ob' \<longleftrightarrow> struct_inv ob' \<and> ob_orders ob' = ob_orders ob
     \<and> side_heap ob' (opposite s) = side_heap ob (opposite s) \<and> resting ob' s \<subseteq> resting ob s
     \<and> (\<forall>c. (ob_store ob' c)\<lparr>eoRemaining := 0\<rparr> = (ob_store ob c)\<lparr>eoRemaining := 0\<rparr>)
     \<and> (\<forall>c. c \<noteq> a \<and> c \<notin> resting ob s \<longrightarrow> ob_store ob' c = ob_store ob c)"

lemma match_frame_refl: "struct_inv ob \<Longrightarrow> match_frame s a ob ob"
  by (simp add: match_frame_def)

lemma match_frame_trans: "match_frame s a ob1 ob2 \<Longrightarrow> match_frame s a ob2 ob3 \<Longrightarrow> match_frame s a ob1 ob3"
  unfolding match_frame_def by (intro conjI allI impI; elim conjE) (simp, simp, simp, blast, simp, metis subsetD)

lemma match_frame_fields:
  "match_frame s a ob ob' \<Longrightarrow> eoID (ob_store ob' c) = eoID (ob_store ob c)"
  "match_frame s a ob ob' \<Longrightarrow> eoSide (ob_store ob' c) = eoSide (ob_store ob c)"
  "match_frame s a ob ob' \<Longrightarrow> eoPrice (ob_store ob' c) = eoPrice (ob_store ob c)"
  "match_frame s a ob ob' \<Longrightarrow> eoAt (ob_store ob' c) = eoAt (ob_store ob c)"
  unfolding match_frame_def
  by (elim conjE allE [of _ c], drule arg_cong [of _ _ eoID], simp)
    (elim conjE allE [of _ c], drule arg_cong [of _ _ eoSide], simp,
     elim conjE allE [of _ c], drule arg_cong [of _ _ eoPrice], simp,
     elim conjE allE [of _ c], drule arg_cong [of _ _ eoAt], simp)

lemma match_frame_resting: "match_frame s a ob ob' \<Longrightarrow> resting ob' t \<subseteq> resting ob t"
  by (cases s; cases t) (auto simp: match_frame_def resting_def)

lemma match_frame_timed: "match_frame s a ob ob' \<Longrightarrow> timed T ob \<Longrightarrow> timed T ob'"
  using match_frame_resting [of s a ob ob']
  by (simp add: timed_def match_frame_fields(4)) (metis inj_on_subset subsetD)

lemma in_order_head_qty:
  "priority_order.in_order (behind_of s) priced (x # xs) \<Longrightarrow>
     priority_order.in_order (behind_of s) priced (x\<lparr>oQty := q\<rparr> # xs)"
  by (cases s) (auto simp: bid.in_order_Cons ask.in_order_Cons)

lemma in_order_tail: "priority_order.in_order (behind_of s) priced (x # xs) \<Longrightarrow> priority_order.in_order (behind_of s) priced xs"
  by (simp add: priority_order.in_order_Cons [OF behind_of_order])

lemma in_order_remove1:
  "priority_order.in_order (behind_of s) priced xs \<Longrightarrow> priority_order.in_order (behind_of s) priced (remove1 x xs)"
  by (induction xs) (auto simp: priority_order.in_order_Cons [OF behind_of_order] dest: notin_set_remove1)

text \<open>One fill of the engine is one turn of the reference loop.\<close>

lemma fill_best_sim:
  assumes inv: "struct_inv ob" and clk: "clock_ok T f" "timed T ob" and sim: "sim_side f ob s (x # xs)"
    and a: "\<And>t. a \<notin> resting ob t"
  defines "t \<equiv> min (eoRemaining (ob_store ob a)) (oQty x)"
  shows "match_frame s a ob (fst (fill_best s a ob))"
    and "eoRemaining (ob_store (fst (fill_best s a ob)) a) = eoRemaining (ob_store ob a) - t"
    and "fQty (snd (fill_best s a ob)) = t"
    and "sim_side f (fst (fill_best s a ob)) s (if oQty x - t = 0 then xs else x\<lparr>oQty := oQty x - t\<rparr> # xs)"
proof -
  let ?h = "fst (side_heap ob s)"
  define r where "r = ?h ! 0"
  have ne: "?h \<noteq> []" using sim_side_empty [OF sim] by simp
  have r: "r \<in> resting ob s" using ne by (simp add: resting_def r_def)
  have ar: "a \<noteq> r" using a r by blast
  note top = top_is_head [OF inv clk sim, folded r_def]
  have q: "oQty x = eoRemaining (ob_store ob r)" by (simp add: top(1) view_def)
  define ob2 where "ob2 = set_remaining r (oQty x - t) (set_remaining a (eoRemaining (ob_store ob a) - t) ob)"
  have fb: "fst (fill_best s a ob) = (if oQty x - t = 0 then pop_side s ob2 else ob2)"
      "fQty (snd (fill_best s a ob)) = t"
    using ar by (auto simp: fill_best_def Let_def r_def [symmetric] min64_def t_def q ob2_def make_fill_def min_def
        split: Side.splits)
  have s2: "struct_inv ob2" using inv by (simp add: ob2_def)
  have h2: "fst (side_heap ob2 s) = ?h" by (simp add: ob2_def)
  note P = pop_side_struct [OF s2, of s, unfolded h2, OF ne, folded r_def]
  have "match_frame s a ob ob2" using s2 r by (auto simp: match_frame_def ob2_def)
  moreover have "match_frame s a ob (pop_side s ob2)"
    using P(1) P(2) [of s] r by (auto simp: match_frame_def ob2_def)
  ultimately show "match_frame s a ob (fst (fill_best s a ob))" by (simp add: fb)
  show "eoRemaining (ob_store (fst (fill_best s a ob)) a) = eoRemaining (ob_store ob a) - t"
    using ar by (simp add: fb ob2_def)
  show "fQty (snd (fill_best s a ob)) = t" by (rule fb)
  have d: "r \<notin># mset ?h - {#r#}" "a \<notin># mset ?h - {#r#}"
    using struct_invD(6) [OF inv, of s] a [of s] by (auto simp: resting_def dest: in_diffD simp flip: mset_remove1)
  have rest: "image_mset (\<lambda>c. view f (ob_store ob2 c)) (mset ?h - {#r#}) = mset xs"
    unfolding top(2) using d by (intro image_mset_cong) (auto simp: ob2_def)
  have vr: "view f (ob_store ob2 r) = x\<lparr>oQty := oQty x - t\<rparr>" using ar by (simp add: ob2_def top(1) view_def)
  have "mset ?h = add_mset r (mset ?h - {#r#})" using ne by (simp add: r_def)
  then have whole: "image_mset (\<lambda>c. view f (ob_store ob2 c)) (mset ?h) = mset (x\<lparr>oQty := oQty x - t\<rparr> # xs)"
    using rest vr by (metis image_mset_add_mset mset.simps(2))
  note S = sim_sideD(2,3) [OF sim]
  show "sim_side f (fst (fill_best s a ob)) s (if oQty x - t = 0 then xs else x\<lparr>oQty := oQty x - t\<rparr> # xs)"
  proof (cases "oQty x - t = 0")
    case True
    then show ?thesis using P(3) rest S by (auto simp: fb sim_side_def in_order_tail)
  next
    case False
    have "t \<le> oQty x" by (simp add: t_def)
    with False S whole show ?thesis by (auto simp: fb sim_side_def in_order_head_qty h2)
  qed
qed

lemma skip_exhausted_sim:
  assumes "sim_side f ob s xs"
  shows "skip_exhausted s ob = ob"
proof -
  have "0 < eoRemaining (ob_store ob (fst (side_heap ob s) ! 0))" if "fst (side_heap ob s) \<noteq> []"
    using sim_side_pos [OF assms] that by (simp add: resting_def)
  then show ?thesis by (subst skip_exhausted.simps) auto
qed

lemma match_loop_sim:
  "struct_inv ob \<Longrightarrow> clock_ok T f \<Longrightarrow> timed T ob \<Longrightarrow> sim_side f ob s xs \<Longrightarrow> (\<And>t. a \<notin> resting ob t) \<Longrightarrow>
   (case fill_loop (\<lambda>r. out_of_reach s limit (oPrice r)) xs (eoRemaining (ob_store ob a)) F of (xs', q', F') \<Rightarrow>
    case match_loop s limit a ob fills of (ob', fills') \<Rightarrow>
      sim_side f ob' s xs' \<and> eoRemaining (ob_store ob' a) = q'
      \<and> sum_list (map fQty fills') = sum_list (map fQty fills) + (F' - F) \<and> match_frame s a ob ob')"
proof (induction s limit a ob fills arbitrary: xs F rule: match_loop.induct)
  case (1 s limit a ob fills)
  note inv = "1.prems"(1) and clk = "1.prems"(2,3) and sim = "1.prems"(4) and a = "1.prems"(5)
  let ?stop = "\<lambda>r. out_of_reach s limit (oPrice r)" and ?q = "eoRemaining (ob_store ob a)"
  note skip = skip_exhausted_sim [OF sim]
  note stay = sim match_frame_refl [OF inv, of s a]
  show ?case
  proof (cases xs)
    case Nil
    then have "fst (side_heap ob s) = []" using sim_side_empty [OF sim] by simp
    with Nil stay show ?thesis by (simp add: match_loop.simps [of s limit a ob])
  next
    case (Cons x rest)
    then have ne: "fst (side_heap ob s) \<noteq> []" using sim_side_empty [OF sim] by simp
    have px: "eoPrice (ob_store ob (fst (side_heap ob s) ! 0)) = oPrice x"
      using top_is_head(1) [OF inv clk, of s x rest] sim Cons by (simp add: view_def)
    show ?thesis
    proof (cases "0 < ?q \<and> \<not> ?stop x")
      case False
      with Cons ne px skip stay show ?thesis
        by (auto simp: match_loop.simps [of s limit a ob] Let_def)
    next
      case True
      let ?ob = "fst (fill_best s a ob)" and ?fills = "fills @ [snd (fill_best s a ob)]"
      define t where "t = min ?q (oQty x)"
      define ys where "ys = (if oQty x - t = 0 then rest else x\<lparr>oQty := oQty x - t\<rparr> # rest)"
      note fb = fill_best_sim [OF inv clk sim [unfolded Cons] a, folded t_def, folded ys_def]
      have frame: "struct_inv ?ob" "timed T ?ob" "\<And>t. a \<notin> resting ?ob t"
        using fb(1) match_frame_timed [OF fb(1) clk(2)] match_frame_resting [OF fb(1)] a
        by (auto simp: match_frame_def)
      have L: "match_loop s limit a ob fills = match_loop s limit a ?ob ?fills"
        using True ne px skip by (simp add: match_loop.simps [of s limit a ob fills] Let_def)
      have R: "fill_loop ?stop xs ?q F = fill_loop ?stop ys (?q - t) (F + t)"
        using True by (simp add: Cons Let_def ys_def t_def)
      have px': "\<not> out_of_reach s limit (eoPrice (ob_store (skip_exhausted s ob) (fst (side_heap (skip_exhausted s ob) s) ! 0)))"
        using True px skip by simp
      note IH = "1.IH" [of "skip_exhausted s ob", OF _ refl _ px', unfolded skip, OF _ ne frame(1) clk(1) frame(2) fb(4) frame(3),
          of "F + t", unfolded fb(2)]
      obtain xs' q' F' where fl: "fill_loop ?stop ys (?q - t) (F + t) = (xs', q', F')" by (metis prod_cases3)
      obtain ob' fills' where ml: "match_loop s limit a ?ob ?fills = (ob', fills')" by fastforce
      have "sim_side f ob' s xs' \<and> eoRemaining (ob_store ob' a) = q'
          \<and> sum_list (map fQty fills') = sum_list (map fQty ?fills) + (F' - (F + t)) \<and> match_frame s a ?ob ob'"
        using IH True ne by (simp add: fl ml)
      then show ?thesis
        unfolding L R fl ml using match_frame_trans [OF fb(1)] fb(3) by simp
    qed
  qed
qed

fun book_side :: "Book \<Rightarrow> Side \<Rightarrow> Order list" where
  "book_side b Buy = bids b"
| "book_side b Sell = asks b"

fun set_book_side :: "Side \<Rightarrow> Order list \<Rightarrow> Book \<Rightarrow> Book" where
  "set_book_side Buy xs b = b\<lparr>bids := xs\<rparr>"
| "set_book_side Sell xs b = b\<lparr>asks := xs\<rparr>"

lemma book_side_set [simp]: "book_side (set_book_side s xs b) t = (if t = s then xs else book_side b t)"
  by (cases s; cases t; simp)

text \<open>The refinement relation: the engine's heaps hold the orders of the reference book.\<close>

definition refines :: "int64 set \<Rightarrow> (int64 \<Rightarrow> int64) \<Rightarrow> OrderBook \<Rightarrow> Book \<Rightarrow> bool" where
  "refines T f ob b \<longleftrightarrow> struct_inv ob \<and> timed T ob \<and> (\<forall>s. sim_side f ob s (book_side b s)) \<and> book_inv b"

lemma refines_engine_inv: "refines T f ob b \<Longrightarrow> engine_inv ob"
  by (auto simp: refines_def engine_inv_def dest: sim_side_pos)

lemma Place_by_side:
  assumes "book_inv b" "oPrice o' \<noteq> NaN" "oSide o' = s"
  shows "Place b o' = (case fill_loop (\<lambda>r. out_of_reach (opposite s) (Some (oPrice o')) (oPrice r)) (book_side b (opposite s)) (oQty o') 0 of
     (xs, q, filled) \<Rightarrow>
       (if 0 < q then set_book_side s (insert_before (\<lambda>x. behind_of s x (o'\<lparr>oQty := q\<rparr>)) (o'\<lparr>oQty := q\<rparr>) (book_side b s))
            (set_book_side (opposite s) xs b)
        else set_book_side (opposite s) xs b, filled))"
  using assms book_invD(1,2) [OF assms(1)]
  by (cases s) (auto simp: Place_def matchBuy_def matchSell_def matchBuy_loop_fill matchSell_loop_fill out_of_reach_def
      insertBid_spec insertAsk_spec split: prod.splits)

lemma PlaceMarket_by_side:
  "PlaceMarket b s q = (case fill_loop (\<lambda>r. out_of_reach (opposite s) None (oPrice r)) (book_side b (opposite s)) q 0 of
     (xs, q, filled) \<Rightarrow> (set_book_side (opposite s) xs b, filled))"
  by (cases s) (auto simp: PlaceMarket_def market_loop_fill out_of_reach_def split: prod.splits)

lemma resting_disjoint: "struct_inv ob \<Longrightarrow> c \<in> resting ob s \<Longrightarrow> c \<notin> resting ob (opposite s)"
  by (metis opposite_neq(1) struct_invD(2))

lemma sim_side_store_cong:
  assumes "sim_side f ob s xs" "side_heap ob' s = side_heap ob s" "\<And>c. c \<in> resting ob s \<Longrightarrow> ob_store ob' c = ob_store ob c"
  shows "sim_side f ob' s xs"
proof -
  have "image_mset (\<lambda>a. view f (ob_store ob' a)) (mset (fst (side_heap ob s)))
      = image_mset (\<lambda>a. view f (ob_store ob a)) (mset (fst (side_heap ob s)))"
    using assms(3) by (intro image_mset_cong) (simp add: resting_def)
  then show ?thesis using assms(1,2) by (simp add: sim_side_def)
qed

lemma register_sim:
  assumes ref: "refines T f ob b" and a: "\<And>t. a \<notin> resting ob t" and new: "ob_orders ob (eoID (ob_store ob a)) = None"
  shows "refines T f (register a ob) b" "resting (register a ob) t = resting ob t"
    "ob_orders (register a ob) = (ob_orders ob)(eoID (ob_store ob a) \<mapsto> a)"
    "ob_store (register a ob) a = (ob_store ob a)\<lparr>eoRemaining :=
       (if eoRemaining (ob_store ob a) = 0 then eoQty (ob_store ob a) else eoRemaining (ob_store ob a))\<rparr>"
proof -
  define ob1 where "ob1 = (if eoRemaining (ob_store ob a) = 0 then set_remaining a (eoQty (ob_store ob a)) ob else ob)"
  have reg: "register a ob = ob1\<lparr>ob_orders := (ob_orders ob1)(eoID (ob_store ob1 a) \<mapsto> a)\<rparr>"
    by (simp add: register_def ob1_def Let_def)
  have o1: "ob_orders ob1 = ob_orders ob" "\<And>t. resting ob1 t = resting ob t" "\<And>t. side_heap ob1 t = side_heap ob t"
    "\<And>c. c \<noteq> a \<Longrightarrow> ob_store ob1 c = ob_store ob c" "eoID (ob_store ob1 a) = eoID (ob_store ob a)" "struct_inv ob1"
    using ref by (auto simp: ob1_def refines_def)
  note I = struct_invD [OF o1(6)]
  have "struct_inv (register a ob)"
  proof -
    have "eoID (ob_store ob1 c) \<noteq> eoID (ob_store ob a)" if "c \<in> resting ob s" for c s
      using I(3) [of c s] that new by (auto simp: o1)
    with o1(6) I(5) show ?thesis unfolding reg struct_inv_def by (auto simp: o1)
  qed
  moreover have "timed T (register a ob)"
    using ref a unfolding reg refines_def timed_def by (auto simp: o1 inj_on_def) (metis o1(4))+
  moreover have "sim_side f (register a ob) s (book_side b s)" for s
  proof (rule sim_side_store_cong)
    show "sim_side f ob s (book_side b s)" using ref by (simp add: refines_def)
    show "ob_store (register a ob) c = ob_store ob c" if "c \<in> resting ob s" for c
      using that a [of s] o1(4) [of c] by (auto simp: reg)
  qed (simp add: reg o1)
  ultimately show "refines T f (register a ob) b" using ref by (simp add: refines_def)
qed (auto simp: register_def Let_def)

lemma match_refines:
  assumes ref: "refines T f ob b" and clk: "clock_ok T f" and a: "\<And>t. a \<notin> resting ob t"
    and ml: "match_loop (opposite s) limit a ob [] = (ob', fills)"
    and fl: "fill_loop (\<lambda>r. out_of_reach (opposite s) limit (oPrice r)) (book_side b (opposite s)) (eoRemaining (ob_store ob a)) 0 = (xs, q, F)"
  shows "match_frame (opposite s) a ob ob'" "sim_side f ob' (opposite s) xs" "sim_side f ob' s (book_side b s)"
    "eoRemaining (ob_store ob' a) = q" "sum_list (map fQty fills) = F" "timed T ob'"
proof -
  have R: "struct_inv ob" "timed T ob" "\<And>s. sim_side f ob s (book_side b s)" using ref by (auto simp: refines_def)
  note M = match_loop_sim [where s = "opposite s" and limit = limit and F = 0 and fills = "[]",
      OF R(1) clk R(2) R(3) a, unfolded ml fl, simplified]
  show fr: "match_frame (opposite s) a ob ob'" and "sim_side f ob' (opposite s) xs"
    "eoRemaining (ob_store ob' a) = q" "sum_list (map fQty fills) = F" using M by auto
  show "timed T ob'" by (rule match_frame_timed [OF fr R(2)])
  show "sim_side f ob' s (book_side b s)"
  proof (rule sim_side_store_cong [OF R(3)])
    show "side_heap ob' s = side_heap ob s" using fr by (simp add: match_frame_def)
    show "ob_store ob' c = ob_store ob c" if "c \<in> resting ob s" for c
    proof -
      have "c \<noteq> a" using that a by blast
      with fr resting_disjoint [OF R(1) that] show ?thesis by (simp add: match_frame_def)
    qed
  qed
qed

lemma all_sides: "(\<forall>s. P s) \<longleftrightarrow> P s \<and> P (opposite s)"
  by (cases s) (metis Side.exhaust opposite.simps)+

lemma mset_insert_before [simp]: "mset (insert_before p x xs) = add_mset x (mset xs)"
  by (induction xs) auto

lemma rest_order_sim:
  assumes inv: "struct_inv ob" and a: "\<And>t. a \<notin> resting ob t" "eoSide (ob_store ob a) = s"
      "ob_orders ob (eoID (ob_store ob a)) = Some a" "eoPrice (ob_store ob a) \<noteq> NaN"
    and at: "eoAt (ob_store ob a) \<in> T" "\<And>c. c \<in> resting ob s \<Longrightarrow> eoAt (ob_store ob c) \<noteq> eoAt (ob_store ob a)"
    and q: "0 < eoRemaining (ob_store ob a)" and tm: "timed T ob"
    and sim: "sim_side f ob (opposite s) xs" "sim_side f ob s ys"
  shows "timed T (rest_order s a ob)" "sim_side f (rest_order s a ob) (opposite s) xs"
    "sim_side f (rest_order s a ob) s
       (insert_before (\<lambda>y. behind_of s y (view f (ob_store ob a))) (view f (ob_store ob a)) ys)"
proof -
  note P = rest_order_struct [OF inv a]
  have ne: "eoAt (ob_store ob a) \<noteq> eoAt (ob_store ob c)" if "c \<in> resting ob s" for c using at(2) that by metis
  show "timed T (rest_order s a ob)"
    using tm at ne unfolding timed_def all_sides [of _ s] by (auto simp: P inj_on_def)
  show "sim_side f (rest_order s a ob) (opposite s) xs" using sim(1) by (simp add: sim_side_def P)
  have "priced (view f (ob_store ob a))" using a(4) by (simp add: priced_def view_def)
  then show "sim_side f (rest_order s a ob) s
       (insert_before (\<lambda>y. behind_of s y (view f (ob_store ob a))) (view f (ob_store ob a)) ys)"
    using sim(2) q priority_order.in_order_insert [OF behind_of_order, of s ys "view f (ob_store ob a)"]
    by (simp add: sim_side_def P) (simp add: view_def)
qed

text \<open>A limit order with a new id, a price and a time no resting order of its side has.\<close>

lemma Place_refines:
  assumes ref: "refines T f ob b" and clk: "clock_ok T f" and a: "\<And>t. a \<notin> resting ob t"
    and new: "ob_orders ob (eoID (ob_store ob a)) = None" and p: "eoPrice (ob_store ob a) \<noteq> NaN"
    and at: "eoAt (ob_store ob a) \<in> T" "\<And>c. c \<in> resting ob (eoSide (ob_store ob a)) \<Longrightarrow> eoAt (ob_store ob c) \<noteq> eoAt (ob_store ob a)"
    and q: "eoRemaining (ob_store ob a) = 0"
    and eng: "ob_Place ob a = (ob', res)"
    and bk: "Place b ((view f (ob_store ob a))\<lparr>oQty := eoQty (ob_store ob a)\<rparr>) = (b', filled)"
  shows "refines T f ob' b'" "\<exists>fills. res = Inr fills \<and> sum_list (map fQty fills) = filled"
    "ob_orders ob' = (ob_orders ob)(eoID (ob_store ob a) \<mapsto> a)" "resting ob' t \<subseteq> insert a (resting ob t)"
    "\<And>c. eoAt (ob_store ob' c) = eoAt (ob_store ob c)"
proof -
  define x where "x = ob_store ob a"
  define s where "s = eoSide x"
  define ob1 where "ob1 = register a ob"
  note R = register_sim [OF ref a new, folded ob1_def x_def]
  have b: "book_inv b" and st: "struct_inv ob" using ref by (simp_all add: refines_def)
  have x1: "ob_store ob1 a = x\<lparr>eoRemaining := eoQty x\<rparr>" using R(4) q by (simp add: x_def)
  have a1: "\<And>t. a \<notin> resting ob1 t" using a R(2) by simp
  let ?stop = "\<lambda>r. out_of_reach (opposite s) (Some (eoPrice x)) (oPrice r)"
  obtain ob2 fills where ml: "match_loop (opposite s) (Some (eoPrice x)) a ob1 [] = (ob2, fills)" by fastforce
  obtain xs q' F where fl: "fill_loop ?stop (book_side b (opposite s)) (eoQty x) 0 = (xs, q', F)" by (metis prod_cases3)
  have fl1: "fill_loop ?stop (book_side b (opposite s)) (eoRemaining (ob_store ob1 a)) 0 = (xs, q', F)"
    using fl x1 by simp
  note M = match_refines [OF R(1) clk a1 ml fl1]
  define o' where "o' = (view f x)\<lparr>oQty := eoQty x\<rparr>"
  have o': "oPrice o' = eoPrice x" "oQty o' = eoQty x" "oSide o' = s" by (simp_all add: o'_def view_def s_def)
  have eng2: "ob' = (if 0 < q' then rest_order s a ob2 else ob2)" "res = Inr fills"
    using eng new ml M(4) by (auto simp: ob_Place_def Let_def x_def [symmetric] s_def [symmetric] ob1_def [symmetric])
  define r where "r = o'\<lparr>oQty := q'\<rparr>"
  have bk2: "b' = (if 0 < q' then set_book_side s (insert_before (\<lambda>y. behind_of s y r) r (book_side b s)) (set_book_side (opposite s) xs b)
      else set_book_side (opposite s) xs b)" "filled = F"
    using bk Place_by_side [OF b, of o' s] p fl o' by (auto simp: x_def [symmetric] o'_def [symmetric] r_def)
  have b': "book_inv b'" using Place_book_inv [OF b, of o'] bk p o'(1) by (simp add: x_def o'_def)
  have fr: "struct_inv ob2" "ob_orders ob2 = (ob_orders ob)(eoID x \<mapsto> a)"
    using M(1) R(3) by (simp_all add: match_frame_def)
  have flds: "eoID (ob_store ob2 a) = eoID x" "eoSide (ob_store ob2 a) = s" "eoPrice (ob_store ob2 a) = eoPrice x"
    "\<And>c. eoAt (ob_store ob2 c) = eoAt (ob_store ob c)"
    using match_frame_fields [OF M(1)] x1 by (simp_all add: s_def ob1_def register_def Let_def)
  have a2: "\<And>t. a \<notin> resting ob2 t" "\<And>t. resting ob2 t \<subseteq> resting ob t"
    using match_frame_resting [OF M(1)] a R(2) by auto
  have r: "view f (ob_store ob2 a) = r"
    using flds M(4) by (simp add: view_def r_def o'_def x_def [symmetric] s_def)
  show "\<exists>fills. res = Inr fills \<and> sum_list (map fQty fills) = filled" using eng2 bk2 M(5) by simp
  note P = rest_order_struct [OF fr(1) a2(1) flds(2)]
  have P': "ob_orders ob2 (eoID (ob_store ob2 a)) = Some a" "eoPrice (ob_store ob2 a) \<noteq> NaN"
    using fr flds p by (simp_all add: x_def)
  note P = P [OF P']
  show "ob_orders ob' = (ob_orders ob)(eoID (ob_store ob a) \<mapsto> a)" using eng2 fr P(6) by (simp add: x_def)
  show "resting ob' t \<subseteq> insert a (resting ob t)" using eng2 P(2) [of t] a2(2) [of t] a2(2) [of s] by auto
  show "eoAt (ob_store ob' c) = eoAt (ob_store ob c)" for c using eng2 P(5) flds by simp
  show "refines T f ob' b'"
  proof (cases "0 < q'")
    case False
    then show ?thesis using M(2,3,6) fr b' by (auto simp: refines_def eng2 bk2 all_sides [of _ s])
  next
    case True
    have "eoAt (ob_store ob2 a) \<in> T" using at(1) flds by simp
    moreover have "eoAt (ob_store ob2 c) \<noteq> eoAt (ob_store ob2 a)" if "c \<in> resting ob2 s" for c
      using at(2) that a2(2) flds by (auto simp: x_def [symmetric] s_def [symmetric])
    moreover have "0 < eoRemaining (ob_store ob2 a)" using True M(4) by simp
    ultimately show ?thesis
      using rest_order_sim [OF fr(1) a2(1) flds(2) P' _ _ _ M(6,2,3)] True P(1) b'
      by (auto simp: refines_def eng2 bk2 all_sides [of _ s] r)
  qed
qed

text \<open>Dropping an id from the order table when no resting order has it.\<close>

lemma struct_inv_forget:
  assumes "struct_inv ob" "\<And>s c. c \<in> resting ob s \<Longrightarrow> eoID (ob_store ob c) \<noteq> i"
  shows "struct_inv (ob\<lparr>ob_orders := (ob_orders ob)(i := None)\<rparr>)"
  using assms struct_invD(3,5) [OF assms(1)] by (auto simp: struct_inv_def)

lemma refines_forget:
  assumes "refines T f ob b" "\<And>s c. c \<in> resting ob s \<Longrightarrow> eoID (ob_store ob c) \<noteq> i"
  shows "refines T f (ob\<lparr>ob_orders := (ob_orders ob)(i := None)\<rparr>) b"
  using assms struct_inv_forget by (auto simp: refines_def timed_def sim_side_def)

lemma PlaceMarket_refines:
  assumes ref: "refines T f ob b" and clk: "clock_ok T f" and a: "\<And>t. a \<notin> resting ob t"
    and new: "ob_orders ob (eoID (ob_store ob a)) = None" and q: "eoRemaining (ob_store ob a) = 0"
    and eng: "ob_PlaceMarket ob a = (ob', res)"
    and bk: "PlaceMarket b (eoSide (ob_store ob a)) (eoQty (ob_store ob a)) = (b', filled)"
  shows "refines T f ob' b'" "\<exists>fills. res = Inr fills \<and> sum_list (map fQty fills) = filled"
    "ob_orders ob' = ob_orders ob" "resting ob' t \<subseteq> resting ob t" "\<And>c. eoAt (ob_store ob' c) = eoAt (ob_store ob c)"
proof -
  define x where "x = ob_store ob a"
  define s where "s = eoSide x"
  define ob1 where "ob1 = register a ob"
  note R = register_sim [OF ref a new, folded ob1_def x_def]
  have b: "book_inv b" using ref by (simp add: refines_def)
  have x1: "ob_store ob1 a = x\<lparr>eoRemaining := eoQty x\<rparr>" using R(4) q by (simp add: x_def)
  have a1: "\<And>t. a \<notin> resting ob1 t" using a R(2) by simp
  let ?stop = "\<lambda>r. out_of_reach (opposite s) None (oPrice r)"
  obtain ob2 fills where ml: "match_loop (opposite s) None a ob1 [] = (ob2, fills)" by fastforce
  obtain xs q' F where fl: "fill_loop ?stop (book_side b (opposite s)) (eoQty x) 0 = (xs, q', F)" by (metis prod_cases3)
  have fl1: "fill_loop ?stop (book_side b (opposite s)) (eoRemaining (ob_store ob1 a)) 0 = (xs, q', F)"
    using fl x1 by simp
  note M = match_refines [OF R(1) clk a1 ml fl1]
  have eng2: "ob' = ob2\<lparr>ob_orders := (ob_orders ob2)(eoID x := None)\<rparr>" "res = Inr fills"
    using eng new ml by (auto simp: ob_PlaceMarket_def Let_def x_def [symmetric] s_def [symmetric] ob1_def [symmetric])
  have bk2: "b' = set_book_side (opposite s) xs b" "filled = F"
    using bk PlaceMarket_by_side [of b s "eoQty x"] fl by (auto simp: x_def s_def)
  have b': "book_inv b'" using PlaceMarket_book_inv [OF b] bk by (metis fst_conv)
  have fr: "struct_inv ob2" "ob_orders ob2 = (ob_orders ob)(eoID x \<mapsto> a)"
    using M(1) R(3) by (simp_all add: match_frame_def)
  have a2: "\<And>t. a \<notin> resting ob2 t" "\<And>t. resting ob2 t \<subseteq> resting ob t"
    using match_frame_resting [OF M(1)] a R(2) by auto
  have ref2: "refines T f ob2 b'" using M(2,3,6) fr b' by (auto simp: refines_def bk2 all_sides [of _ s])
  have free: "eoID (ob_store ob2 c) \<noteq> eoID x" if "c \<in> resting ob2 t" for c t
    using struct_invD(3) [OF fr(1) that] a2(1) [of t] that by (auto simp: fr(2))
  show "refines T f ob' b'" using refines_forget [OF ref2 free] by (simp add: eng2)
  show "\<exists>fills. res = Inr fills \<and> sum_list (map fQty fills) = filled" using eng2 bk2 M(5) by simp
  show "ob_orders ob' = ob_orders ob" using eng2 fr new by (auto simp: x_def)
  show "resting ob' t \<subseteq> resting ob t" using eng2 a2(2) by simp
  show "eoAt (ob_store ob' c) = eoAt (ob_store ob c)" for c
    using eng2 match_frame_fields(4) [OF M(1)] by (simp add: ob1_def register_def Let_def)
qed

section \<open>Cancel\<close>

lemma unindex_orders: "unindex s i (ob\<lparr>ob_orders := m\<rparr>) = (unindex s i ob)\<lparr>ob_orders := m\<rparr>"
  by (cases s) (simp_all add: unindex_def Let_def split: option.split)

lemma ob_Cancel_struct:
  assumes inv: "struct_inv ob" and i: "ob_orders ob i = Some a" and c: "ob_Cancel ob i = (ob', err)"
  shows "struct_inv ob'" "err = None" "resting ob' t = resting ob t - {a}"
    "a \<in> resting ob t \<Longrightarrow> mset (fst (side_heap ob' t)) = mset (fst (side_heap ob t)) - {#a#}"
    "a \<notin> resting ob t \<Longrightarrow> side_heap ob' t = side_heap ob t"
    "ob_store ob' = (ob_store ob)(a := (ob_store ob a)\<lparr>eoRemaining := 0\<rparr>)" "ob_orders ob' = (ob_orders ob)(i := None)"
proof -
  define ob1 where "ob1 = set_remaining a 0 ob"
  define ob2 where "ob2 = unindex Buy i ob1"
  define ob3 where "ob3 = unindex Sell i ob2"
  have ob': "ob' = ob3\<lparr>ob_orders := (ob_orders ob3)(i := None)\<rparr>" "err = None"
    using c i unindex_struct(6)
    by (auto simp: ob_Cancel_def Let_def unindex_orders ob1_def [symmetric] ob2_def [symmetric] ob3_def [symmetric])
      (simp_all add: ob3_def ob2_def ob1_def unindex_def Let_def split: option.splits)
  show "err = None" by (rule ob')
  have inv1: "struct_inv ob1" using inv by (simp add: ob1_def)
  note U2 = unindex_struct [OF inv1, where s = Buy and i = i, folded ob2_def]
  note U3 = unindex_struct [OF U2(1), where s = Sell and i = i, folded ob3_def]
  have ida: "eoID (ob_store ob a) = i" by (rule struct_invD(5) [OF inv i])
  have only: "c = a" if "c \<in> resting ob s" "eoID (ob_store ob c) = i" for c s
    using struct_invD(3) [OF inv that(1)] that(2) i by simp
  have id1: "eoID (ob_store ob1 c) = eoID (ob_store ob c)" for c by (simp add: ob1_def)
  have r1: "resting ob1 s = resting ob s" "side_heap ob1 s = side_heap ob s" for s by (simp_all add: ob1_def)
  have store3: "ob_store ob3 = (ob_store ob)(a := (ob_store ob a)\<lparr>eoRemaining := 0\<rparr>)"
    using U2(5) U3(5) by (auto simp: ob1_def)
  have r3: "resting ob3 s = resting ob s - {a}" for s
    using U2(2) [of s] U3(2) [of s] U2(5) only ida by (cases s) (auto simp: id1 r1)
  show "resting ob' t = resting ob t - {a}" by (simp add: ob' r3)
  show "ob_store ob' = (ob_store ob)(a := (ob_store ob a)\<lparr>eoRemaining := 0\<rparr>)" by (simp add: ob' store3)
  show "ob_orders ob' = (ob_orders ob)(i := None)" using U2(6) U3(6) by (simp add: ob' ob1_def)
  have "eoID (ob_store ob3 c) \<noteq> i" if "c \<in> resting ob3 s" for c s
    using that r3 only [of c s] by (auto simp: store3)
  then show "struct_inv ob'" using struct_inv_forget [OF U3(1)] by (simp add: ob')
  have ix: "side_index ob1 s i = None" if "a \<notin> resting ob s" for s
    using struct_invD(4) [OF inv1, of s i] that only [of _ s] unfolding id1 r1 by (metis not_None_eq)
  show "side_heap ob' t = side_heap ob t" if "a \<notin> resting ob t"
    using ix [OF that] U2(4,7) U3(4) by (cases t) (auto simp: ob' r1 simp del: side_heap.simps side_index.simps)
  show "mset (fst (side_heap ob' t)) = mset (fst (side_heap ob t)) - {#a#}" if "a \<in> resting ob t"
    using U2(2) [of t] U2(3) [of a] U2(4) [of Sell] U3(3) [of a] U3(4) [of Buy] U2(5) that ida
    by (cases t) (auto simp: ob' r1 id1 simp del: side_heap.simps)
qed

lemma Cancel_by_side:
  assumes "\<And>y. y \<in> set (book_side b (opposite s)) \<Longrightarrow> oID y \<noteq> i" "v \<in> set (book_side b s)" "oID v = i"
    and "\<And>y. y \<in> set (book_side b s) \<Longrightarrow> oID y = i \<Longrightarrow> y = v"
  shows "Cancel b i = (set_book_side s (remove1 v (book_side b s)) b, True)"
proof -
  have none: "index_of_id i (book_side b (opposite s)) = None" using assms(1) by (auto simp: index_of_id_None)
  obtain k where k: "index_of_id i (book_side b s) = Some k"
    using assms(2,3) index_of_id_None [of i "book_side b s"] by (cases "index_of_id i (book_side b s)") auto
  note K = index_of_id_remove [OF k]
  have "book_side b s ! k = v" using K assms(4) by simp
  then have "slice_remove k (book_side b s) = remove1 v (book_side b s)" using K by simp
  with none k show ?thesis by (cases s) (simp_all add: Cancel_def)
qed

lemma Cancel_absent:
  "(\<And>s y. y \<in> set (book_side b s) \<Longrightarrow> oID y \<noteq> i) \<Longrightarrow> Cancel b i = (b, False)"
proof -
  assume no: "\<And>s y. y \<in> set (book_side b s) \<Longrightarrow> oID y \<noteq> i"
  have "index_of_id i (bids b) = None" "index_of_id i (asks b) = None"
    using no [of _ Buy] no [of _ Sell] by (auto simp: index_of_id_None)
  then show ?thesis by (simp add: Cancel_def)
qed

lemma sim_side_remove:
  assumes sim: "sim_side f ob s xs" and inv: "struct_inv ob" and a: "a \<in> resting ob s"
    and h: "mset (fst (side_heap ob' s)) = mset (fst (side_heap ob s)) - {#a#}"
    and store: "\<And>c. c \<noteq> a \<Longrightarrow> ob_store ob' c = ob_store ob c"
  shows "sim_side f ob' s (remove1 (view f (ob_store ob a)) xs)"
proof -
  let ?h = "mset (fst (side_heap ob s))"
  have aM: "a \<in># ?h" "a \<notin># ?h - {#a#}"
    using a struct_invD(6) [OF inv, of s] by (auto simp: resting_def simp flip: mset_remove1)
  have "image_mset (\<lambda>c. view f (ob_store ob' c)) (?h - {#a#}) = image_mset (\<lambda>c. view f (ob_store ob c)) (?h - {#a#})"
    using aM(2) by (intro image_mset_cong) (metis store)
  also have "\<dots> = image_mset (\<lambda>c. view f (ob_store ob c)) ?h - {#view f (ob_store ob a)#}"
    using aM(1) by (simp add: image_mset_Diff)
  finally show ?thesis
    using sim h in_order_remove1 by (auto simp: sim_side_def all_pos_def dest: notin_set_remove1)
qed

lemma Cancel_refines:
  assumes ref: "refines T f ob b" and eng: "ob_Cancel ob i = (ob', err)" and bk: "Cancel b i = (b', found)"
  shows "refines T f ob' b'" "ob_orders ob' = (ob_orders ob)(i := None)" "resting ob' t \<subseteq> resting ob t"
    "\<And>c. eoAt (ob_store ob' c) = eoAt (ob_store ob c)"
proof -
  have inv: "struct_inv ob" and tm: "timed T ob" and sim: "\<And>s. sim_side f ob s (book_side b s)" and b: "book_inv b"
    using ref by (auto simp: refines_def)
  have b': "book_inv b'" using Cancel_book_inv [OF b, of i] bk by simp
  have sides: "set (book_side b s) = (\<lambda>a. view f (ob_store ob a)) ` resting ob s" for s by (rule sim_side_set [OF sim])
  have "refines T f ob' b' \<and> ob_orders ob' = (ob_orders ob)(i := None) \<and> (\<forall>t. resting ob' t \<subseteq> resting ob t)
      \<and> (\<forall>c. eoAt (ob_store ob' c) = eoAt (ob_store ob c))"
  proof (cases "ob_orders ob i")
    case None
    have "oID y \<noteq> i" if "y \<in> set (book_side b s)" for s y
      using that None struct_invD(3) [OF inv] by (auto simp: sides view_def)
    then have "b' = b" using Cancel_absent [of b i] bk by (metis fst_conv)
    moreover have "ob' = ob" using eng None by (simp add: ob_Cancel_def)
    ultimately show ?thesis using ref None by (auto simp: fun_upd_idem)
  next
    case (Some a)
    note C = ob_Cancel_struct [OF inv Some eng]
    have ida: "eoID (ob_store ob a) = i" by (rule struct_invD(5) [OF inv Some])
    have only: "c = a" if "c \<in> resting ob s" "eoID (ob_store ob c) = i" for c s
      using struct_invD(3) [OF inv that(1)] that(2) Some by simp
    have tm': "timed T ob'"
      using tm by (auto simp: timed_def C inj_on_def)
    have store: "ob_store ob' c = ob_store ob c" if "c \<noteq> a" for c using that by (simp add: C(6))
    have keep: "sim_side f ob' s (book_side b s)" if "a \<notin> resting ob s" for s
      by (rule sim_side_store_cong [OF sim C(5) [OF that]]) (metis store that)
    have "\<forall>s. sim_side f ob' s (book_side b' s)"
    proof (cases "\<exists>s. a \<in> resting ob s")
      case False
      have "oID y \<noteq> i" if "y \<in> set (book_side b s)" for s y
        using that only False by (auto simp: sides view_def)
      then have "b' = b" using Cancel_absent [of b i] bk by (metis fst_conv)
      with False keep show ?thesis by blast
    next
      case True
      then obtain s where s: "a \<in> resting ob s" by blast
      let ?v = "view f (ob_store ob a)"
      have other: "a \<notin> resting ob (opposite s)" by (rule resting_disjoint [OF inv s])
      have v: "?v \<in> set (book_side b s)" "oID ?v = i" using s ida by (auto simp: sides view_def)
      have cb: "Cancel b i = (set_book_side s (remove1 ?v (book_side b s)) b, True)"
        using v by (rule Cancel_by_side [rotated 1]) (use only other in \<open>auto simp: sides view_def\<close>)
      have "sim_side f ob' s (remove1 ?v (book_side b s))"
        by (rule sim_side_remove [OF sim inv s C(4) [OF s] store])
      then show ?thesis using keep [OF other] bk cb by (auto simp: all_sides [of _ s])
    qed
    then show ?thesis using C tm' b' by (auto simp: refines_def)
  qed
  then show "refines T f ob' b'" "ob_orders ob' = (ob_orders ob)(i := None)" "resting ob' t \<subseteq> resting ob t"
    "\<And>c. eoAt (ob_store ob' c) = eoAt (ob_store ob c)" by blast+
qed

section \<open>The invariant without the clock\<close>

text \<open>
  The operations keep the structure whatever the times of the orders are, and a matching loop only
  makes fills of positive quantity at prices the incoming order accepts, for exactly the quantity it
  takes off that order.
\<close>

lemma engine_invD:
  assumes "engine_inv ob"
  shows "struct_inv ob" "a \<in> resting ob s \<Longrightarrow> 0 < eoRemaining (ob_store ob a)"
  using assms by (auto simp: engine_inv_def)

definition good_fill :: "Side \<Rightarrow> f64 option \<Rightarrow> Fill \<Rightarrow> bool" where
  "good_fill s limit x \<longleftrightarrow> 0 < fQty x \<and> \<not> out_of_reach s limit (fPrice x)"

lemma fill_best_inv:
  assumes inv: "engine_inv ob" and a: "\<And>t. a \<notin> resting ob t" and ne: "fst (side_heap ob s) \<noteq> []"
    and q: "0 < eoRemaining (ob_store ob a)"
    and reach: "\<not> out_of_reach s limit (eoPrice (ob_store ob (fst (side_heap ob s) ! 0)))"
  shows "engine_inv (fst (fill_best s a ob))" "match_frame s a ob (fst (fill_best s a ob))"
    and "good_fill s limit (snd (fill_best s a ob))"
    and "eoRemaining (ob_store (fst (fill_best s a ob)) a) = eoRemaining (ob_store ob a) - fQty (snd (fill_best s a ob))"
    and "fQty (snd (fill_best s a ob)) \<le> eoRemaining (ob_store ob a)"
proof -
  let ?h = "fst (side_heap ob s)"
  define r where "r = ?h ! 0"
  have r: "r \<in> resting ob s" using ne by (simp add: resting_def r_def)
  have ar: "a \<noteq> r" using a r by blast
  define qa where "qa = eoRemaining (ob_store ob a)"
  define qr where "qr = eoRemaining (ob_store ob r)"
  define t where "t = min qa qr"
  have t: "0 < t" "t \<le> qr" using q engine_invD(2) [OF inv r] by (auto simp: t_def qa_def qr_def)
  define ob2 where "ob2 = set_remaining r (qr - t) (set_remaining a (qa - t) ob)"
  have fb: "fill_best s a ob = (if qr - t = 0 then pop_side s ob2 else ob2, make_fill s (ob_store ob a) (ob_store ob r) t)"
    using ar by (auto simp: fill_best_def Let_def r_def [symmetric] min64_def t_def qa_def qr_def ob2_def min_def)
  have s2: "struct_inv ob2" using engine_invD(1) [OF inv] by (simp add: ob2_def)
  have h2: "fst (side_heap ob2 s) = ?h" by (simp add: ob2_def)
  note P = pop_side_struct [OF s2, of s, unfolded h2, OF ne, folded r_def]
  have pos: "0 < eoRemaining (ob_store ob2 c)" if "c \<in> resting ob u" "c \<noteq> r" for c u
    using that a [of u] engine_invD(2) [OF inv that(1)] by (auto simp: ob2_def)
  have "0 < eoRemaining (ob_store ob2 r)" if "qr - t \<noteq> 0" using that t by (simp add: ob2_def)
  with pos have "engine_inv ob2" if "qr - t \<noteq> 0"
    using that s2 by (fastforce simp: engine_inv_def ob2_def)
  moreover have "engine_inv (pop_side s ob2)"
  proof -
    have "c \<noteq> r" if "c \<in> resting (pop_side s ob2) u" for c u
      using that P(2) [of u] resting_disjoint [OF engine_invD(1) [OF inv] r]
      by (cases "u = s") (auto simp: ob2_def, metis Side.exhaust opposite.simps)
    moreover have "resting (pop_side s ob2) u \<subseteq> resting ob u" for u using P(2) [of u] by (auto simp: ob2_def)
    ultimately show ?thesis using P(1) unfolding engine_inv_def pop_side_simps(2) by (metis pos subsetD)
  qed
  ultimately show "engine_inv (fst (fill_best s a ob))" by (simp add: fb)
  have "match_frame s a ob ob2" using s2 r by (auto simp: match_frame_def ob2_def)
  moreover have "match_frame s a ob (pop_side s ob2)"
    using P(1) P(2) [of s] r by (auto simp: match_frame_def ob2_def)
  ultimately show "match_frame s a ob (fst (fill_best s a ob))" by (simp add: fb)
  show "good_fill s limit (snd (fill_best s a ob))"
    unfolding fb using t reach [folded r_def] by (cases s) (simp_all add: good_fill_def make_fill_def)
  show "eoRemaining (ob_store (fst (fill_best s a ob)) a) = eoRemaining (ob_store ob a) - fQty (snd (fill_best s a ob))"
    using ar by (auto simp: fb ob2_def make_fill_def qa_def split: Side.splits)
  show "fQty (snd (fill_best s a ob)) \<le> eoRemaining (ob_store ob a)"
    by (simp add: fb make_fill_def t_def qa_def split: Side.split)
qed

lemma skip_exhausted_inv: "engine_inv ob \<Longrightarrow> skip_exhausted s ob = ob"
  using engine_invD(2) [of ob "fst (side_heap ob s) ! 0" s]
  by (subst skip_exhausted.simps) (auto simp: resting_def)

lemma match_loop_inv:
  "engine_inv ob \<Longrightarrow> (\<And>t. a \<notin> resting ob t) \<Longrightarrow> match_loop s limit a ob fills = (ob', fills') \<Longrightarrow>
     engine_inv ob' \<and> match_frame s a ob ob'
     \<and> (0 \<le> eoRemaining (ob_store ob a) \<longrightarrow> 0 \<le> eoRemaining (ob_store ob' a))
     \<and> (\<exists>new. fills' = fills @ new \<and> list_all (good_fill s limit) new
          \<and> eoRemaining (ob_store ob' a) = eoRemaining (ob_store ob a) - sum_list (map fQty new))"
proof (induction s limit a ob fills arbitrary: ob' fills' rule: match_loop.induct)
  case (1 s limit a ob fills)
  let ?top = "fst (side_heap ob s) ! 0"
  note skip = skip_exhausted_inv [OF "1.prems"(1), of s]
  have stay: "match_frame s a ob ob" by (rule match_frame_refl [OF engine_invD(1) [OF "1.prems"(1)]])
  show ?case
  proof (cases "0 < eoRemaining (ob_store ob a) \<and> fst (side_heap ob s) \<noteq> [] \<and> \<not> out_of_reach s limit (eoPrice (ob_store ob ?top))")
    case False
    then have "ob' = ob" "fills' = fills"
      using "1.prems"(3) by (auto simp: match_loop.simps [of s limit a ob] Let_def skip split: if_splits)
    with stay "1.prems"(1) show ?thesis by auto
  next
    case True
    let ?ob = "fst (fill_best s a ob)" and ?f = "snd (fill_best s a ob)"
    have L: "match_loop s limit a ?ob (fills @ [?f]) = (ob', fills')"
      using True "1.prems"(3) by (simp add: match_loop.simps [of s limit a ob] Let_def skip)
    note B = fill_best_inv [OF "1.prems"(1,2), of s limit]
    have b: "engine_inv ?ob" "match_frame s a ob ?ob" "good_fill s limit ?f"
      "eoRemaining (ob_store ?ob a) = eoRemaining (ob_store ob a) - fQty ?f"
      "fQty ?f \<le> eoRemaining (ob_store ob a)" using B True by auto
    have a: "a \<notin> resting ?ob t" for t using match_frame_resting [OF b(2)] "1.prems"(2) by blast
    have IH: "engine_inv ob' \<and> match_frame s a ?ob ob'
      \<and> (0 \<le> eoRemaining (ob_store ?ob a) \<longrightarrow> 0 \<le> eoRemaining (ob_store ob' a))
      \<and> (\<exists>new. fills' = (fills @ [?f]) @ new \<and> list_all (good_fill s limit) new
          \<and> eoRemaining (ob_store ob' a) = eoRemaining (ob_store ?ob a) - sum_list (map fQty new))"
      using "1.IH" [of "skip_exhausted s ob", unfolded skip, OF _ refl _ _ b(1) a L] True by blast
    then obtain new where "fills' = fills @ ([?f] @ new)" "list_all (good_fill s limit) new"
      "eoRemaining (ob_store ob' a) = eoRemaining (ob_store ?ob a) - sum_list (map fQty new)" by auto
    then show ?thesis
      using IH b match_frame_trans [OF b(2)] by (intro conjI exI [of _ "[?f] @ new"]) auto
  qed
qed

lemma register_inv:
  assumes inv: "engine_inv ob" and a: "\<And>t. a \<notin> resting ob t" and new: "ob_orders ob (eoID (ob_store ob a)) = None"
  shows "engine_inv (register a ob)" "resting (register a ob) t = resting ob t"
    "ob_orders (register a ob) = (ob_orders ob)(eoID (ob_store ob a) \<mapsto> a)"
    "(ob_store (register a ob) c)\<lparr>eoRemaining := 0\<rparr> = (ob_store ob c)\<lparr>eoRemaining := 0\<rparr>"
proof -
  define ob1 where "ob1 = (if eoRemaining (ob_store ob a) = 0 then set_remaining a (eoQty (ob_store ob a)) ob else ob)"
  have reg: "register a ob = ob1\<lparr>ob_orders := (ob_orders ob1)(eoID (ob_store ob1 a) \<mapsto> a)\<rparr>"
    by (simp add: register_def ob1_def Let_def)
  have o1: "ob_orders ob1 = ob_orders ob" "\<And>t. resting ob1 t = resting ob t" "\<And>t. side_heap ob1 t = side_heap ob t"
    "\<And>c. c \<noteq> a \<Longrightarrow> ob_store ob1 c = ob_store ob c" "eoID (ob_store ob1 a) = eoID (ob_store ob a)" "struct_inv ob1"
    using engine_invD(1) [OF inv] by (auto simp: ob1_def)
  have "eoID (ob_store ob1 c) \<noteq> eoID (ob_store ob a)" if "c \<in> resting ob s" for c s
    using struct_invD(3) [OF o1(6), of c s] that new by (auto simp: o1)
  with o1(6) struct_invD(5) [OF o1(6)] have "struct_inv (register a ob)"
    unfolding reg struct_inv_def by (auto simp: o1)
  moreover have "0 < eoRemaining (ob_store (register a ob) c)" if "c \<in> resting ob s" for c s
  proof -
    have "c \<noteq> a" using that a by blast
    then show ?thesis using engine_invD(2) [OF inv that] o1(4) by (simp add: reg)
  qed
  ultimately show "engine_inv (register a ob)" by (auto simp: engine_inv_def reg o1)
qed (auto simp: register_def Let_def)

lemma ob_Place_inv:
  assumes inv: "engine_inv ob" and a: "unused ob a" and p: "eoPrice (ob_store ob a) \<noteq> NaN"
    and eng: "ob_Place ob a = (ob', res)"
  shows "engine_inv ob'" "resting ob' t \<subseteq> insert a (resting ob t)" "ran (ob_orders ob') \<subseteq> insert a (ran (ob_orders ob))"
proof -
  define x where "x = ob_store ob a"
  have "engine_inv ob' \<and> (\<forall>t. resting ob' t \<subseteq> insert a (resting ob t)) \<and> ran (ob_orders ob') \<subseteq> insert a (ran (ob_orders ob))"
  proof (cases "ob_orders ob (eoID x)")
    case (Some c)
    then show ?thesis using eng inv by (auto simp: ob_Place_def Let_def x_def)
  next
    case None
    obtain ob2 fills where ml: "match_loop (opposite (eoSide x)) (Some (eoPrice x)) a (register a ob) [] = (ob2, fills)" by fastforce
    have a': "\<And>t. a \<notin> resting ob t" using a by (simp add: unused_def)
    note R = register_inv [OF inv a' None [unfolded x_def]]
    have aR: "\<And>t. a \<notin> resting (register a ob) t" using a' R(2) by simp
    note M = match_loop_inv [OF R(1) aR ml]
    then have fr: "match_frame (opposite (eoSide x)) a (register a ob) ob2" and i2: "engine_inv ob2" by auto
    have ords: "ob_orders ob2 = (ob_orders ob)(eoID x \<mapsto> a)" using fr R(3) by (simp add: match_frame_def x_def)
    have regf: "eoID (ob_store (register a ob) a) = eoID x" "eoSide (ob_store (register a ob) a) = eoSide x"
      "eoPrice (ob_store (register a ob) a) = eoPrice x"
      using R(4) [of a] by (simp_all add: x_def register_def Let_def)
    have flds: "eoID (ob_store ob2 a) = eoID x" "eoSide (ob_store ob2 a) = eoSide x" "eoPrice (ob_store ob2 a) \<noteq> NaN"
      using match_frame_fields [OF fr] regf p by (simp_all add: x_def)
    have a2: "\<And>t. a \<notin> resting ob2 t" and sub: "\<And>t. resting ob2 t \<subseteq> resting ob t"
      using match_frame_resting [OF fr] a' R(2) by blast+
    have e2: "ob' = (if 0 < eoRemaining (ob_store ob2 a) then rest_order (eoSide x) a ob2 else ob2)"
      using eng None ml by (simp add: ob_Place_def Let_def x_def [symmetric])
    have "ob_orders ob2 (eoID (ob_store ob2 a)) = Some a" using ords flds(1) by simp
    note P = rest_order_struct [OF engine_invD(1) [OF i2] a2 flds(2) this flds(3)]
    have "engine_inv (rest_order (eoSide x) a ob2)" if "0 < eoRemaining (ob_store ob2 a)"
      using P(1) that engine_invD(2) [OF i2] unfolding engine_inv_def P(2,5) by auto
    then have "engine_inv ob'" using i2 by (simp add: e2)
    moreover have "ran (ob_orders ob2) \<subseteq> insert a (ran (ob_orders ob))" using None by (simp add: ords)
    moreover have "resting ob' t \<subseteq> insert a (resting ob t)" for t
      using P(2) [of t] sub [of t] sub [of "eoSide x"] by (auto simp: e2)
    ultimately show ?thesis using P(6) by (simp add: e2)
  qed
  then show "engine_inv ob'" "resting ob' t \<subseteq> insert a (resting ob t)" "ran (ob_orders ob') \<subseteq> insert a (ran (ob_orders ob))"
    by auto
qed

lemma ob_PlaceMarket_inv:
  assumes inv: "engine_inv ob" and a: "unused ob a" and eng: "ob_PlaceMarket ob a = (ob', res)"
  shows "engine_inv ob'" "resting ob' t \<subseteq> resting ob t" "ob_orders ob' = ob_orders ob"
proof -
  define x where "x = ob_store ob a"
  have "engine_inv ob' \<and> (\<forall>t. resting ob' t \<subseteq> resting ob t) \<and> ob_orders ob' = ob_orders ob"
  proof (cases "ob_orders ob (eoID x)")
    case (Some c)
    then show ?thesis using eng inv by (auto simp: ob_PlaceMarket_def Let_def x_def)
  next
    case None
    obtain ob2 fills where ml: "match_loop (opposite (eoSide x)) None a (register a ob) [] = (ob2, fills)" by fastforce
    have a': "\<And>t. a \<notin> resting ob t" using a by (simp add: unused_def)
    note R = register_inv [OF inv a' None [unfolded x_def]]
    have aR: "\<And>t. a \<notin> resting (register a ob) t" using a' R(2) by simp
    note M = match_loop_inv [OF R(1) aR ml]
    then have fr: "match_frame (opposite (eoSide x)) a (register a ob) ob2" and i2: "engine_inv ob2" by auto
    have ords: "ob_orders ob2 = (ob_orders ob)(eoID x \<mapsto> a)" using fr R(3) by (simp add: match_frame_def x_def)
    have sub: "\<And>t. resting ob2 t \<subseteq> resting ob t" using match_frame_resting [OF fr] R(2) by blast
    have e2: "ob' = ob2\<lparr>ob_orders := (ob_orders ob2)(eoID x := None)\<rparr>"
      using eng None ml by (simp add: ob_PlaceMarket_def Let_def x_def [symmetric])
    have "eoID (ob_store ob2 c) \<noteq> eoID x" if "c \<in> resting ob2 s" for c s
      using struct_invD(3) [OF engine_invD(1) [OF i2] that] sub [of s] a' [of s] that by (auto simp: ords)
    then have "struct_inv ob'" unfolding e2 by (rule struct_inv_forget [OF engine_invD(1) [OF i2]])
    then have "engine_inv ob'" using engine_invD(2) [OF i2] by (auto simp: engine_inv_def e2)
    moreover have "ob_orders ob' = ob_orders ob" using None by (auto simp: e2 ords)
    ultimately show ?thesis using sub by (simp add: e2)
  qed
  then show "engine_inv ob'" "resting ob' t \<subseteq> resting ob t" "ob_orders ob' = ob_orders ob" by auto
qed

lemma ob_Cancel_inv:
  assumes inv: "engine_inv ob" and eng: "ob_Cancel ob i = (ob', err)"
  shows "engine_inv ob'" "resting ob' t \<subseteq> resting ob t" "ran (ob_orders ob') \<subseteq> ran (ob_orders ob)"
proof -
  have "engine_inv ob' \<and> (\<forall>t. resting ob' t \<subseteq> resting ob t) \<and> ran (ob_orders ob') \<subseteq> ran (ob_orders ob)"
  proof (cases "ob_orders ob i")
    case (Some a)
    note C = ob_Cancel_struct [OF engine_invD(1) [OF inv] Some eng]
    show ?thesis using C(1) engine_invD(2) [OF inv] by (auto simp: engine_inv_def C(3,6,7) ran_def)
  qed (use eng inv in \<open>simp add: ob_Cancel_def\<close>)
  then show "engine_inv ob'" "resting ob' t \<subseteq> resting ob t" "ran (ob_orders ob') \<subseteq> ran (ob_orders ob)" by auto
qed

end
