(* ===== verification/ReferenceServer.thy ===== *)
theory ReferenceServer
  imports EngineRefinement
begin

text \<open>
  The HTTP front of the reference contestant, \<open>samples/reference-orderbook/main.go\<close>: the engine, the
  counter that names orders without an id, and the allocation of order objects. A request body is
  given as what the JSON decoder makes of it, and the clock as an argument.
\<close>

section \<open>Requests and responses\<close>

record placeReq =
  prID :: string
  prSide :: string
  prKind :: string
  prPrice :: f64
  prQty :: int64

record ref_server =
  srv_ob :: OrderBook
  srv_orderID :: "64 word"
  srv_next :: addr

datatype response = RStatus nat | RError nat string | RPlaced string "Fill list"
  | RSnapshot "Level list" "Level list"

datatype request = ReqHealth | ReqPlace "string + placeReq" int64 | ReqCancel string
  | ReqSnapshot "f64 list" "f64 list"

definition error_text :: "engine_error \<Rightarrow> string" where
  "error_text e = (case e of DuplicateOrder i \<Rightarrow> ''duplicate order id '' @ i
     | OrderNotFound i \<Rightarrow> ''order '' @ i @ '' not found'')"

definition handleHealth :: response where
  "handleHealth = RStatus 200"

definition parse_side :: "string \<Rightarrow> Side option" where
  "parse_side s = (if s = ''buy'' then Some Buy else if s = ''sell'' then Some Sell else None)"

text \<open>The id of the new order: the one of the request, or the next of the counter.\<close>

definition order_id :: "placeReq \<Rightarrow> ref_server \<Rightarrow> string \<times> ref_server" where
  "order_id req sv = (if prID req \<noteq> '''' then (prID req, sv)
     else let n = srv_orderID sv + 1 in (''ord-'' @ show_nat (unat n), sv\<lparr>srv_orderID := n\<rparr>))"

definition new_order :: "EOrder \<Rightarrow> ref_server \<Rightarrow> addr \<times> ref_server" where
  "new_order x sv = (srv_next sv, sv\<lparr>srv_ob := alloc (srv_next sv) x (srv_ob sv), srv_next := srv_next sv + 1\<rparr>)"

definition reply_fills :: "string \<Rightarrow> ref_server \<Rightarrow> OrderBook \<times> (engine_error + Fill list) \<Rightarrow> ref_server \<times> response" where
  "reply_fills i sv r = (case r of (ob, res) \<Rightarrow>
     (sv\<lparr>srv_ob := ob\<rparr>, case res of Inl e \<Rightarrow> RError 409 (error_text e) | Inr fills \<Rightarrow> RPlaced i fills))"

definition handlePlace :: "(string + placeReq) \<Rightarrow> int64 \<Rightarrow> ref_server \<Rightarrow> ref_server \<times> response" where
  "handlePlace body now sv = (case body of
     Inl e \<Rightarrow> (sv, RError 400 e)
   | Inr req \<Rightarrow> (case parse_side (prSide req) of
       None \<Rightarrow> (sv, RError 400 ''side must be buy or sell'')
     | Some side \<Rightarrow>
         let (i, sv1) = order_id req sv;
             kind = (if prKind req = '''' then ''limit'' else prKind req);
             (a, sv2) = new_order \<lparr>eoID = i, eoSide = side, eoPrice = prPrice req, eoQty = prQty req,
                eoRemaining = 0, eoAt = now\<rparr> sv1
         in if kind = ''limit'' then reply_fills i sv2 (ob_Place (srv_ob sv2) a)
            else if kind = ''market'' then reply_fills i sv2 (ob_PlaceMarket (srv_ob sv2) a)
            else (sv2, RError 400 ''kind must be limit or market'')))"

definition handleCancel :: "string \<Rightarrow> ref_server \<Rightarrow> ref_server \<times> response" where
  "handleCancel i sv = (case ob_Cancel (srv_ob sv) i of (ob, err) \<Rightarrow>
     (sv\<lparr>srv_ob := ob\<rparr>, case err of Some e \<Rightarrow> RError 404 (error_text e) | None \<Rightarrow> RStatus 204))"

definition handleSnapshot :: "f64 list \<Rightarrow> f64 list \<Rightarrow> ref_server \<Rightarrow> response" where
  "handleSnapshot bks aks sv = (case Snapshot bks aks (srv_ob sv) of (bs, as) \<Rightarrow> RSnapshot bs as)"

definition serve :: "ref_server \<Rightarrow> request \<Rightarrow> ref_server \<times> response" where
  "serve sv r = (case r of ReqHealth \<Rightarrow> (sv, handleHealth)
     | ReqPlace body now \<Rightarrow> handlePlace body now sv
     | ReqCancel i \<Rightarrow> handleCancel i sv
     | ReqSnapshot bks aks \<Rightarrow> (sv, handleSnapshot bks aks sv))"

definition nil_order :: EOrder where
  "nil_order = \<lparr>eoID = '''', eoSide = Buy, eoPrice = Fin 0, eoQty = 0, eoRemaining = 0, eoAt = 0\<rparr>"

definition start_server :: ref_server where
  "start_server = \<lparr>srv_ob = NewOrderBook (\<lambda>_. nil_order), srv_orderID = 0, srv_next = 0\<rparr>"

section \<open>The server keeps its engine consistent\<close>

definition server_inv :: "ref_server \<Rightarrow> bool" where
  "server_inv sv \<longleftrightarrow> engine_inv (srv_ob sv) \<and> (\<forall>s. \<forall>a \<in> resting (srv_ob sv) s. a < srv_next sv)
     \<and> (\<forall>a \<in> ran (ob_orders (srv_ob sv)). a < srv_next sv)"

text \<open>A price that came in as JSON is a number.\<close>

fun request_priced :: "request \<Rightarrow> bool" where
  "request_priced (ReqPlace (Inr req) now) = (prPrice req \<noteq> NaN)"
| "request_priced _ = True"

lemma engine_inv_New: "engine_inv (NewOrderBook st)"
proof -
  have "priority_order.heap_inv (entry_behind (NewOrderBook st) s) (entry_priced (NewOrderBook st)) ([], \<lambda>_. 0)" for s
    by (simp add: priority_order.heap_inv_def [OF entry_order] priority_order.heap_upto_def [OF entry_order] idx_ok_def)
  moreover have "side_heap (NewOrderBook st) s = ([], \<lambda>_. 0)" "side_index (NewOrderBook st) s = Map.empty" for s
    by (cases s; simp add: NewOrderBook_def)+
  ultimately show ?thesis
    by (simp add: engine_inv_def struct_inv_def resting_def) (simp add: NewOrderBook_def)
qed

lemma server_inv_start: "server_inv start_server"
proof -
  have "resting (NewOrderBook st) s = {}" for st s by (cases s) (simp_all add: resting_def NewOrderBook_def)
  moreover have "ob_orders (NewOrderBook st) = Map.empty" for st by (simp add: NewOrderBook_def)
  ultimately show ?thesis by (simp add: server_inv_def start_server_def engine_inv_New)
qed

lemma server_inv_unused: "server_inv sv \<Longrightarrow> unused (srv_ob sv) (srv_next sv)"
  by (auto simp: server_inv_def unused_def)

lemma new_order_inv:
  assumes inv: "server_inv sv" and n: "new_order x sv = (a, sv2)"
  shows "engine_inv (srv_ob sv2)" "unused (srv_ob sv2) a" "ob_store (srv_ob sv2) a = x" "a < srv_next sv2"
    "\<forall>s. \<forall>c \<in> resting (srv_ob sv2) s. c < srv_next sv2" "\<forall>c \<in> ran (ob_orders (srv_ob sv2)). c < srv_next sv2"
  using assms server_inv_unused [OF inv] alloc_inv(2) [OF server_inv_unused [OF inv]]
  by (auto simp: new_order_def server_inv_def less_Suc_eq)

lemma reply_fills_inv:
  assumes "engine_inv ob" "\<forall>s. \<forall>a \<in> resting ob s. a < srv_next sv" "\<forall>a \<in> ran (ob_orders ob). a < srv_next sv"
  shows "server_inv (fst (reply_fills i sv (ob, res)))"
  using assms by (simp add: reply_fills_def server_inv_def)

lemma handlePlace_inv:
  assumes inv: "server_inv sv" and p: "request_priced (ReqPlace body now)"
  shows "server_inv (fst (handlePlace body now sv))"
proof (cases body)
  case (Inr req)
  show ?thesis
  proof (cases "parse_side (prSide req)")
    case (Some side)
    obtain i sv1 where o': "order_id req sv = (i, sv1)" by fastforce
    define x where "x = \<lparr>eoID = i, eoSide = side, eoPrice = prPrice req, eoQty = prQty req, eoRemaining = 0, eoAt = now\<rparr>"
    obtain a sv2 where n: "new_order x sv1 = (a, sv2)" by fastforce
    have inv1: "server_inv sv1" using inv o' by (auto simp: order_id_def server_inv_def Let_def split: if_splits)
    note N = new_order_inv [OF inv1 n]
    have price: "eoPrice (ob_store (srv_ob sv2) a) \<noteq> NaN" using p by (simp add: N(3) x_def Inr)
    obtain ob3 r3 where pl: "ob_Place (srv_ob sv2) a = (ob3, r3)" by fastforce
    obtain ob4 r4 where pm: "ob_PlaceMarket (srv_ob sv2) a = (ob4, r4)" by fastforce
    note A = ob_Place_inv [OF N(1,2) price pl] and B = ob_PlaceMarket_inv [OF N(1,2) pm]
    have "server_inv (fst (reply_fills i sv2 (ob3, r3)))"
      by (rule reply_fills_inv) (use A N(4-6) in blast)+
    moreover have "server_inv (fst (reply_fills i sv2 (ob4, r4)))"
      by (rule reply_fills_inv) (use B N(4-6) in \<open>simp_all, blast\<close>)
    moreover have "server_inv sv2" using N by (simp add: server_inv_def)
    ultimately show ?thesis
      using Inr Some o' n by (simp add: handlePlace_def x_def [symmetric] pl pm Let_def)
  qed (use Inr inv in \<open>simp add: handlePlace_def\<close>)
qed (use inv in \<open>simp add: handlePlace_def\<close>)

lemma handleCancel_inv:
  assumes "server_inv sv"
  shows "server_inv (fst (handleCancel i sv))"
proof -
  obtain ob err where c: "ob_Cancel (srv_ob sv) i = (ob, err)" by fastforce
  from assms have inv: "engine_inv (srv_ob sv)" by (simp add: server_inv_def)
  show ?thesis
    using assms ob_Cancel_inv [OF inv c] unfolding handleCancel_def c server_inv_def by (simp, blast)
qed

lemma serve_inv: "server_inv sv \<Longrightarrow> request_priced r \<Longrightarrow> server_inv (fst (serve sv r))"
  by (cases r) (simp_all add: serve_def handlePlace_inv handleCancel_inv)

definition serve_all :: "ref_server \<Rightarrow> request list \<Rightarrow> ref_server" where
  "serve_all = foldl (\<lambda>sv r. fst (serve sv r))"

lemma serve_all_inv: "server_inv sv \<Longrightarrow> list_all request_priced rs \<Longrightarrow> server_inv (serve_all sv rs)"
  by (induction rs arbitrary: sv) (simp_all add: serve_all_def serve_inv)

section \<open>Properties of the reference contestant\<close>

text \<open>C8: Whatever requests arrive, in whatever order and with whatever timestamps, the engine stays
  consistent: both sides are heaps in price-time priority whose entries know their own index, the id
  indices hold exactly the resting orders, every resting order is in the order table under its id and
  has quantity left.\<close>

theorem engine_stays_consistent:
  assumes "list_all request_priced rs"
  shows "engine_inv (srv_ob (serve_all start_server rs))"
  using serve_all_inv [OF server_inv_start assms] by (simp add: server_inv_def)

definition ex_place :: "string \<Rightarrow> string \<Rightarrow> f64 \<Rightarrow> int64 \<Rightarrow> int64 \<Rightarrow> request" where
  "ex_place i side p q now = ReqPlace (Inr \<lparr>prID = i, prSide = side, prKind = '''', prPrice = p, prQty = q\<rparr>) now"

definition ex_requests :: "request list" where
  "ex_requests = [ex_place ''s1'' ''sell'' (Fin 101) 5 1, ex_place ''s2'' ''sell'' (Fin 100) 4 2,
     ex_place ''b1'' ''buy'' (Fin 100) 6 3, ReqCancel ''s1'', ReqSnapshot [] []]"

theorem engine_stays_consistent_witness: "engine_inv (srv_ob (serve_all start_server ex_requests))"
  by (rule engine_stays_consistent) (simp add: ex_requests_def ex_place_def)

text \<open>C9: Cancelling a known order takes exactly that order off the book: the heap index it is removed by
  is the place it is at, every other resting order stays, its id leaves the order table and both
  indices, and the structure of the book is kept. An unknown id changes nothing and is reported.\<close>

theorem Cancel_removes_exactly_that_order:
  assumes "engine_inv ob" "ob_Cancel ob i = (ob', err)"
  shows "engine_inv ob' \<and> (case ob_orders ob i of
      None \<Rightarrow> ob' = ob \<and> err = Some (OrderNotFound i)
    | Some a \<Rightarrow> err = None \<and> (\<forall>s. resting ob' s = resting ob s - {a}) \<and> ob_orders ob' = (ob_orders ob)(i := None)
        \<and> (\<forall>s. side_index ob' s i = None)
        \<and> (\<forall>s. a \<in> resting ob s \<longrightarrow> fst (side_heap ob s) ! snd (side_heap ob s) a = a))"
proof (cases "ob_orders ob i")
  case None
  then show ?thesis using assms by (simp add: ob_Cancel_def)
next
  case (Some a)
  note inv = engine_invD(1) [OF assms(1)]
  note C = ob_Cancel_struct [OF inv Some assms(2)]
  have "side_index ob' s i = None" for s
  proof (rule ccontr)
    assume "side_index ob' s i \<noteq> None"
    then obtain c where c: "c \<in> resting ob' s" "eoID (ob_store ob' c) = i"
      using struct_invD(4) [OF C(1)] by blast
    then have "ob_orders ob' i = Some c" using struct_invD(3) [OF C(1) c(1)] by simp
    then show False by (simp add: C(7))
  qed
  then show ?thesis
    using Some C(2,3,7) ob_Cancel_inv(1) [OF assms] recorded_index [OF inv] by simp
qed

definition ex_ob :: OrderBook where
  "ex_ob = srv_ob (serve_all start_server (take 2 ex_requests))"

lemma ex_server_inv: "server_inv (serve_all start_server (take 2 ex_requests))" "srv_next (serve_all start_server (take 2 ex_requests)) = 2"
  by (rule serve_all_inv [OF server_inv_start]) (simp add: ex_requests_def ex_place_def, code_simp)

lemma ex_ob_inv: "engine_inv ex_ob"
  using ex_server_inv(1) by (simp add: server_inv_def ex_ob_def)

theorem Cancel_removes_exactly_that_order_witness:
  "\<exists>ob'. ob_Cancel ex_ob ''s1'' = (ob', None) \<and> resting ob' Sell = {1}"
proof -
  have o': "ob_orders ex_ob ''s1'' = Some 0" by code_simp
  have r: "fst (side_heap ex_ob Sell) = [1, 0]" by code_simp
  obtain ob' err where c: "ob_Cancel ex_ob ''s1'' = (ob', err)" by fastforce
  from Cancel_removes_exactly_that_order [OF ex_ob_inv c] have "err = None" "resting ob' Sell = resting ex_ob Sell - {0}"
    by (simp_all add: o')
  with c r show ?thesis by (auto simp: resting_def)
qed

text \<open>C10: A limit order that is accepted is filled only at prices it accepts, each fill for a positive
  quantity, never beyond its quantity in total, and it rests exactly when something is left of it; a
  used id is refused and changes nothing.\<close>

theorem Place_fills_within_limit:
  assumes inv: "engine_inv ob" and a: "unused ob a" and x: "ob_store ob a = x"
    and p: "eoPrice x \<noteq> NaN" "eoRemaining x = 0" "0 \<le> eoQty x"
    and eng: "ob_Place ob a = (ob', res)"
  shows "case res of
      Inl e \<Rightarrow> ob_orders ob (eoID x) \<noteq> None \<and> e = DuplicateOrder (eoID x) \<and> ob' = ob
    | Inr fills \<Rightarrow> ob_orders ob (eoID x) = None
        \<and> (\<forall>f \<in> set fills. 0 < fQty f \<and> (case eoSide x of Buy \<Rightarrow> \<not> flt (eoPrice x) (fPrice f) | Sell \<Rightarrow> \<not> flt (fPrice f) (eoPrice x)))
        \<and> (let left = eoQty x - sum_list (map fQty fills)
           in 0 \<le> left \<and> eoRemaining (ob_store ob' a) = left \<and> (a \<in> resting ob' (eoSide x) \<longleftrightarrow> 0 < left))"
proof (cases "ob_orders ob (eoID x)")
  case (Some c)
  then show ?thesis using eng x by (auto simp: ob_Place_def Let_def)
next
  case None
  obtain ob2 fills where ml: "match_loop (opposite (eoSide x)) (Some (eoPrice x)) a (register a ob) [] = (ob2, fills)" by fastforce
  have a': "\<And>t. a \<notin> resting ob t" using a by (simp add: unused_def)
  note R = register_inv [OF inv a', unfolded x, OF None]
  have aR: "\<And>t. a \<notin> resting (register a ob) t" using a' R(2) by simp
  have M: "match_frame (opposite (eoSide x)) a (register a ob) ob2"
      "list_all (good_fill (opposite (eoSide x)) (Some (eoPrice x))) fills"
      "eoRemaining (ob_store ob2 a) = eoRemaining (ob_store (register a ob) a) - sum_list (map fQty fills)"
    using match_loop_inv [OF R(1) aR ml] by auto
  have q: "eoRemaining (ob_store (register a ob) a) = eoQty x" using x p(2) by (simp add: register_def Let_def)
  have e2: "ob' = (if 0 < eoRemaining (ob_store ob2 a) then rest_order (eoSide x) a ob2 else ob2)" "res = Inr fills"
    using eng None ml x by (auto simp: ob_Place_def Let_def)
  have a2: "\<And>t. a \<notin> resting ob2 t" using match_frame_resting [OF M(1)] aR by blast
  have "ob_store (rest_order (eoSide x) a ob2) = ob_store ob2"
    by (simp add: rest_order_def Let_def)
  moreover have "a \<in> resting (rest_order (eoSide x) a ob2) (eoSide x)"
    by (simp add: rest_order_def Let_def heap_Push_mem)
  moreover have "0 \<le> eoRemaining (ob_store ob2 a)" using match_loop_inv [OF R(1) aR ml] q p(3) by simp
  moreover have "(case eoSide x of Buy \<Rightarrow> \<not> flt (eoPrice x) (fPrice f) | Sell \<Rightarrow> \<not> flt (fPrice f) (eoPrice x)) \<and> 0 < fQty f"
    if "f \<in> set fills" for f
    using M(2) that by (cases "eoSide x") (auto simp: list_all_iff good_fill_def out_of_reach_def)
  ultimately show ?thesis using None M(3) q a2 by (auto simp: e2 Let_def)
qed

theorem Place_fills_within_limit_witness:
  "\<exists>fills. snd (ob_Place (alloc 7 \<lparr>eoID = ''b'', eoSide = Buy, eoPrice = Fin 100, eoQty = 6, eoRemaining = 0, eoAt = 9\<rparr> ex_ob) 7) = Inr fills
     \<and> (\<forall>f \<in> set fills. 0 < fQty f \<and> \<not> flt (Fin 100) (fPrice f)) \<and> sum_list (map fQty fills) \<le> 6"
proof -
  let ?x = "\<lparr>eoID = ''b'', eoSide = Buy, eoPrice = Fin 100, eoQty = 6, eoRemaining = 0, eoAt = 9\<rparr>"
  have o': "ob_orders ex_ob ''b'' = None" by code_simp
  have "\<not> (7 :: nat) < 2" by simp
  then have u: "unused ex_ob 7"
    using ex_server_inv unfolding server_inv_def unused_def ex_ob_def by metis
  obtain ob' res where e: "ob_Place (alloc 7 ?x ex_ob) 7 = (ob', res)" by fastforce
  show ?thesis
    using Place_fills_within_limit [OF alloc_inv(2) [OF u ex_ob_inv, of ?x], of 7 ?x ob' res] u e
    by (auto simp: o' Let_def split: sum.splits)
qed

text \<open>The snapshot shows the book: bids from the highest price down and asks from the lowest up, one
  level per price that has a resting order, each with the resting quantity at that price, whatever order
  the price maps are visited in.\<close>

theorem Snapshot_shows_depth:
  assumes inv: "engine_inv ob" and "enumerates bks (side_levels ob Buy)" "enumerates aks (side_levels ob Sell)"
  shows "let (bs, as) = Snapshot bks aks ob in
      sorted_wrt (\<lambda>x y. lPrice y < lPrice x) bs \<and> sorted_wrt (\<lambda>x y. lPrice x < lPrice y) as
    \<and> set bs = {\<lparr>lPrice = p, lQty = wrap64 (depth_at ob Buy p)\<rparr> | p. \<exists>a \<in> resting ob Buy. eoPrice (ob_store ob a) = p}
    \<and> set as = {\<lparr>lPrice = p, lQty = wrap64 (depth_at ob Sell p)\<rparr> | p. \<exists>a \<in> resting ob Sell. eoPrice (ob_store ob a) = p}"
proof -
  have side: "set (sortLevels (levels_of ks (side_levels ob s)) desc)
        = {\<lparr>lPrice = p, lQty = wrap64 (depth_at ob s p)\<rparr> | p. \<exists>a \<in> resting ob s. eoPrice (ob_store ob a) = p}
      \<and> sorted_wrt (\<lambda>x y. if desc then lPrice y < lPrice x else lPrice x < lPrice y) (sortLevels (levels_of ks (side_levels ob s)) desc)"
    if "enumerates ks (side_levels ob s)" for ks s desc
  proof -
    have set: "set (levels_of ks (side_levels ob s))
        = {\<lparr>lPrice = p, lQty = wrap64 (depth_at ob s p)\<rparr> | p. \<exists>a \<in> resting ob s. eoPrice (ob_store ob a) = p}"
      using levels_of_props(1) [OF that] by (auto simp: side_levels_depth [OF inv])
    then have "\<forall>l \<in> set (levels_of ks (side_levels ob s)). level_priced l"
      using struct_invD(7) [OF engine_invD(1) [OF inv]] by (auto simp: level_priced_def entry_priced_def)
    from sortLevels_props [OF levels_of_props(2) [OF that] this, of desc] set show ?thesis by simp
  qed
  show ?thesis using side [OF assms(2), of True] side [OF assms(3), of False] by (simp add: Snapshot_def)
qed

theorem Snapshot_shows_depth_witness:
  "map lPrice (snd (Snapshot [] [Fin 101, Fin 100] ex_ob)) = [Fin 100, Fin 101]
   \<and> sorted_wrt (\<lambda>x y. lPrice x < lPrice y) (snd (Snapshot [] [Fin 101, Fin 100] ex_ob))"
proof -
  have r: "fst (side_heap ex_ob Sell) = [1, 0]" "fst (side_heap ex_ob Buy) = []"
    "map (\<lambda>a. eoPrice (ob_store ex_ob a)) [0, 1] = [Fin 101, Fin 100]" by code_simp+
  then have "side_levels ex_ob Buy p = None" "side_levels ex_ob Sell p \<noteq> None \<longleftrightarrow> p = Fin 101 \<or> p = Fin 100" for p
    by (auto simp: side_levels_depth [OF ex_ob_inv] resting_def)
  then have "enumerates [] (side_levels ex_ob Buy)" "enumerates [Fin 101, Fin 100] (side_levels ex_ob Sell)"
    by (auto simp: enumerates_def dom_def)
  from Snapshot_shows_depth [OF ex_ob_inv this] have
    "sorted_wrt (\<lambda>x y. lPrice x < lPrice y) (snd (Snapshot [] [Fin 101, Fin 100] ex_ob))" by (simp add: case_prod_beta Let_def)
  moreover have "map lPrice (snd (Snapshot [] [Fin 101, Fin 100] ex_ob)) = [Fin 100, Fin 101]" by code_simp
  ultimately show ?thesis by simp
qed

text \<open>A filled order stays in the order table, so that cancelling it succeeds.\<close>

lemma filled_order_can_be_cancelled:
  "snd (ob_Cancel (srv_ob (serve_all start_server
     [ex_place ''s1'' ''sell'' (Fin 100) 5 1, ex_place ''b1'' ''buy'' (Fin 100) 5 2])) ''s1'') = None"
  by code_simp

end
