(* ===== verification/Telemetry.thy ===== *)
theory Telemetry
  imports GoFloat
begin

text \<open>
  The telemetry contract every service shares, \<open>proto/telemetry/v1\<close>: the order event a bot emits for
  each request, and the key under which the aggregator and the validator file it.
\<close>

datatype OrderType = ORDER_TYPE_UNSPECIFIED | ORDER_TYPE_LIMIT | ORDER_TYPE_MARKET | ORDER_TYPE_CANCEL

datatype OrderResult = ORDER_RESULT_UNSPECIFIED | ORDER_RESULT_FILLED | ORDER_RESULT_PARTIAL
  | ORDER_RESULT_REJECTED | ORDER_RESULT_TIMEOUT | ORDER_RESULT_ACK_ONLY

datatype OrderSide = ORDER_SIDE_UNSPECIFIED | ORDER_SIDE_BUY | ORDER_SIDE_SELL

record OrderEvent =
  eTraceId :: string
  eContestantId :: string
  eBotId :: string
  eSubmissionId :: string
  eOrderId :: string
  eType :: OrderType
  eResult :: OrderResult
  eSentTsNs :: int64
  eAckTsNs :: int64
  eLatencyNs :: int64
  ePrice :: f64
  eQuantity :: int64
  eFilledQuantity :: int64
  eRejectReason :: string
  eSide :: OrderSide

text \<open>A message with every field at its default, as an omitted field of a literal has it.\<close>

definition emptyEvent :: OrderEvent where
  "emptyEvent = \<lparr>eTraceId = '''', eContestantId = '''', eBotId = '''', eSubmissionId = '''',
     eOrderId = '''', eType = ORDER_TYPE_UNSPECIFIED, eResult = ORDER_RESULT_UNSPECIFIED,
     eSentTsNs = 0, eAckTsNs = 0, eLatencyNs = 0, ePrice = Fin 0, eQuantity = 0,
     eFilledQuantity = 0, eRejectReason = '''', eSide = ORDER_SIDE_UNSPECIFIED\<rparr>"

text \<open>\<open>runKey\<close>, the same function in both services: key, contestant, submission.\<close>

definition runKey :: "OrderEvent \<Rightarrow> string \<times> string \<times> string" where
  "runKey e = (let contestant = eContestantId e; submission = eSubmissionId e
     in if submission \<noteq> '''' then (submission, contestant, submission)
        else (contestant, contestant, submission))"

text \<open>The key of an event a service keeps; a nil event or one without a contestant is dropped.\<close>

definition event_key :: "OrderEvent option \<Rightarrow> string option" where
  "event_key eo = (case eo of None \<Rightarrow> None
     | Some e \<Rightarrow> if eContestantId e = '''' then None else Some (fst (runKey e)))"

end
