(* ===== verification/BotGen.thy ===== *)
theory BotGen
  imports Telemetry
begin

text \<open>
  The load generator of a bot, \<open>services/bot-worker/internal/gen\<close>: the random orders, the trader
  profiles and the inter-arrival times, with the latency recorder of \<open>internal/stats\<close> and the clock
  probe of \<open>internal/clocksync\<close>. What the random generator, the clock and \<open>math.Log\<close> return is an
  argument of the definitions. The lemmas bound every order the bot can send and every wait it makes.
\<close>

section \<open>Orders\<close>

datatype GKind = Limit | Market

record GOrder =
  goSide :: string
  goKind :: GKind
  goPrice :: f64
  goQty :: int64

record GConfig =
  gcMidPrice :: f64
  gcPriceSigma :: f64
  gcMinQty :: int64
  gcMaxQty :: int64
  gcCancelRatio :: f64
  gcMarketRatio :: f64

definition applyDefaults :: "GConfig \<Rightarrow> GConfig" where
  "applyDefaults c =
     (let c = (if fle (gcMidPrice c) (Fin 0) then c\<lparr>gcMidPrice := Fin 100\<rparr> else c);
          c = (if fle (gcPriceSigma c) (Fin 0) then c\<lparr>gcPriceSigma := Fin 1\<rparr> else c);
          c = (if gcMinQty c \<le> 0 then c\<lparr>gcMinQty := 1\<rparr> else c);
          c = (if gcMaxQty c \<le> 0 then c\<lparr>gcMaxQty := 10\<rparr> else c);
          c = (if fle (gcCancelRatio c) (Fin 0) then c\<lparr>gcCancelRatio := f64_of_rat (7 / 10)\<rparr> else c)
      in (if flt (gcMarketRatio c) (Fin 0) then c\<lparr>gcMarketRatio := f64_of_rat (1 / 10)\<rparr> else c))"

text \<open>
  What the random generator returns during one \<open>Next\<close>: \<open>Intn(2)\<close>, \<open>Intn(max - min + 1)\<close>, \<open>Float64()\<close>
  and \<open>NormFloat64()\<close>, each looked at only when the code draws it.
\<close>

record draws =
  drSide :: int64
  drQty :: int64
  drMarket :: f64
  drNorm :: f64

definition limit_price :: "GConfig \<Rightarrow> f64 \<Rightarrow> f64" where
  "limit_price cfg z =
     (let raw = fadd (gcMidPrice cfg) (fmul z (gcPriceSigma cfg));
          raw = (if flt raw (f64_of_rat (1 / 100)) then f64_of_rat (1 / 100) else raw)
      in fdiv (math_Round (fmul raw (Fin 100))) (Fin 100))"

definition gen_Next :: "GConfig \<Rightarrow> draws \<Rightarrow> GOrder" where
  "gen_Next cfg d =
     (let side = (if drSide d = 1 then ''sell'' else ''buy'');
          qty = (if gcMinQty cfg < gcMaxQty cfg then wrap64 (gcMinQty cfg + drQty d) else gcMinQty cfg)
      in if flt (Fin 0) (gcMarketRatio cfg) \<and> flt (drMarket d) (gcMarketRatio cfg)
         then \<lparr>goSide = side, goKind = Market, goPrice = Fin 0, goQty = qty\<rparr>
         else \<lparr>goSide = side, goKind = Limit, goPrice = limit_price cfg (drNorm d), goQty = qty\<rparr>)"

definition ShouldCancel :: "GConfig \<Rightarrow> f64 \<Rightarrow> bool" where
  "ShouldCancel cfg u = flt u (gcCancelRatio cfg)"

section \<open>Profiles\<close>

datatype profile_error = UnknownBotProfile string

definition PresetConfig :: "string \<Rightarrow> f64 \<Rightarrow> f64 \<Rightarrow> profile_error + GConfig" where
  "PresetConfig p mid sigma =
     (let cfg = \<lparr>gcMidPrice = mid, gcPriceSigma = sigma, gcMinQty = 1, gcMaxQty = 10, gcCancelRatio = Fin 0, gcMarketRatio = Fin 0\<rparr>
      in if p = ''market_maker'' then
           Inr (cfg\<lparr>gcPriceSigma := fmul sigma (f64_of_rat (1 / 4)), gcCancelRatio := f64_of_rat (85 / 100),
                    gcMarketRatio := Fin 0, gcMinQty := 1, gcMaxQty := 5\<rparr>)
         else if p = ''aggressive_taker'' then
           Inr (cfg\<lparr>gcCancelRatio := f64_of_rat (5 / 100), gcMarketRatio := f64_of_rat (6 / 10), gcMinQty := 2, gcMaxQty := 8\<rparr>)
         else if p = ''retail'' then
           Inr (cfg\<lparr>gcPriceSigma := fmul sigma (f64_of_rat (5 / 2)), gcCancelRatio := f64_of_rat (15 / 100),
                    gcMarketRatio := f64_of_rat (1 / 10), gcMinQty := 1, gcMaxQty := 3\<rparr>)
         else if p = ''noise'' \<or> p = '''' then
           Inr (cfg\<lparr>gcCancelRatio := f64_of_rat (1 / 2), gcMarketRatio := f64_of_rat (1 / 10), gcMinQty := 1, gcMaxQty := 10\<rparr>)
         else Inl (UnknownBotProfile p))"

definition AllProfiles :: "string list" where
  "AllProfiles = [''market_maker'', ''aggressive_taker'', ''retail'', ''noise'']"

section \<open>Arrivals\<close>

record Arrivals =
  arMode :: string
  arInterval :: int64
  arBurstIvl :: int64
  arMaxJitter :: int64
  arBurstActive :: bool

definition NewArrivals :: "string \<Rightarrow> f64 \<Rightarrow> Arrivals" where
  "NewArrivals mode rps =
     (let rps = (if fle rps (Fin 0) then Fin 1 else rps);
          ivl = int64_of_f64 (fdiv (Fin 1000000000) rps)
      in \<lparr>arMode = mode, arInterval = ivl, arBurstIvl = ivl, arMaxJitter = 0, arBurstActive = False\<rparr>)"

definition WithJitter :: "int64 \<Rightarrow> Arrivals \<Rightarrow> Arrivals" where
  "WithJitter d a = a\<lparr>arMaxJitter := d\<rparr>"

definition SetBurstActive :: "bool \<Rightarrow> Arrivals \<Rightarrow> Arrivals" where
  "SetBurstActive b a = a\<lparr>arBurstActive := b\<rparr>"

text \<open>What \<open>StartBurst\<close> sets before its timer goroutine starts; the goroutine only calls \<open>SetBurstActive\<close>.\<close>

definition StartBurst :: "int64 \<Rightarrow> Arrivals \<Rightarrow> Arrivals" where
  "StartBurst multiplier a =
     (if multiplier \<le> 1 then a
      else let d = go_div (arInterval a) multiplier in a\<lparr>arBurstIvl := (if d \<le> 0 then 1000000 else d)\<rparr>)"

text \<open>\<open>logU\<close> is what \<open>math.Log\<close> gives for the uniform draw, \<open>jit\<close> the draw of \<open>Int63n\<close>.\<close>

definition arrivals_Next :: "Arrivals \<Rightarrow> f64 \<Rightarrow> int64 \<Rightarrow> int64" where
  "arrivals_Next a logU jit =
     (let ivl = (if arBurstActive a then arBurstIvl a else arInterval a);
          base = (if arMode a = ''poisson''
                  then let v = int64_of_f64 (fmul (fneg logU) (f64_of_int ivl)) in if v \<le> 0 then ivl else v
                  else ivl)
      in if 0 < arMaxJitter a then wrap64 (base + jit) else base)"

section \<open>Latency recorder and clock probe\<close>

record Recorder =
  rcLatNs :: "int64 list"
  rcErrors :: int64
  rcTotal :: int64
  rcClockOffsetNs :: int64

record RSnapshot =
  rsCount :: int64
  rsErrors :: int64
  rsTPS :: f64
  rsP50Ns :: int64
  rsP90Ns :: int64
  rsP99Ns :: int64
  rsClockOffsetNs :: int64

definition NewRecorder :: Recorder where
  "NewRecorder = \<lparr>rcLatNs = [], rcErrors = 0, rcTotal = 0, rcClockOffsetNs = 0\<rparr>"

definition RecordLatency :: "int64 \<Rightarrow> Recorder \<Rightarrow> Recorder" where
  "RecordLatency ns r = r\<lparr>rcTotal := wrap64 (rcTotal r + 1), rcLatNs := rcLatNs r @ [ns]\<rparr>"

definition RecordError :: "Recorder \<Rightarrow> Recorder" where
  "RecordError r = r\<lparr>rcErrors := wrap64 (rcErrors r + 1), rcTotal := wrap64 (rcTotal r + 1)\<rparr>"

definition SetClockOffset :: "int64 \<Rightarrow> Recorder \<Rightarrow> Recorder" where
  "SetClockOffset ns r = r\<lparr>rcClockOffsetNs := ns\<rparr>"

text \<open>The index \<open>percentile\<close> reads: outside the slice the read would panic.\<close>

definition percentile_index :: "nat \<Rightarrow> int64 \<Rightarrow> int64" where
  "percentile_index n p =
     int64_of_f64 (fdiv (fmul (f64_of_int (int n - 1)) (f64_of_int p)) (Fin 100))"

definition percentile :: "int64 list \<Rightarrow> int64 \<Rightarrow> int64 option" where
  "percentile xs p =
     (if xs = [] then Some 0
      else let idx = percentile_index (length xs) p
           in if 0 \<le> idx \<and> idx < int (length xs) then Some (xs ! nat idx) else None)"

text \<open>\<open>elapsed\<close> is the time since the start in seconds. \<open>None\<close> stands for a panic of \<open>percentile\<close>.\<close>

definition recorder_Snapshot :: "f64 \<Rightarrow> Recorder \<Rightarrow> RSnapshot option" where
  "recorder_Snapshot elapsed r =
     (let tps = (if flt (Fin 0) elapsed then fdiv (f64_of_int (rcTotal r)) elapsed else Fin 0);
          cp = sort (rcLatNs r)
      in case (percentile cp 50, percentile cp 90, percentile cp 99) of
           (Some p50, Some p90, Some p99) \<Rightarrow>
             Some \<lparr>rsCount = rcTotal r, rsErrors = rcErrors r, rsTPS = tps, rsP50Ns = p50, rsP90Ns = p90,
                   rsP99Ns = p99, rsClockOffsetNs = rcClockOffsetNs r\<rparr>
         | _ \<Rightarrow> None)"

text \<open>The arithmetic of \<open>EstimateOffset\<close> once the probe has answered.\<close>

definition EstimateOffset :: "int64 \<Rightarrow> int64 \<Rightarrow> int64 \<Rightarrow> int64" where
  "EstimateOffset t1 nowNs t3 = wrap64 (nowNs - go_div (wrap64 (t1 + t3)) 2)"

section \<open>Bounds\<close>

lemma fdiv_pos_mono: "0 < c \<Longrightarrow> a \<le> b \<Longrightarrow> fdiv a (Fin c) \<noteq> NaN \<Longrightarrow> fdiv b (Fin c) \<noteq> NaN \<Longrightarrow> fdiv a (Fin c) \<le> fdiv b (Fin c)"
  by (cases a; cases b) (auto simp: f64_of_rat_mono divide_right_mono inf_signed_def)

lemma fmul_pos_mono: "0 < c \<Longrightarrow> a \<le> b \<Longrightarrow> b \<noteq> NaN \<Longrightarrow> fmul a (Fin c) \<le> fmul b (Fin c)"
  by (cases a; cases b) (auto simp: f64_of_rat_mono mult_right_mono inf_signed_def)

lemma one_cent: "f64_of_rat (1 / 100) = Fin (5764607523034235 / 2 ^ 59)"
  by (subst f64_of_rat_eval [where k = "- 7" and m = 5764607523034235]) (simp_all add: pow2_def)

lemma one_cent_steps:
  "fmul (Fin (5764607523034235 / 2 ^ 59)) (Fin 100) = Fin 1" "math_Round (Fin 1) = Fin 1"
  "fdiv (Fin 1) (Fin 100) = Fin (5764607523034235 / 2 ^ 59)"
proof -
  show "fmul (Fin (5764607523034235 / 2 ^ 59)) (Fin 100) = Fin 1"
    by (simp only: fmul.simps, subst f64_of_rat_eval [where k = 0 and m = "2 ^ 52"]) (simp_all add: pow2_def)
  show "math_Round (Fin 1) = Fin 1" by (simp add: floor_eq_iff)
  show "fdiv (Fin 1) (Fin 100) = Fin (5764607523034235 / 2 ^ 59)" using one_cent by simp
qed

lemma limit_price_ge_cent:
  assumes "fadd (gcMidPrice cfg) (fmul z (gcPriceSigma cfg)) \<noteq> NaN"
  shows "f64_of_rat (1 / 100) \<le> limit_price cfg z" "limit_price cfg z \<noteq> NaN"
proof -
  define c where "c = Fin (5764607523034235 / 2 ^ 59)"
  define raw where "raw = (let raw = fadd (gcMidPrice cfg) (fmul z (gcPriceSigma cfg)) in if flt raw c then c else raw)"
  have raw: "c \<le> raw" "raw \<noteq> NaN" using assms by (auto simp: raw_def c_def Let_def)
  have lp: "limit_price cfg z = fdiv (math_Round (fmul raw (Fin 100))) (Fin 100)"
    by (simp only: limit_price_def Let_def raw_def c_def one_cent)
  have nn: "fmul raw (Fin 100) \<noteq> NaN" using raw(2) by (cases raw) (simp_all add: inf_signed_def)
  have rr: "math_Round (fmul raw (Fin 100)) \<noteq> NaN" using nn by (cases "fmul raw (Fin 100)") simp_all
  show nan: "limit_price cfg z \<noteq> NaN"
    using rr unfolding lp by (cases "math_Round (fmul raw (Fin 100))") (simp_all add: inf_signed_def)
  have "Fin 1 \<le> fmul raw (Fin 100)"
    using fmul_pos_mono [of 100 c raw] raw one_cent_steps(1) by (simp add: c_def)
  then have "Fin 1 \<le> math_Round (fmul raw (Fin 100))"
    using math_Round_mono [of "Fin 1"] one_cent_steps(2) by metis
  then have "fdiv (Fin 1) (Fin 100) \<le> limit_price cfg z"
    unfolding lp using nan by (intro fdiv_pos_mono) (simp_all add: lp)
  then show "f64_of_rat (1 / 100) \<le> limit_price cfg z" by (simp only: one_cent_steps(3) one_cent)
qed

definition drawn_for :: "GConfig \<Rightarrow> draws \<Rightarrow> bool" where
  "drawn_for cfg d \<longleftrightarrow> 0 \<le> drQty d \<and> drQty d \<le> gcMaxQty cfg - gcMinQty cfg \<or> gcMaxQty cfg \<le> gcMinQty cfg"

lemma gen_Next_qty:
  assumes "in_int64 (gcMinQty cfg)" "in_int64 (gcMaxQty cfg)" "drawn_for cfg d"
  shows "gcMinQty cfg \<le> goQty (gen_Next cfg d)" "goQty (gen_Next cfg d) \<le> max (gcMinQty cfg) (gcMaxQty cfg)"
proof -
  have "in_int64 (gcMinQty cfg + drQty d)" if "gcMinQty cfg < gcMaxQty cfg"
    using assms that by (auto simp: in_int64_def drawn_for_def)
  with assms(3) show "gcMinQty cfg \<le> goQty (gen_Next cfg d)" "goQty (gen_Next cfg d) \<le> max (gcMinQty cfg) (gcMaxQty cfg)"
    by (auto simp: gen_Next_def Let_def drawn_for_def)
qed

lemma applyDefaults_qty: "1 \<le> gcMinQty (applyDefaults c)" "1 \<le> gcMaxQty (applyDefaults c)"
  by (auto simp: applyDefaults_def Let_def)

text \<open>C27: Every order the generator makes from a configuration with defaults applied has a quantity of at
  least one and at most the larger of the two bounds, is a buy or a sell, and is a market order without a
  price or a limit order whose price is at least one cent.\<close>

theorem generated_orders_are_valid:
  assumes cfg: "cfg = applyDefaults c" "in_int64 (gcMinQty cfg)" "in_int64 (gcMaxQty cfg)"
    and d: "drawn_for cfg d" "fadd (gcMidPrice cfg) (fmul (drNorm d) (gcPriceSigma cfg)) \<noteq> NaN"
  shows "let o' = gen_Next cfg d in 1 \<le> goQty o' \<and> goQty o' \<le> max (gcMinQty cfg) (gcMaxQty cfg)
     \<and> goSide o' \<in> {''buy'', ''sell''}
     \<and> (goKind o' = Market \<and> goPrice o' = Fin 0 \<or> goKind o' = Limit \<and> f64_of_rat (1 / 100) \<le> goPrice o' \<and> goPrice o' \<noteq> NaN)"
proof -
  have "1 \<le> goQty (gen_Next cfg d)" "goQty (gen_Next cfg d) \<le> max (gcMinQty cfg) (gcMaxQty cfg)"
    using gen_Next_qty [OF cfg(2,3) d(1)] applyDefaults_qty [of c] cfg(1) by auto
  then show ?thesis using limit_price_ge_cent [OF d(2)] by (simp add: Let_def) (simp add: gen_Next_def Let_def)
qed

theorem generated_orders_are_valid_witness:
  "let cfg = applyDefaults \<lparr>gcMidPrice = Fin 0, gcPriceSigma = Fin 0, gcMinQty = 0, gcMaxQty = 0, gcCancelRatio = Fin 0, gcMarketRatio = Fin 0\<rparr>;
       o' = gen_Next cfg \<lparr>drSide = 1, drQty = 9, drMarket = Fin 0, drNorm = Fin 2\<rparr>
   in 1 \<le> goQty o' \<and> goQty o' \<le> 10 \<and> goSide o' \<in> {''buy'', ''sell''}"
proof -
  define c where "c = \<lparr>gcMidPrice = Fin 0, gcPriceSigma = Fin 0, gcMinQty = 0, gcMaxQty = 0, gcCancelRatio = Fin 0, gcMarketRatio = Fin 0\<rparr>"
  define d where "d = \<lparr>drSide = 1, drQty = 9, drMarket = Fin 0, drNorm = Fin 2\<rparr>"
  have m: "gcMinQty (applyDefaults c) = 1" "gcMaxQty (applyDefaults c) = 10" "gcMidPrice (applyDefaults c) = Fin 100" "gcPriceSigma (applyDefaults c) = Fin 1"
    by (simp_all add: applyDefaults_def c_def)
  have "fmul (Fin 2) (Fin 1) = Fin 2" using f64_of_int_exact [of 2] by (simp add: f64_of_int_def)
  then have "drawn_for (applyDefaults c) d" "fadd (gcMidPrice (applyDefaults c)) (fmul (drNorm d) (gcPriceSigma (applyDefaults c))) \<noteq> NaN"
    by (simp_all add: m drawn_for_def d_def)
  from generated_orders_are_valid [OF refl _ _ this] show ?thesis
    by (simp add: m c_def [symmetric] d_def [symmetric] Let_def in_int64_def min_int64_def max_int64_def)
qed

lemma int64_of_f64_mono:
  assumes "Fin a \<le> Fin b" "0 \<le> a" "b < 2 ^ 63"
  shows "0 \<le> int64_of_f64 (Fin a)" "int64_of_f64 (Fin a) \<le> int64_of_f64 (Fin b)" "int64_of_f64 (Fin b) = \<lfloor>b\<rfloor>"
proof -
  have ab: "a \<le> b" using assms(1) by simp
  have "\<lfloor>b\<rfloor> < 2 ^ 63" "\<lfloor>a\<rfloor> < 2 ^ 63" using assms ab by (simp_all add: floor_less_iff)
  moreover have "0 \<le> \<lfloor>a\<rfloor>" "\<lfloor>a\<rfloor> \<le> \<lfloor>b\<rfloor>" using assms(2) ab by (simp_all add: floor_mono)
  ultimately show "0 \<le> int64_of_f64 (Fin a)" "int64_of_f64 (Fin a) \<le> int64_of_f64 (Fin b)" "int64_of_f64 (Fin b) = \<lfloor>b\<rfloor>"
    using assms(2) ab by (auto simp: Let_def in_int64_def min_int64_def max_int64_def)
qed

lemma percentile_index_bounds:
  assumes n: "0 < n" "n < 2 ^ 46" and p: "0 \<le> p" "p \<le> q" "q \<le> 100"
  shows "0 \<le> percentile_index n p" "percentile_index n p \<le> percentile_index n q" "percentile_index n q < int n"
proof -
  define m where "m = int n - 1"
  have m: "0 \<le> m" "m < 2 ^ 46" using n by (simp_all add: m_def)
  have prod: "m * x < 2 ^ 53" "0 \<le> m * x" if "0 \<le> x" "x \<le> 100" for x :: int
  proof -
    have "m * x \<le> m * 100" using m that by (intro mult_left_mono) auto
    also have "\<dots> < 2 ^ 53" using m by simp
    finally show "m * x < 2 ^ 53" "0 \<le> m * x" using m that by simp_all
  qed
  have step: "fdiv (fmul (f64_of_int m) (f64_of_int x)) (Fin 100) = f64_of_rat (of_int (m * x) / 100)" if "0 \<le> x" "x \<le> 100" for x
  proof -
    have "f64_of_int m = Fin (of_int m)" "f64_of_int x = Fin (of_int x)"
      using m that by (simp_all add: f64_of_int_exact)
    moreover have "f64_of_rat (of_int m * of_int x) = Fin (of_int (m * x))"
      using f64_of_int_exact [of "m * x"] prod [OF that] by (simp add: f64_of_int_def)
    ultimately show ?thesis by simp
  qed
  have top: "f64_of_rat (of_int m) = Fin (of_int m)" using f64_of_int_exact [of m] m by (simp add: f64_of_int_def)
  have "rat_of_int (m * x) / 100 \<le> of_int m" if "0 \<le> x" "x \<le> 100" for x
    using mult_left_mono [of "rat_of_int x" 100 "rat_of_int m"] m that by simp
  then have le: "f64_of_rat (of_int (m * x) / 100) \<le> Fin (of_int m)" "Fin 0 \<le> f64_of_rat (of_int (m * x) / 100)" if "0 \<le> x" "x \<le> 100" for x
    using f64_of_rat_mono [of "of_int (m * x) / 100" "of_int m"] f64_of_rat_mono [of 0 "of_int (m * x) / 100"] m that top by auto
  have mono: "f64_of_rat (of_int (m * p) / 100) \<le> f64_of_rat (of_int (m * q) / 100)"
    using m p by (intro f64_of_rat_mono divide_right_mono) (simp_all add: mult_left_mono)
  obtain a where a: "f64_of_rat (of_int (m * p) / 100) = Fin a" "0 \<le> a" using le [of p] p by (cases "f64_of_rat (of_int (m * p) / 100)") auto
  obtain b where b: "f64_of_rat (of_int (m * q) / 100) = Fin b" "b \<le> of_int m" using le [of q] p by (cases "f64_of_rat (of_int (m * q) / 100)") auto
  have ab: "Fin a \<le> Fin b" using mono a(1) b(1) by simp
  have "rat_of_int m < of_int (2 ^ 63)" unfolding of_int_less_iff using m by simp
  then have "b < 2 ^ 63" using b(2) by simp
  note I = int64_of_f64_mono [OF ab a(2) this]
  have idx: "percentile_index n p = int64_of_f64 (Fin a)" "percentile_index n q = int64_of_f64 (Fin b)"
    using step [of p] step [of q] p a(1) b(1) by (simp_all add: percentile_index_def m_def)
  show "0 \<le> percentile_index n p" "percentile_index n p \<le> percentile_index n q" using I(1,2) by (simp_all only: idx)
  have "\<lfloor>b\<rfloor> \<le> m" using b(2) by (metis floor_mono floor_of_int)
  then show "percentile_index n q < int n" by (simp only: idx I(3)) (simp add: m_def)
qed

text \<open>A metrics snapshot never fails: each percentile index lies inside the sorted samples, the three
  percentiles are samples in ascending order (or zero when there are none), and the counts are those recorded.\<close>

theorem snapshot_percentiles_ordered:
  assumes "length (rcLatNs r) < 2 ^ 46"
  shows "\<exists>s. recorder_Snapshot elapsed r = Some s \<and> rsP50Ns s \<le> rsP90Ns s \<and> rsP90Ns s \<le> rsP99Ns s
     \<and> (rcLatNs r \<noteq> [] \<longrightarrow> {rsP50Ns s, rsP90Ns s, rsP99Ns s} \<subseteq> set (rcLatNs r)) \<and> rsCount s = rcTotal r \<and> rsErrors s = rcErrors r"
proof (cases "rcLatNs r = []")
  case True
  then show ?thesis by (simp add: recorder_Snapshot_def percentile_def Let_def)
next
  case False
  define cp where "cp = sort (rcLatNs r)"
  have n: "0 < length cp" "length cp < 2 ^ 46" using False assms by (simp_all add: cp_def)
  let ?i = "\<lambda>p. nat (percentile_index (length cp) p)"
  note B = percentile_index_bounds [OF n]
  have pc: "percentile cp p = Some (cp ! ?i p)" "?i p < length cp" if "0 \<le> p" "p \<le> 100" for p
    using B [of p p] that n(1) by (auto simp: percentile_def Let_def)
  have mono: "cp ! ?i p \<le> cp ! ?i q" if "0 \<le> p" "p \<le> q" "q \<le> 100" for p q
    using B [of p q] pc(2) [of q] that by (intro sorted_nth_mono) (auto simp: cp_def nat_mono)
  have mem: "cp ! ?i p \<in> set (rcLatNs r)" if "0 \<le> p" "p \<le> 100" for p
    using nth_mem [OF pc(2) [OF that]] by (simp add: cp_def)
  show ?thesis
    using mono [of 50 90] mono [of 90 99] mem [of 50] mem [of 90] mem [of 99]
    by (simp add: recorder_Snapshot_def cp_def [symmetric] Let_def pc(1))
qed

theorem snapshot_percentiles_ordered_witness:
  "\<exists>s. recorder_Snapshot (Fin 2) (RecordLatency 30 (RecordLatency 10 NewRecorder)) = Some s \<and> rsP50Ns s \<le> rsP90Ns s"
proof -
  have "length (rcLatNs (RecordLatency 30 (RecordLatency 10 NewRecorder))) < 2 ^ 46"
    by (simp add: RecordLatency_def NewRecorder_def)
  from snapshot_percentiles_ordered [OF this, of "Fin 2"] show ?thesis by blast
qed

text \<open>The wait between two orders is positive, and with jitter it stays within the jitter bound of the
  base wait, in burst mode as outside it.\<close>

theorem waits_are_positive:
  assumes "0 < arInterval a" "0 < arBurstIvl a" "in_int64 (arInterval a)" "in_int64 (arBurstIvl a)"
    and "arMode a \<noteq> ''poisson''" "0 < arMaxJitter a \<longrightarrow> 0 \<le> jit \<and> jit < arMaxJitter a"
    and "arInterval a + arMaxJitter a < 2 ^ 63" "arBurstIvl a + arMaxJitter a < 2 ^ 63"
  shows "let ivl = (if arBurstActive a then arBurstIvl a else arInterval a)
     in 0 < arrivals_Next a logU jit \<and> ivl \<le> arrivals_Next a logU jit
      \<and> arrivals_Next a logU jit \<le> ivl + max 0 (arMaxJitter a - 1)"
proof -
  define ivl where "ivl = (if arBurstActive a then arBurstIvl a else arInterval a)"
  have i: "0 < ivl" "ivl + arMaxJitter a < 2 ^ 63" using assms by (auto simp: ivl_def)
  have n: "arrivals_Next a logU jit = (if 0 < arMaxJitter a then wrap64 (ivl + jit) else ivl)"
    using assms(5) by (simp add: arrivals_Next_def ivl_def Let_def)
  have "in_int64 (ivl + jit)" if "0 < arMaxJitter a"
    using i assms(6) that by (auto simp: in_int64_def min_int64_def max_int64_def)
  with i assms(6) show ?thesis unfolding ivl_def [symmetric] by (auto simp: n Let_def)
qed

definition ex_arrivals :: Arrivals where
  "ex_arrivals = WithJitter 500 \<lparr>arMode = ''uniform'', arInterval = 10000000, arBurstIvl = 1000000, arMaxJitter = 0, arBurstActive = True\<rparr>"

theorem waits_are_positive_witness: "0 < arrivals_Next ex_arrivals (Fin 0) 7 \<and> arrivals_Next ex_arrivals (Fin 0) 7 \<le> 1000499"
  using waits_are_positive [of ex_arrivals 7 "Fin 0"]
  by (simp add: ex_arrivals_def WithJitter_def in_int64_def min_int64_def max_int64_def Let_def)

text \<open>When both directions of the probe take the same time \<open>d\<close> and the server's clock runs \<open>off\<close>
  nanoseconds ahead of the local one, the estimate is \<open>off\<close>: positive means that the server is ahead.\<close>

theorem offset_of_symmetric_probe:
  assumes "0 \<le> t1" "0 \<le> d" "2 * t1 + 2 * d < 2 ^ 63" "in_int64 off"
  shows "EstimateOffset t1 (t1 + d + off) (t1 + 2 * d) = off"
proof -
  have "wrap64 (t1 + (t1 + 2 * d)) = 2 * (t1 + d)"
    using assms by (subst wrap64_id) (auto simp: in_int64_def min_int64_def max_int64_def)
  then show ?thesis using assms by (simp add: EstimateOffset_def)
qed

theorem offset_of_symmetric_probe_witness: "EstimateOffset 1000 1350 1100 = 300"
  using offset_of_symmetric_probe [of 1000 50 300] by (simp add: in_int64_def min_int64_def max_int64_def)

end
