(* ===== verification/BotWorker.thy ===== *)
theory BotWorker
  imports BotGen
begin

text \<open>
  The bot, \<open>services/bot-worker/main.go\<close> and \<open>internal/client\<close>: the order clients' reading of a response,
  and the worker loop that cancels and places orders on every arrival and emits a telemetry event for
  each. The transport is an argument: a client is its state with three operations, as the
  \<open>OrderClient\<close> interface has them.
\<close>

section \<open>Clients\<close>

text \<open>What the code asks of an error: \<open>errors.As\<close> a \<open>net.Error\<close> with \<open>Timeout()\<close>, \<open>errors.Is\<close> the two context errors.\<close>

record go_error =
  isNetTimeout :: bool
  isDeadlineExceeded :: bool
  isCanceled :: bool

definition plain_error :: go_error where
  "plain_error = \<lparr>isNetTimeout = False, isDeadlineExceeded = False, isCanceled = False\<rparr>"

record PlaceResult =
  plID :: string
  plFilled :: int64
  plFillKnown :: bool
  plLatencyNs :: int64

definition noResult :: PlaceResult where
  "noResult = \<lparr>plID = '''', plFilled = 0, plFillKnown = False, plLatencyNs = 0\<rparr>"

text \<open>
  What comes back from the contestant: no response, or a status with a body, which is \<open>None\<close> when it
  does not decode. The REST body is an id and the fill quantities.
\<close>

datatype http_reply = NoReply go_error | Reply nat "(string \<times> int64 list) option"

record rest_req =
  rqSide :: string
  rqKind :: string
  rqPrice :: f64
  rqQty :: int64

text \<open>\<open>json.Marshal\<close> fails on a number that is not finite.\<close>

fun finite_f64 :: "f64 \<Rightarrow> bool" where
  "finite_f64 (Fin x) = True"
| "finite_f64 _ = False"

definition sum_fills :: "int64 list \<Rightarrow> int64" where
  "sum_fills = foldl (\<lambda>a q. wrap64 (a + q)) 0"

definition rest_result :: "http_reply \<Rightarrow> int64 \<Rightarrow> PlaceResult \<times> go_error option" where
  "rest_result reply latNs = (case reply of
     NoReply e \<Rightarrow> (noResult\<lparr>plLatencyNs := latNs\<rparr>, Some e)
   | Reply status body \<Rightarrow>
       if status \<noteq> 200 then (noResult\<lparr>plLatencyNs := latNs\<rparr>, Some plain_error)
       else (case body of
         None \<Rightarrow> (noResult\<lparr>plLatencyNs := latNs\<rparr>, Some plain_error)
       | Some (i, fills) \<Rightarrow>
           (\<lparr>plID = i, plFilled = sum_fills fills, plFillKnown = True, plLatencyNs = latNs\<rparr>, None)))"

text \<open>\<open>send\<close> is the HTTP exchange, with the latency it took.\<close>

definition REST_place :: "('c \<Rightarrow> rest_req \<Rightarrow> 'c \<times> http_reply \<times> int64) \<Rightarrow> 'c \<Rightarrow> rest_req \<Rightarrow> 'c \<times> PlaceResult \<times> go_error option" where
  "REST_place send c pr =
     (if \<not> finite_f64 (rqPrice pr) then (c, noResult, Some plain_error)
      else case send c pr of (c', reply, latNs) \<Rightarrow> (c', rest_result reply latNs))"

definition REST_PlaceOrder :: "('c \<Rightarrow> rest_req \<Rightarrow> 'c \<times> http_reply \<times> int64) \<Rightarrow> 'c \<Rightarrow> string \<Rightarrow> f64 \<Rightarrow> int64 \<Rightarrow> 'c \<times> PlaceResult \<times> go_error option" where
  "REST_PlaceOrder send c side price qty = REST_place send c \<lparr>rqSide = side, rqKind = ''limit'', rqPrice = price, rqQty = qty\<rparr>"

definition REST_PlaceMarketOrder :: "('c \<Rightarrow> rest_req \<Rightarrow> 'c \<times> http_reply \<times> int64) \<Rightarrow> 'c \<Rightarrow> string \<Rightarrow> int64 \<Rightarrow> 'c \<times> PlaceResult \<times> go_error option" where
  "REST_PlaceMarketOrder send c side qty = REST_place send c \<lparr>rqSide = side, rqKind = ''market'', rqPrice = Fin 0, rqQty = qty\<rparr>"

definition REST_cancel_result :: "http_reply \<Rightarrow> go_error option" where
  "REST_cancel_result reply = (case reply of NoReply e \<Rightarrow> Some e
     | Reply status _ \<Rightarrow> if status \<noteq> 200 \<and> status \<noteq> 204 then Some plain_error else None)"

definition REST_CancelOrder :: "('c \<Rightarrow> string \<Rightarrow> 'c \<times> http_reply \<times> int64) \<Rightarrow> 'c \<Rightarrow> string \<Rightarrow> 'c \<times> int64 \<times> go_error option" where
  "REST_CancelOrder send c i = (case send c i of (c', reply, latNs) \<Rightarrow> (c', latNs, REST_cancel_result reply))"

text \<open>The WebSocket client: a reply carries an optional fill, and an error text.\<close>

record wsResp =
  wsID :: string
  wsError :: string
  wsFilled :: "int64 option"

definition ws_roundTrip :: "go_error + wsResp option \<Rightarrow> go_error + wsResp" where
  "ws_roundTrip raw = (case raw of Inl e \<Rightarrow> Inl e | Inr None \<Rightarrow> Inl plain_error
     | Inr (Some resp) \<Rightarrow> if wsError resp \<noteq> '''' then Inl plain_error else Inr resp)"

definition WS_place :: "go_error + wsResp option \<Rightarrow> int64 \<Rightarrow> PlaceResult \<times> go_error option" where
  "WS_place raw latNs = (case ws_roundTrip raw of
     Inl e \<Rightarrow> (noResult\<lparr>plLatencyNs := latNs\<rparr>, Some e)
   | Inr resp \<Rightarrow>
       let res = noResult\<lparr>plID := wsID resp, plLatencyNs := latNs\<rparr>
       in (case wsFilled resp of None \<Rightarrow> res | Some q \<Rightarrow> res\<lparr>plFilled := q, plFillKnown := True\<rparr>, None))"

section \<open>The worker loop\<close>

record 'c OrderClient =
  clPlaceOrder :: "'c \<Rightarrow> string \<Rightarrow> f64 \<Rightarrow> int64 \<Rightarrow> 'c \<times> PlaceResult \<times> go_error option"
  clPlaceMarketOrder :: "'c \<Rightarrow> string \<Rightarrow> int64 \<Rightarrow> 'c \<times> PlaceResult \<times> go_error option"
  clCancelOrder :: "'c \<Rightarrow> string \<Rightarrow> 'c \<times> int64 \<times> go_error option"

definition isShutdownErr :: "bool \<Rightarrow> go_error \<Rightarrow> bool" where
  "isShutdownErr ctxDone e = (ctxDone \<or> isCanceled e)"

definition resultForErr :: "go_error \<Rightarrow> OrderResult" where
  "resultForErr e = (if isNetTimeout e then ORDER_RESULT_TIMEOUT
     else if isDeadlineExceeded e then ORDER_RESULT_TIMEOUT else ORDER_RESULT_REJECTED)"

text \<open>\<open>strings.EqualFold\<close> on ASCII text, which the generator's sides are.\<close>

definition fold_char :: "char \<Rightarrow> nat" where
  "fold_char c = (let n = of_char c in if 65 \<le> n \<and> n \<le> 90 then n + 32 else n)"

definition EqualFold :: "string \<Rightarrow> string \<Rightarrow> bool" where
  "EqualFold s t = (map fold_char s = map fold_char t)"

definition sideEnum :: "string \<Rightarrow> OrderSide" where
  "sideEnum side = (if EqualFold side ''sell'' then ORDER_SIDE_SELL else ORDER_SIDE_BUY)"

record identity =
  idContestant :: string
  idSubmission :: string
  idBot :: string

text \<open>What one arrival sees of its surroundings: the draws, the two clock reads, and whether the context is done.\<close>

record arrival =
  arCancelDraw :: f64
  arDraws :: draws
  arCancelStart :: int64
  arPlaceStart :: int64
  arDoneAtCancel :: bool
  arDoneAtPlace :: bool

record 'c worker =
  wkClient :: 'c
  wkLive :: "string list"
  wkRec :: Recorder
  wkEmitted :: "OrderEvent list"
  wkStopped :: bool

definition emit :: "OrderEvent \<Rightarrow> 'c worker \<Rightarrow> 'c worker" where
  "emit e w = w\<lparr>wkEmitted := wkEmitted w @ [e]\<rparr>"

definition tagged :: "identity \<Rightarrow> OrderEvent" where
  "tagged i = emptyEvent\<lparr>eContestantId := idContestant i, eSubmissionId := idSubmission i, eBotId := idBot i\<rparr>"

definition cancel_turn :: "'c OrderClient \<Rightarrow> identity \<Rightarrow> GConfig \<Rightarrow> arrival \<Rightarrow> 'c worker \<Rightarrow> 'c worker" where
  "cancel_turn cl i cfg a w = (case wkLive w of [] \<Rightarrow> w
     | pick # rest \<Rightarrow>
        if \<not> ShouldCancel cfg (arCancelDraw a) then w
        else case clCancelOrder cl (wkClient w) pick of (c', latNs, err) \<Rightarrow>
          let w = w\<lparr>wkClient := c', wkLive := rest\<rparr>; start = arCancelStart a in
          (case err of
             None \<Rightarrow> emit ((tagged i)\<lparr>eOrderId := pick, eType := ORDER_TYPE_CANCEL, eResult := ORDER_RESULT_ACK_ONLY,
                 eSentTsNs := start, eAckTsNs := wrap64 (start + latNs), eLatencyNs := latNs\<rparr>)
                 (w\<lparr>wkRec := RecordLatency latNs (wkRec w)\<rparr>)
           | Some e \<Rightarrow>
               if isShutdownErr (arDoneAtCancel a) e then w\<lparr>wkStopped := True\<rparr>
               else emit ((tagged i)\<lparr>eOrderId := pick, eType := ORDER_TYPE_CANCEL, eResult := resultForErr e, eSentTsNs := start\<rparr>)
                 (w\<lparr>wkRec := RecordError (wkRec w)\<rparr>)))"

text \<open>How a known fill is classified against the quantity asked for.\<close>

definition classify_fill :: "PlaceResult \<Rightarrow> int64 \<Rightarrow> OrderResult \<times> int64" where
  "classify_fill res qty =
     (if plFillKnown res
      then (if qty \<le> plFilled res then ORDER_RESULT_FILLED
            else if 0 < plFilled res then ORDER_RESULT_PARTIAL else ORDER_RESULT_ACK_ONLY, plFilled res)
      else (ORDER_RESULT_UNSPECIFIED, 0))"

definition place_turn :: "'c OrderClient \<Rightarrow> identity \<Rightarrow> GConfig \<Rightarrow> arrival \<Rightarrow> 'c worker \<Rightarrow> 'c worker" where
  "place_turn cl i cfg a w =
     (let ord = gen_Next cfg (arDraws a); start = arPlaceStart a;
          teleType = (if goKind ord = Market then ORDER_TYPE_MARKET else ORDER_TYPE_LIMIT);
          (c', res, err) = (if goKind ord = Market then clPlaceMarketOrder cl (wkClient w) (goSide ord) (goQty ord)
                            else clPlaceOrder cl (wkClient w) (goSide ord) (goPrice ord) (goQty ord));
          w = w\<lparr>wkClient := c'\<rparr>;
          e0 = (tagged i)\<lparr>eType := teleType, eSide := sideEnum (goSide ord), eSentTsNs := start,
                 ePrice := goPrice ord, eQuantity := goQty ord\<rparr>
      in (case err of
            None \<Rightarrow>
              let (result, filled) = classify_fill res (goQty ord)
              in emit (e0\<lparr>eOrderId := plID res, eResult := result, eAckTsNs := wrap64 (start + plLatencyNs res),
                       eLatencyNs := plLatencyNs res, eFilledQuantity := filled\<rparr>)
                   (w\<lparr>wkRec := RecordLatency (plLatencyNs res) (wkRec w),
                      wkLive := (if goKind ord \<noteq> Market then wkLive w @ [plID res] else wkLive w)\<rparr>)
          | Some e \<Rightarrow>
              if isShutdownErr (arDoneAtPlace a) e then w\<lparr>wkStopped := True\<rparr>
              else emit (e0\<lparr>eResult := resultForErr e\<rparr>) (w\<lparr>wkRec := RecordError (wkRec w)\<rparr>)))"

text \<open>One arrival; a worker that has returned does nothing more.\<close>

definition worker_tick :: "'c OrderClient \<Rightarrow> identity \<Rightarrow> GConfig \<Rightarrow> 'c worker \<Rightarrow> arrival \<Rightarrow> 'c worker" where
  "worker_tick cl i cfg w a =
     (if wkStopped w then w
      else let w1 = cancel_turn cl i cfg a w in if wkStopped w1 then w1 else place_turn cl i cfg a w1)"

definition runWorker :: "'c OrderClient \<Rightarrow> identity \<Rightarrow> GConfig \<Rightarrow> 'c \<Rightarrow> arrival list \<Rightarrow> 'c worker" where
  "runWorker cl i cfg c as =
     foldl (worker_tick cl i cfg) \<lparr>wkClient = c, wkLive = [], wkRec = NewRecorder, wkEmitted = [], wkStopped = False\<rparr> as"

end
