(* ===== verification/Validator.thy ===== *)
theory Validator
  imports Book Telemetry
begin

text \<open>
  The validator, \<open>services/validator/internal/replay/validator.go\<close>: it replays the order stream of each
  submission on a reference book of its own and counts the fills the contestant reported wrongly.
  The lemmas show that a submission's verdict depends on its own events only, that the counters count
  what they say, and that the correctness served to the leaderboard is in the unit interval and is one
  exactly for a run without a mismatch.
\<close>

section \<open>State\<close>

record Report =
  rContestantID :: string
  rSubmissionID :: string
  rTotalChecked :: int64
  rMismatches :: int64
  rCorrectness :: f64

record counters =
  cContestantID :: string
  cSubmissionID :: string
  cTotal :: int64
  cMismatches :: int64
  cLastTsNs :: int64

record Validator =
  vBooks :: "string \<rightharpoonup> Book"
  vCounters :: "string \<rightharpoonup> counters"

definition NewValidator :: Validator where
  "NewValidator = \<lparr>vBooks = Map.empty, vCounters = Map.empty\<rparr>"

section \<open>Process\<close>

definition event_side :: "OrderEvent \<Rightarrow> Side" where
  "event_side e = (if eSide e = ORDER_SIDE_SELL then Sell else Buy)"

definition event_order :: "OrderEvent \<Rightarrow> Order" where
  "event_order e = \<lparr>oID = eOrderId e, oSide = event_side e, oPrice = ePrice e, oQty = eQuantity e,
     oTsNs = eSentTsNs e\<rparr>"

text \<open>The replay of a limit or market order: the new book and the canonical fill.\<close>

definition replay_order :: "Book \<Rightarrow> OrderEvent \<Rightarrow> Book \<times> int64" where
  "replay_order b e = (if eType e = ORDER_TYPE_MARKET then PlaceMarket b (event_side e) (eQuantity e)
                       else Place b (event_order e))"

text \<open>The counters after the fill of \<open>e\<close> is compared with the expected one.\<close>

definition score_fill :: "counters \<Rightarrow> OrderEvent \<Rightarrow> int64 \<Rightarrow> counters" where
  "score_fill c e expected =
     (if eResult e \<noteq> ORDER_RESULT_UNSPECIFIED
      then let c1 = c\<lparr>cTotal := wrap64 (cTotal c + 1)\<rparr>
           in if expected \<noteq> eFilledQuantity e then c1\<lparr>cMismatches := wrap64 (cMismatches c1 + 1)\<rparr> else c1
      else c)"

text \<open>What \<open>Process\<close> does to the book and the counters it looked up.\<close>

definition process_run :: "Book \<times> counters \<Rightarrow> OrderEvent \<Rightarrow> Book \<times> counters" where
  "process_run bc e = (case bc of (book, c) \<Rightarrow>
     let c1 = (if cLastTsNs c < eSentTsNs e then c\<lparr>cLastTsNs := eSentTsNs e\<rparr> else c)
     in (case eType e of
           ORDER_TYPE_LIMIT \<Rightarrow> (case replay_order book e of (book', expected) \<Rightarrow> (book', score_fill c1 e expected))
         | ORDER_TYPE_MARKET \<Rightarrow> (case replay_order book e of (book', expected) \<Rightarrow> (book', score_fill c1 e expected))
         | ORDER_TYPE_CANCEL \<Rightarrow> (fst (Cancel book (eOrderId e)), c1)
         | ORDER_TYPE_UNSPECIFIED \<Rightarrow> (book, c1)))"

definition new_counters :: "string \<Rightarrow> string \<Rightarrow> counters" where
  "new_counters contestant submission =
     \<lparr>cContestantID = contestant, cSubmissionID = submission, cTotal = 0, cMismatches = 0, cLastTsNs = 0\<rparr>"

definition Process :: "Validator \<Rightarrow> OrderEvent option \<Rightarrow> Validator" where
  "Process v eo = (case eo of None \<Rightarrow> v | Some e \<Rightarrow>
     if eContestantId e = '''' then v
     else case runKey e of (key, contestant, submission) \<Rightarrow>
       let book = (case vBooks v key of None \<Rightarrow> New | Some b \<Rightarrow> b);
           c = (case vCounters v key of None \<Rightarrow> new_counters contestant submission | Some c \<Rightarrow> c)
       in (case process_run (book, c) e of (book', c') \<Rightarrow>
            v\<lparr>vBooks := (vBooks v)(key \<mapsto> book'), vCounters := (vCounters v)(key \<mapsto> c')\<rparr>))"

section \<open>Reports\<close>

definition makeReport :: "counters \<Rightarrow> Report" where
  "makeReport c =
     (let correctness = (if 0 < cTotal c
            then fsub (Fin 1) (fdiv (f64_of_int (cMismatches c)) (f64_of_int (cTotal c))) else Fin 1)
      in \<lparr>rContestantID = cContestantID c, rSubmissionID = cSubmissionID c, rTotalChecked = cTotal c,
          rMismatches = cMismatches c, rCorrectness = correctness\<rparr>)"

text \<open>The \<open>range\<close> of \<open>latestForContestant\<close> over the counters, in the order they come.\<close>

fun latest_loop :: "string \<Rightarrow> counters option \<Rightarrow> counters list \<Rightarrow> counters option" where
  "latest_loop cid best [] = best"
| "latest_loop cid best (c # cs) =
     (if cContestantID c \<noteq> cid then latest_loop cid best cs
      else case best of
             None \<Rightarrow> latest_loop cid (Some c) cs
           | Some b \<Rightarrow> latest_loop cid (if cLastTsNs b < cLastTsNs c then Some c else best) cs)"

definition latestForContestant :: "string list \<Rightarrow> Validator \<Rightarrow> string \<Rightarrow> counters option" where
  "latestForContestant ks v cid = latest_loop cid None (range_values ks (vCounters v))"

definition Report_of :: "string list \<Rightarrow> Validator \<Rightarrow> string \<Rightarrow> Report option" where
  "Report_of ks v key = (case vCounters v key of
     Some c \<Rightarrow> Some (makeReport c)
   | None \<Rightarrow> map_option makeReport (latestForContestant ks v key))"

definition All_reports :: "string list \<Rightarrow> Validator \<Rightarrow> Report list" where
  "All_reports ks v = map makeReport (range_values ks (vCounters v))"

section \<open>One run per key\<close>

definition run_at_key :: "Validator \<Rightarrow> string \<Rightarrow> (Book option \<times> counters option)" where
  "run_at_key v k = (vBooks v k, vCounters v k)"

definition process_at :: "Book option \<times> counters option \<Rightarrow> OrderEvent option \<Rightarrow> Book option \<times> counters option" where
  "process_at s eo = (case eo of None \<Rightarrow> s | Some e \<Rightarrow>
     (case process_run (case fst s of None \<Rightarrow> New | Some b \<Rightarrow> b,
                        case snd s of None \<Rightarrow> new_counters (eContestantId e) (eSubmissionId e) | Some c \<Rightarrow> c) e of
        (b, c) \<Rightarrow> (Some b, Some c)))"

lemma event_key_Some:
  "event_key eo = Some k \<longleftrightarrow> (\<exists>e. eo = Some e \<and> eContestantId e \<noteq> '''' \<and> k = fst (runKey e))"
  by (auto simp: event_key_def split: option.splits)

lemma runKey_tags: "runKey e = (fst (runKey e), eContestantId e, eSubmissionId e)"
  by (simp add: runKey_def Let_def)

lemma Process_dropped: "event_key eo = None \<Longrightarrow> Process v eo = v"
  by (auto simp: Process_def event_key_def split: option.splits if_splits)

lemma Process_kept:
  assumes "event_key eo = Some k"
  shows "run_at_key (Process v eo) = (run_at_key v)(k := process_at (run_at_key v k) eo)"
proof -
  from assms obtain e where e: "eo = Some e" "eContestantId e \<noteq> ''''" "k = fst (runKey e)"
    by (auto simp: event_key_Some)
  obtain b c where bc: "process_run (case vBooks v k of None \<Rightarrow> New | Some b \<Rightarrow> b,
      case vCounters v k of None \<Rightarrow> new_counters (eContestantId e) (eSubmissionId e) | Some c \<Rightarrow> c) e = (b, c)"
    by fastforce
  have "Process v eo = v\<lparr>vBooks := (vBooks v)(k \<mapsto> b), vCounters := (vCounters v)(k \<mapsto> c)\<rparr>"
    using e(2) bc by (subst Process_def, subst runKey_tags) (simp add: e(1) e(3) [symmetric])
  then show ?thesis
    by (auto simp: fun_eq_iff run_at_key_def process_at_def e(1) bc)
qed

interpretation val: keyed_state Process run_at_key event_key process_at
proof
  fix eo k v
  show "event_key eo = Some k \<Longrightarrow> run_at_key (Process v eo) k = process_at (run_at_key v k) eo"
    by (simp add: Process_kept)
  show "event_key eo \<noteq> Some k \<Longrightarrow> run_at_key (Process v eo) k = run_at_key v k"
    by (cases "event_key eo") (auto simp: Process_kept Process_dropped)
qed

section \<open>What the counters count\<close>

text \<open>An event whose fill is compared, the reference fill it is compared with, and the book after it.\<close>

definition scored :: "OrderEvent \<Rightarrow> bool" where
  "scored e \<longleftrightarrow> (eType e = ORDER_TYPE_LIMIT \<or> eType e = ORDER_TYPE_MARKET)
     \<and> eResult e \<noteq> ORDER_RESULT_UNSPECIFIED"

definition book_after :: "Book \<Rightarrow> OrderEvent \<Rightarrow> Book" where
  "book_after b e = fst (process_run (b, new_counters '''' '''') e)"

fun wrong_fills :: "Book \<Rightarrow> OrderEvent list \<Rightarrow> nat" where
  "wrong_fills b [] = 0"
| "wrong_fills b (e # es) =
     (if scored e \<and> snd (replay_order b e) \<noteq> eFilledQuantity e then 1 else 0) + wrong_fills (book_after b e) es"

lemma wrong_fills_le: "wrong_fills b es \<le> length (filter scored es)"
  by (induction es arbitrary: b) (auto simp: le_SucI)

lemma process_run_book: "fst (process_run (b, c) e) = book_after b e"
  by (simp add: process_run_def book_after_def Let_def split: OrderType.splits prod.splits)

lemma process_run_total:
  "cTotal (snd (process_run (b, c) e)) = (if scored e then wrap64 (cTotal c + 1) else cTotal c)"
  by (simp add: process_run_def score_fill_def scored_def Let_def split: OrderType.splits prod.splits)

lemma process_run_mismatches:
  "cMismatches (snd (process_run (b, c) e)) =
     (if scored e \<and> snd (replay_order b e) \<noteq> eFilledQuantity e then wrap64 (cMismatches c + 1) else cMismatches c)"
  by (simp add: process_run_def score_fill_def scored_def Let_def split: OrderType.splits prod.splits)

lemma process_run_tally:
  "fst (foldl process_run (b, c) es) = foldl book_after b es
   \<and> cTotal (snd (foldl process_run (b, c) es)) = (if \<exists>e \<in> set es. scored e
       then wrap64 (cTotal c + int (length (filter scored es))) else cTotal c)
   \<and> cMismatches (snd (foldl process_run (b, c) es)) = (if wrong_fills b es = 0 then cMismatches c
       else wrap64 (cMismatches c + int (wrong_fills b es)))"
proof (induction es arbitrary: b c)
  case (Cons e es)
  obtain b' c' where bc: "process_run (b, c) e = (b', c')" by fastforce
  then have b': "b' = book_after b e" using process_run_book [of b c e] by simp
  have t: "cTotal c' = (if scored e then wrap64 (cTotal c + 1) else cTotal c)"
    using process_run_total [of b c e] bc by simp
  have m: "cMismatches c' = (if scored e \<and> snd (replay_order b e) \<noteq> eFilledQuantity e
      then wrap64 (cMismatches c + 1) else cMismatches c)"
    using process_run_mismatches [of b c e] bc by simp
  show ?case
    using Cons.IH [of b' c'] t m by (auto simp: bc b' algebra_simps filter_empty_conv)
qed simp

lemma process_at_run:
  assumes "map Some es' = es" "es' \<noteq> []"
  shows "foldl process_at (None, None) es =
     (case foldl process_run (New, new_counters (eContestantId (hd es')) (eSubmissionId (hd es'))) es' of
        (b, c) \<Rightarrow> (Some b, Some c))"
proof -
  have some: "foldl process_at (Some b, Some c) (map Some xs) =
     (case foldl process_run (b, c) xs of (b, c) \<Rightarrow> (Some b, Some c))" for b c xs
    by (induction xs arbitrary: b c) (auto simp: process_at_def split: prod.splits)
  from assms(2) obtain e rest where e: "es' = e # rest" by (cases es') auto
  show ?thesis
    using assms(1) some
    by (auto simp: e process_at_def split: prod.splits)
qed

text \<open>The events of one key, as a stream of their own.\<close>

definition run_events :: "string \<Rightarrow> OrderEvent option list \<Rightarrow> OrderEvent list" where
  "run_events k es = map the (filter (\<lambda>eo. event_key eo = Some k) es)"

lemma run_events_Some: "filter (\<lambda>eo. event_key eo = Some k) es = map Some (run_events k es)"
proof -
  have "map Some (map the (filter (\<lambda>eo. event_key eo = Some k) es)) = filter (\<lambda>eo. event_key eo = Some k) es"
    by (induction es) (auto simp: event_key_Some)
  then show ?thesis by (simp add: run_events_def)
qed

lemma run_at_key_stream:
  "run_at_key (foldl Process NewValidator es) k =
     (if run_events k es = [] then (None, None)
      else case foldl process_run (New, new_counters (eContestantId (hd (run_events k es)))
             (eSubmissionId (hd (run_events k es)))) (run_events k es) of (b, c) \<Rightarrow> (Some b, Some c))"
  using val.run_at [of NewValidator es k] process_at_run [OF run_events_Some [symmetric, of k es]]
  by (auto simp: run_events_Some run_at_key_def NewValidator_def)

lemma length_run_events: "length (run_events k es) \<le> length es"
  by (simp add: run_events_def)

section \<open>Properties of the validator\<close>

text \<open>C7: A submission is judged on its own events: the book and the counters kept under a key after any
  interleaving of streams are those its own events alone, in their order, would give, replayed on a
  fresh book.\<close>

theorem verdict_depends_on_own_events:
  "run_at_key (foldl Process NewValidator es) k =
     run_at_key (foldl Process NewValidator (filter (\<lambda>e. event_key e = Some k) es)) k"
  by (rule val.run_isolated) simp

lemma counters_stream:
  assumes "vCounters (foldl Process NewValidator es) k = Some c" "length es < 2 ^ 62"
  shows "cTotal c = int (length (filter scored (run_events k es)))"
    and "cMismatches c = int (wrong_fills New (run_events k es))"
proof -
  let ?rs = "run_events k es"
  let ?c0 = "new_counters (eContestantId (hd ?rs)) (eSubmissionId (hd ?rs))"
  have c: "c = snd (foldl process_run (New, ?c0) ?rs)"
    using run_at_key_stream [of es k] assms(1)
    by (auto simp: run_at_key_def split: if_splits prod.splits)
  have "int (length ?rs) < 2 ^ 62"
    using assms(2) length_run_events [of k es] by simp
  moreover have "int (length (filter scored ?rs)) \<le> int (length ?rs)" "int (wrong_fills New ?rs) \<le> int (length ?rs)"
    using wrong_fills_le [of New ?rs] length_filter_le [of scored ?rs] by linarith+
  ultimately have "int (length (filter scored ?rs)) < 2 ^ 62" "int (wrong_fills New ?rs) < 2 ^ 62" by linarith+
  then have r: "in_int64 (int (length (filter scored ?rs)))" "in_int64 (int (wrong_fills New ?rs))"
    by (simp_all add: in_int64_def min_int64_def max_int64_def)
  show "cTotal c = int (length (filter scored ?rs))"
    using r(1) by (auto simp: c process_run_tally new_counters_def filter_empty_conv)
  show "cMismatches c = int (wrong_fills New ?rs)"
    using r(2) by (auto simp: c process_run_tally new_counters_def)
qed

text \<open>C6: The counters of a run count what they say: \<open>total\<close> the limit and market events that carry a
  result, \<open>mismatches\<close> those among them whose reported fill differs from the fill of the reference
  book at that point of the run.\<close>

theorem counters_count_wrong_fills:
  assumes "vCounters (foldl Process NewValidator es) k = Some c" "length es < 2 ^ 62"
  shows "cTotal c = int (length (filter scored (run_events k es)))
       \<and> cMismatches c = int (wrong_fills New (run_events k es))
       \<and> cMismatches c \<le> cTotal c"
  using counters_stream [OF assms] wrong_fills_le [of New "run_events k es"] by simp

definition ex_sell :: OrderEvent where
  "ex_sell = emptyEvent\<lparr>eContestantId := ''c'', eSubmissionId := ''s'', eOrderId := ''1'',
     eType := ORDER_TYPE_LIMIT, eResult := ORDER_RESULT_ACK_ONLY, eSentTsNs := 1, ePrice := Fin 100,
     eQuantity := 5, eSide := ORDER_SIDE_SELL\<rparr>"

definition ex_buy :: OrderEvent where
  "ex_buy = emptyEvent\<lparr>eContestantId := ''c'', eSubmissionId := ''s'', eOrderId := ''2'',
     eType := ORDER_TYPE_LIMIT, eResult := ORDER_RESULT_PARTIAL, eSentTsNs := 2, ePrice := Fin 101,
     eQuantity := 8, eFilledQuantity := 4, eSide := ORDER_SIDE_BUY\<rparr>"

definition ex_counters :: counters where
  "ex_counters = \<lparr>cContestantID = ''c'', cSubmissionID = ''s'', cTotal = 2, cMismatches = 1, cLastTsNs = 2\<rparr>"

lemma ex_stream: "vCounters (foldl Process NewValidator [Some ex_sell, None, Some ex_buy]) ''s'' = Some ex_counters"
  by code_simp

theorem counters_count_wrong_fills_witness:
  "wrong_fills New (run_events ''s'' [Some ex_sell, None, Some ex_buy]) = 1"
  using counters_count_wrong_fills [OF ex_stream] by (simp add: ex_counters_def)

text \<open>The correctness a run is served with is a number in the unit interval, and it is one exactly
  when every fill that was checked is the fill of the reference book.\<close>

theorem correctness_one_iff_no_wrong_fill:
  assumes "vCounters (foldl Process NewValidator es) k = Some c" "length es < 2 ^ 53"
  shows "\<exists>r. rCorrectness (makeReport c) = Fin r \<and> 0 \<le> r \<and> r \<le> 1
       \<and> (r = 1 \<longleftrightarrow> wrong_fills New (run_events k es) = 0)"
proof -
  have len: "length es < 2 ^ 62" using assms(2) by simp
  note cs = counters_stream [OF assms(1) len]
  have "int (length (filter scored (run_events k es))) \<le> int (length es)"
    using length_filter_le [of scored "run_events k es"] length_run_events [of k es] by linarith
  also have "int (length es) < 2 ^ 53" using assms(2) by simp
  finally have t: "cTotal c < 2 ^ 53" by (simp add: cs)
  have m: "0 \<le> cMismatches c" "cMismatches c \<le> cTotal c"
    using wrong_fills_le [of New "run_events k es"] by (simp_all add: cs)
  show ?thesis
  proof (cases "0 < cTotal c")
    case True
    from one_minus_ratio [OF m True t] obtain r where
      "fsub (Fin 1) (fdiv (f64_of_int (cMismatches c)) (f64_of_int (cTotal c))) = Fin r"
      "0 \<le> r" "r \<le> 1" "r = 1 \<longleftrightarrow> cMismatches c = 0" .
    with True show ?thesis by (simp add: makeReport_def Let_def cs(2))
  next
    case False
    with m have "cMismatches c = 0" by simp
    with False show ?thesis by (simp add: makeReport_def Let_def cs(2))
  qed
qed

theorem correctness_one_iff_no_wrong_fill_witness:
  "\<exists>r. rCorrectness (makeReport ex_counters) = Fin r \<and> 0 \<le> r \<and> r < 1"
proof -
  have "wrong_fills New (run_events ''s'' [Some ex_sell, None, Some ex_buy]) = 1" by code_simp
  with correctness_one_iff_no_wrong_fill [OF ex_stream] show ?thesis
    by (auto simp: order_less_le)
qed

section \<open>Which run a report is about\<close>

text \<open>One turn of the loop keeps the better of the best so far and the current one.\<close>

definition newer_of :: "string \<Rightarrow> counters option \<Rightarrow> counters \<Rightarrow> counters option" where
  "newer_of cid best c = (if cContestantID c \<noteq> cid then best else case best of None \<Rightarrow> Some c
     | Some b \<Rightarrow> if cLastTsNs b < cLastTsNs c then Some c else best)"

lemma latest_loop_Cons: "latest_loop cid best (c # cs) = latest_loop cid (newer_of cid best c) cs"
  by (simp add: newer_of_def split: option.splits)

lemma latest_loop_newest:
  assumes "latest_loop cid best cs = Some c" "\<forall>b. best = Some b \<longrightarrow> cContestantID b = cid"
  shows "cContestantID c = cid \<and> (c \<in> set cs \<or> best = Some c)
       \<and> (\<forall>d \<in> set cs. cContestantID d = cid \<longrightarrow> cLastTsNs d \<le> cLastTsNs c)
       \<and> (\<forall>b. best = Some b \<longrightarrow> cLastTsNs b \<le> cLastTsNs c)"
  using assms
proof (induction cs arbitrary: best)
  case (Cons x xs)
  have step: "latest_loop cid (newer_of cid best x) xs = Some c"
    using Cons.prems(1) by (simp only: latest_loop_Cons)
  have own: "\<forall>b. newer_of cid best x = Some b \<longrightarrow> cContestantID b = cid"
    using Cons.prems(2) by (auto simp: newer_of_def split: option.splits if_splits)
  note IH = Cons.IH [OF step own]
  have "cLastTsNs x \<le> cLastTsNs c" if "cContestantID x = cid"
    using IH that by (cases best) (auto simp: newer_of_def split: if_splits)
  moreover have "cLastTsNs b \<le> cLastTsNs c" if "best = Some b" for b
    using IH that by (auto simp: newer_of_def split: if_splits)
  moreover have "c \<in> set (x # xs) \<or> best = Some c"
    using IH by (auto simp: newer_of_def split: if_splits option.splits)
  ultimately show ?case using IH by auto
qed auto

lemma latest_loop_None: "latest_loop cid best cs = None \<longleftrightarrow> best = None \<and> (\<forall>d \<in> set cs. cContestantID d \<noteq> cid)"
  by (induction cid best cs rule: latest_loop.induct) (auto split: option.splits)

text \<open>Asked for an id that is no run key, the validator answers with the report of the run of that
  contestant whose newest event is the latest, whatever order its map is visited in, and has no
  answer only when the contestant has no run.\<close>

theorem Report_resolves_to_latest_run:
  assumes "enumerates ks (vCounters v)" "vCounters v cid = None"
  shows "case Report_of ks v cid of
      Some r \<Rightarrow> (\<exists>c \<in> ran (vCounters v). r = makeReport c \<and> cContestantID c = cid
             \<and> (\<forall>d \<in> ran (vCounters v). cContestantID d = cid \<longrightarrow> cLastTsNs d \<le> cLastTsNs c))
    | None \<Rightarrow> \<forall>d \<in> ran (vCounters v). cContestantID d \<noteq> cid"
proof (cases "latestForContestant ks v cid")
  case None
  then have "Report_of ks v cid = None" by (simp add: Report_of_def assms(2))
  with None assms(1) show ?thesis
    by (simp add: latestForContestant_def latest_loop_None set_range_values)
next
  case (Some c)
  then have "latest_loop cid None (range_values ks (vCounters v)) = Some c"
    by (simp add: latestForContestant_def)
  from latest_loop_newest [OF this] assms Some show ?thesis
    by (auto simp: Report_of_def set_range_values)
qed

definition ex_validator :: Validator where
  "ex_validator = foldl Process NewValidator [Some ex_sell, Some ex_buy]"

theorem Report_resolves_to_latest_run_witness:
  "\<exists>c \<in> ran (vCounters ex_validator). Report_of [''s''] ex_validator ''c'' = Some (makeReport c)
     \<and> cContestantID c = ''c''"
proof -
  have m: "vCounters ex_validator = [''s'' \<mapsto> ex_counters]" by (rule ext) (code_simp, simp)
  have "enumerates [''s''] (vCounters ex_validator)" "vCounters ex_validator ''c'' = None"
    unfolding m by (simp_all add: enumerates_def)
  note * = Report_resolves_to_latest_run [OF this]
  have r: "Report_of [''s''] ex_validator ''c'' = Some (makeReport ex_counters)"
    unfolding Report_of_def latestForContestant_def m by (simp add: ex_counters_def)
  from * show ?thesis unfolding r m by auto
qed

section \<open>Orders the contestant did not take\<close>

text \<open>
  A placement the contestant rejected is replayed all the same: it rests in the reference book, and the
  honest empty fill of the next order counts as wrong.
\<close>

lemma rejected_order_is_replayed:
  "map_option cMismatches (vCounters (foldl Process NewValidator
     [Some (ex_sell\<lparr>eResult := ORDER_RESULT_REJECTED\<rparr>),
      Some (ex_buy\<lparr>eResult := ORDER_RESULT_ACK_ONLY, eFilledQuantity := 0\<rparr>)]) ''s'') = Some 1"
  by code_simp

text \<open>A cancel that failed is replayed too: the order leaves the reference book although it still fills.\<close>

lemma failed_cancel_is_replayed:
  "map_option cMismatches (vCounters (foldl Process NewValidator
     [Some ex_sell, Some (ex_sell\<lparr>eType := ORDER_TYPE_CANCEL, eResult := ORDER_RESULT_TIMEOUT\<rparr>),
      Some (ex_buy\<lparr>eFilledQuantity := 5\<rparr>)]) ''s'') = Some 1"
  by code_simp

end
