(* ===== verification/Conformance.thy ===== *)
theory Conformance
  imports ReferenceServer BotWorker Validator
begin

text \<open>
  A whole run: one bot worker drives the reference contestant over REST, and the validator judges the
  events it emits. The client's HTTP exchange is answered by the handlers of the reference server. The
  lemmas carry the refinement of the reference book through every arrival, so that no fill the bot
  reports differs from the one the validator computes.
\<close>

section \<open>The bot's client over the reference server\<close>

text \<open>The server with the times its order requests will arrive at, and the latency of each exchange.\<close>

type_synonym ref_link = "ref_server \<times> (int64 \<times> int64) list"

definition reply_of :: "response \<Rightarrow> http_reply" where
  "reply_of r = (case r of RStatus n \<Rightarrow> Reply n None | RError n m \<Rightarrow> Reply n None
     | RPlaced i fills \<Rightarrow> Reply 200 (Some (i, map fQty fills)) | RSnapshot _ _ \<Rightarrow> Reply 200 None)"

definition link_place :: "ref_link \<Rightarrow> rest_req \<Rightarrow> ref_link \<times> http_reply \<times> int64" where
  "link_place l pr = (case l of (sv, clock) \<Rightarrow>
     let (now, lat) = (case clock of [] \<Rightarrow> (0, 0) | t # _ \<Rightarrow> t)
     in case handlePlace (Inr \<lparr>prID = '''', prSide = rqSide pr, prKind = rqKind pr, prPrice = rqPrice pr, prQty = rqQty pr\<rparr>) now sv of
          (sv', resp) \<Rightarrow> ((sv', tl clock), reply_of resp, lat))"

definition link_cancel :: "ref_link \<Rightarrow> string \<Rightarrow> ref_link \<times> http_reply \<times> int64" where
  "link_cancel l i = (case l of (sv, clock) \<Rightarrow>
     case handleCancel i sv of (sv', resp) \<Rightarrow> ((sv', clock), reply_of resp, 0))"

definition ref_client :: "ref_link OrderClient" where
  "ref_client = \<lparr>clPlaceOrder = REST_PlaceOrder link_place, clPlaceMarketOrder = REST_PlaceMarketOrder link_place,
     clCancelOrder = REST_CancelOrder link_cancel\<rparr>"

section \<open>One request\<close>

text \<open>
  The server's part of the run: the engine refines the book the validator would hold, every id it has
  given out carries a number up to the counter, and its resting orders came in at times already past.
\<close>

definition run_inv :: "int64 set \<Rightarrow> int64 set \<Rightarrow> (int64 \<Rightarrow> int64) \<Rightarrow> ref_server \<Rightarrow> Book \<Rightarrow> bool" where
  "run_inv T past f sv b \<longleftrightarrow> refines T f (srv_ob sv) b
     \<and> (\<forall>s. \<forall>a \<in> resting (srv_ob sv) s. a < srv_next sv \<and> eoAt (ob_store (srv_ob sv) a) \<in> past)
     \<and> (\<forall>a \<in> ran (ob_orders (srv_ob sv)). a < srv_next sv)
     \<and> (\<forall>i \<in> dom (ob_orders (srv_ob sv)). \<exists>n \<le> unat (srv_orderID sv). i = ''ord-'' @ show_nat n)"

lemma refines_alloc:
  assumes "refines T f ob b" "unused ob a"
  shows "refines T f (alloc a x ob) b"
proof -
  have keep: "ob_store (alloc a x ob) c = ob_store ob c" if "c \<in> resting ob t" for c t
    using assms(2) that by (auto simp: unused_def)
  have "timed T (alloc a x ob)"
  proof -
    have "inj_on (\<lambda>c. eoAt (ob_store (alloc a x ob) c)) (resting ob s) = inj_on (\<lambda>c. eoAt (ob_store ob c)) (resting ob s)" for s
      by (rule inj_on_cong) (simp add: keep del: alloc_simps(4))
    then show ?thesis using assms(1) keep by (simp add: refines_def timed_def del: alloc_simps(4))
  qed
  moreover have "sim_side f (alloc a x ob) s (book_side b s)" for s
  proof (rule sim_side_store_cong)
    show "sim_side f ob s (book_side b s)" using assms(1) by (simp add: refines_def)
  qed (simp, rule keep)
  ultimately show ?thesis using assms alloc_inv(1) by (simp add: refines_def)
qed

lemma fresh_id:
  assumes "run_inv T past f sv b" "unat (srv_orderID sv) < 2 ^ 64 - 1"
  shows "ob_orders (srv_ob sv) (''ord-'' @ show_nat (unat (srv_orderID sv + 1))) = None"
    "unat (srv_orderID sv + 1) = unat (srv_orderID sv) + 1"
proof -
  have "srv_orderID sv + 1 \<noteq> 0"
  proof
    assume "srv_orderID sv + 1 = 0"
    then have "srv_orderID sv = - 1" by (simp add: eq_neg_iff_add_eq_0)
    then have "unat (srv_orderID sv) = 2 ^ 64 - 1" by (simp add: unsigned_minus_1_eq_mask mask_eq_exp_minus_1)
    with assms(2) show False by simp
  qed
  then show u: "unat (srv_orderID sv + 1) = unat (srv_orderID sv) + 1" by (metis unatSuc Suc_eq_plus1 add.commute)
  show "ob_orders (srv_ob sv) (''ord-'' @ show_nat (unat (srv_orderID sv + 1))) = None"
  proof (rule ccontr)
    assume "ob_orders (srv_ob sv) (''ord-'' @ show_nat (unat (srv_orderID sv + 1))) \<noteq> None"
    then have "''ord-'' @ show_nat (unat (srv_orderID sv + 1)) \<in> dom (ob_orders (srv_ob sv))" by (simp only: domIff not_False_eq_True)
    then have "\<exists>n \<le> unat (srv_orderID sv). ''ord-'' @ show_nat (unat (srv_orderID sv + 1)) = ''ord-'' @ show_nat n"
      using assms(1) unfolding run_inv_def by blast
    then show False using u by auto
  qed
qed

text \<open>The order the server makes of a bot's request, and the server that has stored it.\<close>

definition bot_order :: "string \<Rightarrow> Side \<Rightarrow> f64 \<Rightarrow> int64 \<Rightarrow> int64 \<Rightarrow> EOrder" where
  "bot_order i side p q now = \<lparr>eoID = i, eoSide = side, eoPrice = p, eoQty = q, eoRemaining = 0, eoAt = now\<rparr>"

definition next_id :: "ref_server \<Rightarrow> string" where
  "next_id sv = ''ord-'' @ show_nat (unat (srv_orderID sv + 1))"

definition stored :: "ref_server \<Rightarrow> EOrder \<Rightarrow> ref_server" where
  "stored sv x = sv\<lparr>srv_orderID := srv_orderID sv + 1, srv_ob := alloc (srv_next sv) x (srv_ob sv), srv_next := srv_next sv + 1\<rparr>"

lemma handlePlace_limit:
  assumes "parse_side sd = Some side"
  shows "handlePlace (Inr \<lparr>prID = '''', prSide = sd, prKind = ''limit'', prPrice = p, prQty = q\<rparr>) now sv =
    reply_fills (next_id sv) (stored sv (bot_order (next_id sv) side p q now))
      (ob_Place (alloc (srv_next sv) (bot_order (next_id sv) side p q now) (srv_ob sv)) (srv_next sv))"
  using assms by (simp add: handlePlace_def order_id_def new_order_def Let_def next_id_def stored_def bot_order_def)

lemma handlePlace_market:
  assumes "parse_side sd = Some side"
  shows "handlePlace (Inr \<lparr>prID = '''', prSide = sd, prKind = ''market'', prPrice = p, prQty = q\<rparr>) now sv =
    reply_fills (next_id sv) (stored sv (bot_order (next_id sv) side p q now))
      (ob_PlaceMarket (alloc (srv_next sv) (bot_order (next_id sv) side p q now) (srv_ob sv)) (srv_next sv))"
  using assms by (simp add: handlePlace_def order_id_def new_order_def Let_def next_id_def stored_def bot_order_def)

text \<open>The refinement before the order is matched, common to the two kinds.\<close>

lemma run_inv_stored:
  fixes side :: Side and p :: f64 and q :: int64
  assumes inv: "run_inv T past f sv b" and n: "unat (srv_orderID sv) < 2 ^ 64 - 1" and now: "now \<notin> past"
  defines "x \<equiv> bot_order (next_id sv) side p q now" and "a \<equiv> srv_next sv"
  defines "ob \<equiv> alloc a x (srv_ob sv)"
  shows "refines T f ob b" "\<And>t. a \<notin> resting ob t" "ob_orders ob (eoID (ob_store ob a)) = None" "ob_store ob a = x"
    "\<And>c t. c \<in> resting ob t \<Longrightarrow> eoAt (ob_store ob c) \<noteq> eoAt (ob_store ob a)"
    "\<And>t. resting ob t = resting (srv_ob sv) t" "\<And>c t. c \<in> resting ob t \<Longrightarrow> eoAt (ob_store ob c) \<in> past \<and> c < a"
proof -
  have u: "unused (srv_ob sv) a" using inv unfolding run_inv_def unused_def a_def by blast
  show "refines T f ob b" unfolding ob_def using inv u by (intro refines_alloc) (simp_all add: run_inv_def)
  show ra: "\<And>t. a \<notin> resting ob t" using u by (simp add: unused_def ob_def)
  show st: "ob_store ob a = x" by (simp add: ob_def)
  show "ob_orders ob (eoID (ob_store ob a)) = None"
    using fresh_id(1) [OF inv n] unfolding st by (simp add: ob_def x_def bot_order_def next_id_def)
  show rt: "\<And>t. resting ob t = resting (srv_ob sv) t" by (simp add: ob_def)
  show past: "\<And>c t. c \<in> resting ob t \<Longrightarrow> eoAt (ob_store ob c) \<in> past \<and> c < a"
  proof -
    fix c t assume c: "c \<in> resting ob t"
    then have "c \<noteq> a" using ra by blast
    with c inv show "eoAt (ob_store ob c) \<in> past \<and> c < a" unfolding rt by (auto simp: run_inv_def ob_def a_def)
  qed
  show "\<And>c t. c \<in> resting ob t \<Longrightarrow> eoAt (ob_store ob c) \<noteq> eoAt (ob_store ob a)"
    using past now by (auto simp: st x_def bot_order_def)
qed

lemma run_inv_after:
  assumes inv: "run_inv T past f sv b" and n: "unat (srv_orderID sv) < 2 ^ 64 - 1"
    and r: "refines T f ob' b'" "\<And>t. resting ob' t \<subseteq> insert (srv_next sv) (resting (srv_ob sv) t)"
      "\<And>c t. c \<in> resting ob' t \<Longrightarrow> eoAt (ob_store ob' c) \<in> insert now past"
    and o': "ob_orders ob' = (ob_orders (srv_ob sv))(next_id sv \<mapsto> srv_next sv) \<or> ob_orders ob' = ob_orders (srv_ob sv)"
  shows "run_inv T (insert now past) f ((stored sv x)\<lparr>srv_ob := ob'\<rparr>) b'"
proof -
  have u: "unat (srv_orderID sv + 1) = unat (srv_orderID sv) + 1" by (rule fresh_id(2) [OF inv n])
  have "a < Suc (srv_next sv)" if "a \<in> resting ob' t" for a t
    using r(2) [of t] that inv unfolding run_inv_def by (auto intro: less_SucI)
  moreover have "a < Suc (srv_next sv)" if "a \<in> ran (ob_orders ob')" for a
  proof -
    have "a = srv_next sv \<or> a \<in> ran (ob_orders (srv_ob sv))" using o' that by (auto simp: ran_def split: if_splits)
    then show ?thesis using inv unfolding run_inv_def by (auto intro: less_SucI)
  qed
  moreover have "\<exists>m \<le> unat (srv_orderID sv + 1). i = ''ord-'' @ show_nat m" if "i \<in> dom (ob_orders ob')" for i
  proof (cases "i = next_id sv")
    case False
    then have "i \<in> dom (ob_orders (srv_ob sv))" using o' that by auto
    then obtain m where "m \<le> unat (srv_orderID sv)" "i = ''ord-'' @ show_nat m" using inv unfolding run_inv_def by blast
    then show ?thesis using u by (intro exI [of _ m]) simp
  qed (auto simp: next_id_def)
  ultimately show ?thesis using r(1,3) by (simp add: run_inv_def stored_def)
qed

lemma limit_request:
  assumes inv: "run_inv T past f sv b" and clk: "clock_ok T f" and n: "unat (srv_orderID sv) < 2 ^ 64 - 1"
    and now: "now \<in> T" "now \<notin> past" and p: "p \<noteq> NaN" and sd: "parse_side sd = Some side"
    and bk: "Place b \<lparr>oID = next_id sv, oSide = side, oPrice = p, oQty = q, oTsNs = f now\<rparr> = (b', filled)"
    and hp: "handlePlace (Inr \<lparr>prID = '''', prSide = sd, prKind = ''limit'', prPrice = p, prQty = q\<rparr>) now sv = (sv', resp)"
  shows "\<exists>fills. resp = RPlaced (next_id sv) fills \<and> sum_list (map fQty fills) = filled"
    "run_inv T (insert now past) f sv' b'" "unat (srv_orderID sv') = unat (srv_orderID sv) + 1"
proof -
  define x where "x = bot_order (next_id sv) side p q now"
  define a where "a = srv_next sv"
  define ob where "ob = alloc a x (srv_ob sv)"
  note S = run_inv_stored [OF inv n now(2), where side = side and p = p and q = q, folded a_def x_def, folded ob_def]
  obtain ob' res where eng: "ob_Place ob a = (ob', res)" by fastforce
  have flds: "eoID x = next_id sv" "eoSide x = side" "eoPrice x = p" "eoQty x = q" "eoRemaining x = 0" "eoAt x = now"
    by (simp_all add: x_def bot_order_def)
  have bk': "Place b ((view f (ob_store ob a))\<lparr>oQty := eoQty (ob_store ob a)\<rparr>) = (b', filled)"
    using bk by (simp add: S(4) view_def flds)
  have pr: "eoPrice (ob_store ob a) \<noteq> NaN" "eoAt (ob_store ob a) \<in> T" "eoRemaining (ob_store ob a) = 0"
    using p now by (simp_all add: S(4) flds)
  have later: "\<And>c. c \<in> resting ob (eoSide (ob_store ob a)) \<Longrightarrow> eoAt (ob_store ob c) \<noteq> eoAt (ob_store ob a)"
    by (rule S(5))
  note P = Place_refines [OF S(1) clk S(2,3) pr(1,2) later pr(3) eng bk']
  have hp': "(sv', resp) = reply_fills (next_id sv) (stored sv x) (ob', res)"
    using hp handlePlace_limit [OF sd] eng by (simp add: x_def a_def ob_def)
  obtain fills where res: "res = Inr fills" "sum_list (map fQty fills) = filled" using P(2) by blast
  then show "\<exists>fills. resp = RPlaced (next_id sv) fills \<and> sum_list (map fQty fills) = filled"
    using hp' by (simp add: reply_fills_def)
  have sv': "sv' = (stored sv x)\<lparr>srv_ob := ob'\<rparr>" using hp' by (simp add: reply_fills_def)
  have "eoAt (ob_store ob' c) \<in> insert now past" if "c \<in> resting ob' t" for c t
    using P(4) [of t] that S(7) [of c t] P(5) [of c] by (auto simp: S(4) flds)
  moreover have "ob_orders ob = ob_orders (srv_ob sv)" by (simp add: ob_def)
  ultimately show "run_inv T (insert now past) f sv' b'"
    unfolding sv' using P(1,3,4) S(4,6)
    by (intro run_inv_after [OF inv n]) (simp_all add: a_def flds)
  show "unat (srv_orderID sv') = unat (srv_orderID sv) + 1" using fresh_id(2) [OF inv n] by (simp add: sv' stored_def)
qed

lemma market_request:
  assumes inv: "run_inv T past f sv b" and clk: "clock_ok T f" and n: "unat (srv_orderID sv) < 2 ^ 64 - 1"
    and now: "now \<notin> past" and sd: "parse_side sd = Some side"
    and bk: "PlaceMarket b side q = (b', filled)"
    and hp: "handlePlace (Inr \<lparr>prID = '''', prSide = sd, prKind = ''market'', prPrice = p, prQty = q\<rparr>) now sv = (sv', resp)"
  shows "\<exists>fills. resp = RPlaced (next_id sv) fills \<and> sum_list (map fQty fills) = filled"
    "run_inv T (insert now past) f sv' b'" "unat (srv_orderID sv') = unat (srv_orderID sv) + 1"
proof -
  define x where "x = bot_order (next_id sv) side p q now"
  define a where "a = srv_next sv"
  define ob where "ob = alloc a x (srv_ob sv)"
  note S = run_inv_stored [OF inv n now, where side = side and p = p and q = q, folded a_def x_def, folded ob_def]
  obtain ob' res where eng: "ob_PlaceMarket ob a = (ob', res)" by fastforce
  have flds: "eoSide x = side" "eoQty x = q" "eoRemaining x = 0" by (simp_all add: x_def bot_order_def)
  have bk': "PlaceMarket b (eoSide (ob_store ob a)) (eoQty (ob_store ob a)) = (b', filled)"
    using bk by (simp add: S(4) flds)
  have q0: "eoRemaining (ob_store ob a) = 0" by (simp add: S(4) flds)
  note P = PlaceMarket_refines [OF S(1) clk S(2,3) q0 eng bk']
  have hp': "(sv', resp) = reply_fills (next_id sv) (stored sv x) (ob', res)"
    using hp handlePlace_market [OF sd] eng by (simp add: x_def a_def ob_def)
  obtain fills where res: "res = Inr fills" "sum_list (map fQty fills) = filled" using P(2) by blast
  then show "\<exists>fills. resp = RPlaced (next_id sv) fills \<and> sum_list (map fQty fills) = filled"
    using hp' by (simp add: reply_fills_def)
  have sv': "sv' = (stored sv x)\<lparr>srv_ob := ob'\<rparr>" using hp' by (simp add: reply_fills_def)
  have "eoAt (ob_store ob' c) \<in> insert now past" if "c \<in> resting ob' t" for c t
    using P(4) [of t] that S(7) [of c t] P(5) [of c] by auto
  moreover have "ob_orders ob = ob_orders (srv_ob sv)" by (simp add: ob_def)
  moreover have "resting ob' t \<subseteq> insert (srv_next sv) (resting (srv_ob sv) t)" for t using P(4) [of t] S(6) by auto
  ultimately show "run_inv T (insert now past) f sv' b'"
    unfolding sv' using P(1,3) by (intro run_inv_after [OF inv n]) simp_all
  show "unat (srv_orderID sv') = unat (srv_orderID sv) + 1" using fresh_id(2) [OF inv n] by (simp add: sv' stored_def)
qed

lemma cancel_request:
  assumes inv: "run_inv T past f sv b" and hc: "handleCancel i sv = (sv', resp)"
  shows "run_inv T past f sv' (fst (Cancel b i))" "srv_orderID sv' = srv_orderID sv"
    "ob_orders (srv_ob sv) i \<noteq> None \<Longrightarrow> resp = RStatus 204"
    "ob_orders (srv_ob sv') = (ob_orders (srv_ob sv))(i := None)"
proof -
  obtain ob' err where eng: "ob_Cancel (srv_ob sv) i = (ob', err)" by fastforce
  obtain b' found where bk: "Cancel b i = (b', found)" by fastforce
  have ref: "refines T f (srv_ob sv) b" using inv by (simp add: run_inv_def)
  note C = Cancel_refines [OF ref eng bk]
  have sv': "sv' = sv\<lparr>srv_ob := ob'\<rparr>" using hc eng by (simp add: handleCancel_def)
  have "a < srv_next sv \<and> eoAt (ob_store ob' a) \<in> past" if "a \<in> resting ob' t" for a t
    using C(3) [of t] C(4) [of a] that inv unfolding run_inv_def by auto
  moreover have "a < srv_next sv" if "a \<in> ran (ob_orders ob')" for a
    using that inv unfolding run_inv_def C(2) by (auto simp: ran_def split: if_splits)
  moreover have "\<exists>n \<le> unat (srv_orderID sv). j = ''ord-'' @ show_nat n" if "j \<in> dom (ob_orders ob')" for j
    using that inv unfolding run_inv_def C(2) by (auto split: if_splits)
  ultimately show "run_inv T past f sv' (fst (Cancel b i))" using C(1) by (simp add: run_inv_def sv' bk)
  show "srv_orderID sv' = srv_orderID sv" "ob_orders (srv_ob sv') = (ob_orders (srv_ob sv))(i := None)"
    by (simp_all add: sv' C(2))
  show "resp = RStatus 204" if "ob_orders (srv_ob sv) i \<noteq> None"
    using hc eng that by (auto simp: handleCancel_def ob_Cancel_def Let_def)
qed

section \<open>One arrival\<close>

lemma sum_fills_sum: "sum_fills qs = wrap64 (sum_list qs)"
proof -
  have "foldl (\<lambda>a q. wrap64 (a + q)) (wrap64 a) qs = wrap64 (a + sum_list qs)" for a
    by (induction qs arbitrary: a) (simp_all add: add.assoc)
  from this [of 0] show ?thesis by (simp add: sum_fills_def in_int64_def min_int64_def max_int64_def)
qed

lemma wrong_fills_append: "wrong_fills b (xs @ ys) = wrong_fills b xs + wrong_fills (foldl book_after b xs) ys"
  by (induction xs arbitrary: b) auto

lemma book_after_simps:
  "eType e = ORDER_TYPE_CANCEL \<Longrightarrow> book_after b e = fst (Cancel b (eOrderId e))"
  "eType e = ORDER_TYPE_LIMIT \<or> eType e = ORDER_TYPE_MARKET \<Longrightarrow> book_after b e = fst (replay_order b e)"
  by (auto simp: book_after_def process_run_def Let_def split: prod.splits)

text \<open>The run so far: the validator's book after the emitted events is refined by the engine, and no fill was wrong.\<close>

definition so_far :: "int64 set \<Rightarrow> int64 set \<Rightarrow> (int64 \<Rightarrow> int64) \<Rightarrow> ref_link worker \<Rightarrow> bool" where
  "so_far T past f w \<longleftrightarrow> run_inv T past f (fst (wkClient w)) (foldl book_after New (wkEmitted w))
     \<and> wrong_fills New (wkEmitted w) = 0 \<and> \<not> wkStopped w"

lemma cancel_turn_so_far:
  assumes sf: "so_far T past f w" and ndone: "\<not> arDoneAtCancel a"
  shows "so_far T past f (cancel_turn ref_client i cfg a w)"
    "snd (wkClient (cancel_turn ref_client i cfg a w)) = snd (wkClient w)"
    "srv_orderID (fst (wkClient (cancel_turn ref_client i cfg a w))) = srv_orderID (fst (wkClient w))"
proof -
  have *: "so_far T past f (cancel_turn ref_client i cfg a w) \<and> snd (wkClient (cancel_turn ref_client i cfg a w)) = snd (wkClient w)
      \<and> srv_orderID (fst (wkClient (cancel_turn ref_client i cfg a w))) = srv_orderID (fst (wkClient w))"
  proof (cases "wkLive w")
    case (Cons pick rest)
    obtain sv clock where c: "wkClient w = (sv, clock)" by fastforce
    obtain sv' resp where hc: "handleCancel pick sv = (sv', resp)" by fastforce
    let ?b = "foldl book_after New (wkEmitted w)"
    have inv: "run_inv T past f sv ?b" using sf c by (simp add: so_far_def)
    note C = cancel_request [OF inv hc]
    have err: "isCanceled e = False" if "REST_cancel_result (reply_of resp) = Some e" for e
      using that by (auto simp: REST_cancel_result_def reply_of_def plain_error_def split: response.splits if_splits)
    show ?thesis
      using sf C(1,2) Cons ndone err
      by (auto simp: cancel_turn_def ref_client_def REST_CancelOrder_def link_cancel_def c hc so_far_def emit_def
          wrong_fills_append scored_def book_after_simps isShutdownErr_def Let_def split: option.splits)
  qed (use sf in \<open>simp add: cancel_turn_def\<close>)
  then show "so_far T past f (cancel_turn ref_client i cfg a w)"
    "snd (wkClient (cancel_turn ref_client i cfg a w)) = snd (wkClient w)"
    "srv_orderID (fst (wkClient (cancel_turn ref_client i cfg a w))) = srv_orderID (fst (wkClient w))" by blast+
qed

lemma Place_filled_range: "book_inv b \<Longrightarrow> oPrice o' \<noteq> NaN \<Longrightarrow> in_int64 (oQty o') \<Longrightarrow> in_int64 (snd (Place b o'))"
  by (simp add: Place_spec Let_def fill_of_def in_int64_def min_int64_def max_int64_def min_def max_def)

lemma PlaceMarket_filled_range: "book_inv b \<Longrightarrow> in_int64 q \<Longrightarrow> in_int64 (snd (PlaceMarket b s q))"
  by (cases s) (simp_all add: PlaceMarket_spec Let_def in_int64_def min_int64_def max_int64_def min_def max_def)

text \<open>What the bot's order must be for the exchange to take place: finite price, quantity in range.\<close>

definition sendable :: "GOrder \<Rightarrow> bool" where
  "sendable o' \<longleftrightarrow> finite_f64 (goPrice o') \<and> in_int64 (goQty o')"

lemma gen_side: "goSide (gen_Next cfg d) = ''buy'' \<and> parse_side (goSide (gen_Next cfg d)) = Some Buy
    \<and> sideEnum (goSide (gen_Next cfg d)) = ORDER_SIDE_BUY
  \<or> goSide (gen_Next cfg d) = ''sell'' \<and> parse_side (goSide (gen_Next cfg d)) = Some Sell
    \<and> sideEnum (goSide (gen_Next cfg d)) = ORDER_SIDE_SELL"
proof -
  have "sideEnum ''buy'' = ORDER_SIDE_BUY" "sideEnum ''sell'' = ORDER_SIDE_SELL" by code_simp+
  then show ?thesis by (auto simp: gen_Next_def Let_def parse_side_def)
qed

lemma place_turn_so_far:
  assumes sf: "so_far T past f w" and clk: "clock_ok T f" and c: "wkClient w = (sv, (now, lat) # clock)"
    and n: "unat (srv_orderID sv) < 2 ^ 64 - 1" and now: "now \<in> T" "now \<notin> past" "arPlaceStart a = f now"
    and ord: "sendable (gen_Next cfg (arDraws a))"
  shows "so_far T (insert now past) f (place_turn ref_client i cfg a w)"
    "snd (wkClient (place_turn ref_client i cfg a w)) = clock"
    "unat (srv_orderID (fst (wkClient (place_turn ref_client i cfg a w)))) = unat (srv_orderID sv) + 1"
proof -
  define g where "g = gen_Next cfg (arDraws a)"
  define b where "b = foldl book_after New (wkEmitted w)"
  have inv: "run_inv T past f sv b" using sf c by (simp add: so_far_def b_def)
  have bi: "book_inv b" using inv by (simp add: run_inv_def refines_def)
  obtain p where p: "goPrice g = Fin p" and q: "in_int64 (goQty g)"
    using ord by (cases "goPrice g") (auto simp: sendable_def g_def)
  obtain side where sd: "parse_side (goSide g) = Some side"
    and es: "side = (if sideEnum (goSide g) = ORDER_SIDE_SELL then Sell else Buy)"
    using gen_side [of cfg "arDraws a"] by (auto simp: g_def)
  define kind where "kind = (if goKind g = Market then ''market'' else ''limit'')"
  define price where "price = (if goKind g = Market then Fin 0 else goPrice g)"
  obtain sv' resp where hp: "handlePlace (Inr \<lparr>prID = '''', prSide = goSide g, prKind = kind, prPrice = price, prQty = goQty g\<rparr>) now sv = (sv', resp)"
    by fastforce
  define r where "r = (if goKind g = Market then PlaceMarket b side (goQty g)
      else Place b \<lparr>oID = next_id sv, oSide = side, oPrice = goPrice g, oQty = goQty g, oTsNs = f now\<rparr>)"
  obtain b' filled where r': "r = (b', filled)" by fastforce
  have step: "\<exists>fills. resp = RPlaced (next_id sv) fills \<and> sum_list (map fQty fills) = filled"
    "run_inv T (insert now past) f sv' b'" "unat (srv_orderID sv') = unat (srv_orderID sv) + 1"
    using limit_request [OF inv clk n now(1,2) _ sd, of "goPrice g" "goQty g" b' filled sv' resp]
      market_request [OF inv clk n now(2) sd, of "goQty g" b' filled "Fin 0" sv' resp] hp r' p
    by (auto simp: r_def kind_def price_def split: if_splits)
  then obtain fills where fills: "resp = RPlaced (next_id sv) fills" "sum_list (map fQty fills) = filled" by blast
  have fr: "in_int64 filled"
    using Place_filled_range [OF bi, of "\<lparr>oID = next_id sv, oSide = side, oPrice = goPrice g, oQty = goQty g, oTsNs = f now\<rparr>"]
      PlaceMarket_filled_range [OF bi q, of side] r' q p by (auto simp: r_def split: if_splits)
  define res where "res = \<lparr>plID = next_id sv, plFilled = filled, plFillKnown = True, plLatencyNs = lat\<rparr>"
  define e where "e = (tagged i)\<lparr>eType := (if goKind g = Market then ORDER_TYPE_MARKET else ORDER_TYPE_LIMIT), eSide := sideEnum (goSide g),
      eSentTsNs := f now, ePrice := goPrice g, eQuantity := goQty g, eOrderId := next_id sv, eResult := fst (classify_fill res (goQty g)),
      eAckTsNs := wrap64 (f now + lat), eLatencyNs := lat, eFilledQuantity := filled\<rparr>"
  have place: "place_turn ref_client i cfg a w = emit e (w\<lparr>wkClient := (sv', clock), wkRec := RecordLatency lat (wkRec w),
      wkLive := (if goKind g \<noteq> Market then wkLive w @ [next_id sv] else wkLive w)\<rparr>)"
    using hp fills fr c now(3) p
    by (auto simp: place_turn_def g_def [symmetric] ref_client_def REST_PlaceOrder_def REST_PlaceMarketOrder_def REST_place_def
        link_place_def kind_def price_def reply_of_def rest_result_def sum_fills_sum comp_def Let_def e_def res_def classify_fill_def
        split: if_splits)
  have "replay_order b e = (b', filled)"
    using r' es by (auto simp: replay_order_def e_def r_def event_order_def event_side_def split: if_splits)
  moreover have "eType e = ORDER_TYPE_LIMIT \<or> eType e = ORDER_TYPE_MARKET" "eFilledQuantity e = filled"
    by (simp_all add: e_def)
  ultimately have "book_after b e = b'" "wrong_fills b [e] = 0" by (auto simp: book_after_simps)
  then show "so_far T (insert now past) f (place_turn ref_client i cfg a w)"
    using sf step(2) by (simp add: place emit_def so_far_def wrong_fills_append b_def [symmetric])
  show "snd (wkClient (place_turn ref_client i cfg a w)) = clock"
    "unat (srv_orderID (fst (wkClient (place_turn ref_client i cfg a w)))) = unat (srv_orderID sv) + 1"
    using step(3) by (simp_all add: place emit_def)
qed

section \<open>The whole run\<close>

definition undisturbed :: "GConfig \<Rightarrow> arrival \<Rightarrow> bool" where
  "undisturbed cfg a \<longleftrightarrow> \<not> arDoneAtCancel a \<and> \<not> arDoneAtPlace a \<and> sendable (gen_Next cfg (arDraws a))"

lemma worker_tick_so_far:
  assumes sf: "so_far T past f w" and clk: "clock_ok T f" and c: "snd (wkClient w) = (now, lat) # clock"
    and n: "unat (srv_orderID (fst (wkClient w))) < 2 ^ 64 - 1" and now: "now \<in> T" "now \<notin> past" "arPlaceStart a = f now"
    and u: "undisturbed cfg a"
  shows "so_far T (insert now past) f (worker_tick ref_client i cfg w a)"
    "snd (wkClient (worker_tick ref_client i cfg w a)) = clock"
    "unat (srv_orderID (fst (wkClient (worker_tick ref_client i cfg w a)))) = unat (srv_orderID (fst (wkClient w))) + 1"
proof -
  define w1 where "w1 = cancel_turn ref_client i cfg a w"
  have "\<not> arDoneAtCancel a" using u by (simp add: undisturbed_def)
  note C = cancel_turn_so_far [OF sf this, of i cfg, folded w1_def]
  have c1: "wkClient w1 = (fst (wkClient w1), (now, lat) # clock)" using C(2) c by (metis prod.collapse)
  have t: "worker_tick ref_client i cfg w a = place_turn ref_client i cfg a w1"
    using sf C(1) by (simp add: worker_tick_def w1_def so_far_def Let_def)
  note P = place_turn_so_far [OF C(1) clk c1 _ now]
  show "so_far T (insert now past) f (worker_tick ref_client i cfg w a)"
    "snd (wkClient (worker_tick ref_client i cfg w a)) = clock"
    "unat (srv_orderID (fst (wkClient (worker_tick ref_client i cfg w a)))) = unat (srv_orderID (fst (wkClient w))) + 1"
    using P u n C(3) by (simp_all add: t undisturbed_def)
qed

lemma run_so_far:
  assumes "so_far T past f w" "clock_ok T f" "snd (wkClient w) = clock" "length clock = length as"
    and "\<And>k. k < length as \<Longrightarrow> fst (clock ! k) \<in> T \<and> arPlaceStart (as ! k) = f (fst (clock ! k))"
    and "distinct (map fst clock)" "fst ` set clock \<inter> past = {}" "list_all (undisturbed cfg) as"
    and "unat (srv_orderID (fst (wkClient w))) + length as < 2 ^ 64"
  shows "so_far T (past \<union> fst ` set clock) f (foldl (worker_tick ref_client i cfg) w as)"
  using assms
proof (induction as arbitrary: w past clock)
  case (Cons a as)
  obtain now lat clock' where clk: "clock = (now, lat) # clock'" using Cons.prems(4) by (cases clock) auto
  let ?w = "worker_tick ref_client i cfg w a"
  have c: "snd (wkClient w) = (now, lat) # clock'" using Cons.prems(3) clk by simp
  have n: "unat (srv_orderID (fst (wkClient w))) < 2 ^ 64 - 1" using Cons.prems(9) by simp
  have now: "now \<in> T" "now \<notin> past" "arPlaceStart a = f now"
    using Cons.prems(5) [of 0] Cons.prems(7) clk by auto
  have "undisturbed cfg a" using Cons.prems(8) by simp
  note S = worker_tick_so_far [OF Cons.prems(1,2) c n now this, of i]
  have rest: "fst (clock' ! k) \<in> T \<and> arPlaceStart (as ! k) = f (fst (clock' ! k))" if "k < length as" for k
    using Cons.prems(5) [of "Suc k"] that clk by simp
  have "so_far T (insert now past \<union> fst ` set clock') f (foldl (worker_tick ref_client i cfg) ?w as)"
    by (rule Cons.IH [OF S(1) Cons.prems(2) S(2) _ rest]) (use Cons.prems(4,6-9) clk S(3) in auto)
  then show ?case by (simp add: clk)
qed simp

lemma start_so_far:
  "so_far T {} f \<lparr>wkClient = (start_server, clock), wkLive = [], wkRec = NewRecorder, wkEmitted = [], wkStopped = False\<rparr>"
proof -
  have e: "resting (srv_ob start_server) s = {}" "side_heap (srv_ob start_server) s = ([], \<lambda>_. 0)" "book_side New s = []" for s
    by (cases s; simp add: resting_def start_server_def NewOrderBook_def New_def)+
  have "struct_inv (srv_ob start_server)" using server_inv_start by (simp add: server_inv_def engine_inv_def)
  then have "refines T f (srv_ob start_server) New"
    by (simp add: refines_def timed_def sim_side_def e priority_order.in_order_Nil [OF behind_of_order])
  then show ?thesis by (simp add: so_far_def run_inv_def e) (simp add: start_server_def NewOrderBook_def)
qed

text \<open>Every event of a worker carries its identity.\<close>

definition own_event :: "identity \<Rightarrow> OrderEvent \<Rightarrow> bool" where
  "own_event i e \<longleftrightarrow> eContestantId e = idContestant i \<and> eSubmissionId e = idSubmission i"

lemma own_tagged: "own_event i (tagged i)"
  by (simp add: own_event_def tagged_def)

lemma cancel_turn_emits:
  "\<exists>es. wkEmitted (cancel_turn cl i cfg a w) = wkEmitted w @ es \<and> list_all (own_event i) es"
  by (auto simp: cancel_turn_def emit_def own_event_def tagged_def Let_def split: list.splits prod.splits option.splits)

lemma place_turn_emits:
  "\<exists>es. wkEmitted (place_turn cl i cfg a w) = wkEmitted w @ es \<and> list_all (own_event i) es
     \<and> (es = [] \<longrightarrow> wkStopped (place_turn cl i cfg a w))"
  by (auto simp: place_turn_def emit_def own_event_def tagged_def Let_def split: prod.splits option.splits)

lemma worker_tick_emits:
  "\<exists>es. wkEmitted (worker_tick cl i cfg w a) = wkEmitted w @ es \<and> list_all (own_event i) es
     \<and> (es = [] \<longrightarrow> wkStopped (worker_tick cl i cfg w a))"
proof -
  obtain es1 where 1: "wkEmitted (cancel_turn cl i cfg a w) = wkEmitted w @ es1" "list_all (own_event i) es1"
    using cancel_turn_emits [of cl i cfg a w] by blast
  obtain es2 where 2: "wkEmitted (place_turn cl i cfg a (cancel_turn cl i cfg a w)) = wkEmitted (cancel_turn cl i cfg a w) @ es2"
      "list_all (own_event i) es2" "es2 = [] \<longrightarrow> wkStopped (place_turn cl i cfg a (cancel_turn cl i cfg a w))"
    using place_turn_emits [of cl i cfg a "cancel_turn cl i cfg a w"] by blast
  show ?thesis
    using 1 2 by (cases "wkStopped w"; cases "wkStopped (cancel_turn cl i cfg a w)")
      (auto simp: worker_tick_def Let_def)
qed

lemma run_emits_own:
  "list_all (own_event i) (wkEmitted w) \<Longrightarrow> list_all (own_event i) (wkEmitted (foldl (worker_tick cl i cfg) w as))"
proof (induction as arbitrary: w)
  case (Cons a as)
  obtain es where "wkEmitted (worker_tick cl i cfg w a) = wkEmitted w @ es" "list_all (own_event i) es"
    using worker_tick_emits [of cl i cfg w a] by blast
  with Cons show ?case by simp
qed simp

lemma run_events_own:
  assumes "list_all (own_event i) es" "idContestant i \<noteq> ''''"
  shows "run_events (if idSubmission i \<noteq> '''' then idSubmission i else idContestant i) (map Some es) = es"
  using assms by (induction es) (auto simp: run_events_def event_key_def runKey_def own_event_def Let_def)

lemma clock_of_run:
  assumes len: "length clock = length as" and now: "sorted_wrt (<) (map fst clock)" and sent: "sorted_wrt (<) (map arPlaceStart as)"
  shows "\<exists>f. clock_ok (fst ` set clock) f \<and> (\<forall>k < length as. arPlaceStart (as ! k) = f (fst (clock ! k)))"
proof -
  let ?m = "map_of (zip (map fst clock) (map arPlaceStart as))"
  have d: "distinct (map fst clock)" using now by (simp add: strict_sorted_iff)
  have at: "?m (fst (clock ! k)) = Some (arPlaceStart (as ! k))" if "k < length as" for k
    using that len d map_of_zip_nth [of "map fst clock" "map arPlaceStart as" k] by simp
  have "the (?m (fst (clock ! j))) < the (?m (fst (clock ! k)))"
    if "fst (clock ! j) < fst (clock ! k)" "j < length as" "k < length as" for j k
  proof -
    have "j < k"
    proof (rule ccontr)
      assume "\<not> j < k"
      then have "fst (clock ! k) \<le> fst (clock ! j)"
        using now that len by (cases "j = k") (auto simp: sorted_wrt_iff_nth_less less_imp_le)
      with that show False by simp
    qed
    then show ?thesis using sent that at by (simp add: sorted_wrt_iff_nth_less)
  qed
  then have "clock_ok (fst ` set clock) (\<lambda>t. the (?m t))"
    using len by (auto simp: clock_ok_def in_set_conv_nth) (metis fst_conv)
  then show ?thesis using at by (intro exI [of _ "\<lambda>t. the (?m t)"]) simp
qed

lemma zero_ratio:
  assumes "0 < t"
  shows "fdiv (Fin 0) (f64_of_int t) = Fin 0"
proof -
  have "Fin 1 \<le> f64_of_int t" using f64_of_int_mono [of 1 t] assms f64_of_int_exact [of 1] by simp
  then show ?thesis by (cases "f64_of_int t") auto
qed

text \<open>A run without a wrong fill is given correctness one, whatever other runs are replayed beside it.\<close>

lemma clean_run_scores_one:
  assumes "run_events key evs = es" "es \<noteq> []" "wrong_fills New es = 0"
  shows "\<exists>c. vCounters (foldl Process NewValidator evs) key = Some c \<and> rCorrectness (makeReport c) = Fin 1"
proof -
  obtain b c where bc: "foldl process_run (New, new_counters (eContestantId (hd es)) (eSubmissionId (hd es))) es = (b, c)" by fastforce
  have "run_at_key (foldl Process NewValidator evs) key = (Some b, Some c)"
    using run_at_key_stream [of evs key] assms(2) bc by (simp add: assms(1))
  moreover have "cMismatches c = 0"
    using process_run_tally [of New "new_counters (eContestantId (hd es)) (eSubmissionId (hd es))" es] assms(3)
    unfolding bc by (simp add: new_counters_def)
  then have "rCorrectness (makeReport c) = Fin 1"
    by (auto simp: makeReport_def Let_def fsub_def zero_ratio f64_of_int_exact [of 0])
  ultimately show ?thesis by (auto simp: run_at_key_def)
qed

text \<open>What a bot reports of the reference order book.\<close>

lemma reference_run:
  assumes "as \<noteq> []" "length clock = length as" "length as < 2 ^ 50"
    and "sorted_wrt (<) (map fst clock)" "sorted_wrt (<) (map arPlaceStart as)" "list_all (undisturbed cfg) as"
    and es: "es = wkEmitted (runWorker ref_client i cfg (start_server, clock) as)"
  shows "wrong_fills New es = 0" "es \<noteq> []" "list_all (own_event i) es"
proof -
  obtain f where f: "clock_ok (fst ` set clock) f" "\<forall>k < length as. arPlaceStart (as ! k) = f (fst (clock ! k))"
    using clock_of_run [OF assms(2,4,5)] by blast
  let ?start = "\<lparr>wkClient = (start_server, clock), wkLive = [], wkRec = NewRecorder, wkEmitted = [], wkStopped = False\<rparr>"
  let ?w = "foldl (worker_tick ref_client i cfg) ?start as"
  have es': "es = wkEmitted ?w" by (simp add: es runWorker_def)
  obtain a as' where as: "as = as' @ [a]" using assms(1) by (metis rev_exhaust)
  define w1 where "w1 = foldl (worker_tick ref_client i cfg) ?start as'"
  have last: "?w = worker_tick ref_client i cfg w1 a" by (simp add: as w1_def)
  have last_emits: "\<not> wkStopped ?w \<Longrightarrow> wkEmitted ?w \<noteq> []"
    using worker_tick_emits [of ref_client i cfg w1 a] unfolding last by auto
  have "so_far (fst ` set clock) ({} \<union> fst ` set clock) f ?w"
    by (rule run_so_far [OF start_so_far f(1)])
      (use assms(2,3,4,6) f(2) in \<open>auto simp: strict_sorted_iff start_server_def\<close>)
  then show "wrong_fills New es = 0" and stop: "es \<noteq> []"
    using last_emits by (simp_all add: so_far_def es')
  show "list_all (own_event i) es" unfolding es' by (rule run_emits_own) simp
qed

text \<open>C1: The platform judges the reference contestant correctly: when one bot drives the reference order
  book over REST, and orders arrive in the order they were sent, each at its own time, the validator's
  replay of the bot's events finds no wrong fill, and the correctness of the run is exactly one.\<close>

theorem reference_contestant_scores_one:
  assumes "idContestant i \<noteq> ''''" "as \<noteq> []" "length clock = length as" "length as < 2 ^ 50"
    and "sorted_wrt (<) (map fst clock)" "sorted_wrt (<) (map arPlaceStart as)" "list_all (undisturbed cfg) as"
    and key: "key = (if idSubmission i \<noteq> '''' then idSubmission i else idContestant i)"
    and es: "es = wkEmitted (runWorker ref_client i cfg (start_server, clock) as)"
  shows "wrong_fills New es = 0 \<and> (\<exists>c. vCounters (foldl Process NewValidator (map Some es)) key = Some c
     \<and> rCorrectness (makeReport c) = Fin 1)"
proof -
  note run = reference_run [OF assms(2-7) es]
  have "run_events key (map Some es) = es" unfolding key by (rule run_events_own [OF run(3) assms(1)])
  from clean_run_scores_one [OF this run(2,1)] run(1) show ?thesis by blast
qed

definition ex_cfg :: GConfig where
  "ex_cfg = \<lparr>gcMidPrice = Fin 100, gcPriceSigma = Fin 1, gcMinQty = 1, gcMaxQty = 10, gcCancelRatio = Fin 0, gcMarketRatio = Fin (1 / 2)\<rparr>"

definition ex_arrival :: "int64 \<Rightarrow> f64 \<Rightarrow> int64 \<Rightarrow> int64 \<Rightarrow> arrival" where
  "ex_arrival side m q t = \<lparr>arCancelDraw = Fin 1, arDraws = \<lparr>drSide = side, drQty = q, drMarket = m, drNorm = Fin 0\<rparr>,
     arCancelStart = t, arPlaceStart = t, arDoneAtCancel = False, arDoneAtPlace = False\<rparr>"

lemma ex_limit_price: "limit_price ex_cfg (Fin 0) = Fin 100"
proof -
  have i: "f64_of_rat 100 = Fin 100" "f64_of_rat 10000 = Fin 10000"
    using f64_of_int_exact [of 100] f64_of_int_exact [of 10000] by (simp_all add: f64_of_int_def)
  have r: "math_Round (Fin 10000) = Fin 10000" by (simp add: floor_eq_iff)
  have "\<not> flt (Fin 100) (f64_of_rat (1 / 100))" by (simp add: one_cent)
  then show ?thesis by (simp add: limit_price_def ex_cfg_def i r del: math_Round.simps)
qed

theorem reference_contestant_scores_one_witness:
  "\<exists>c. vCounters (foldl Process NewValidator (map Some (wkEmitted (runWorker ref_client
       \<lparr>idContestant = ''alice'', idSubmission = ''sub1'', idBot = ''b''\<rparr> ex_cfg (start_server, [(10, 1), (20, 1)])
       [ex_arrival 1 (Fin 1) 4 3, ex_arrival 0 (Fin 0) 6 9])))) ''sub1'' = Some c
     \<and> rCorrectness (makeReport c) = Fin 1"
proof -
  let ?i = "\<lparr>idContestant = ''alice'', idSubmission = ''sub1'', idBot = ''b''\<rparr>"
  let ?as = "[ex_arrival 1 (Fin 1) 4 3, ex_arrival 0 (Fin 0) 6 9]"
  have "list_all (undisturbed ex_cfg) ?as"
    using ex_limit_price
    by (simp add: undisturbed_def ex_arrival_def sendable_def gen_Next_def Let_def) (simp add: ex_cfg_def)
  then show ?thesis
    using reference_contestant_scores_one [of ?i ?as "[(10, 1), (20, 1)]" ex_cfg "''sub1''"]
    by (simp add: ex_arrival_def)
qed

end
