(* ===== verification/GoChan.thy ===== *)
theory GoChan
  imports Prelude "HOL-Library.Sublist"
begin

text \<open>
  Go's buffered channels, as the services use them: a non-blocking send (a \<open>select\<close> with a \<open>default\<close>), a
  receive, and \<open>close\<close>. A send on a closed channel and a second \<open>close\<close> panic. On top of them the
  contract every bounded queue of the platform keeps: what was accepted comes out in order, once, and
  never more than the capacity waits.
\<close>

section \<open>Channels\<close>

record 'a chan =
  chBuf :: "'a list"
  chCap :: nat
  chClosed :: bool

definition make_chan :: "nat \<Rightarrow> 'a chan" where
  "make_chan n = \<lparr>chBuf = [], chCap = n, chClosed = False\<rparr>"

datatype 'a send_result = Sent "'a chan" | WouldBlock | SendPanic

definition try_send :: "'a chan \<Rightarrow> 'a \<Rightarrow> 'a send_result" where
  "try_send c x = (if chClosed c then SendPanic
     else if length (chBuf c) < chCap c then Sent (c\<lparr>chBuf := chBuf c @ [x]\<rparr>) else WouldBlock)"

datatype 'a recv_result = Received 'a "'a chan" | ChanClosed | Blocks

definition chan_recv :: "'a chan \<Rightarrow> 'a recv_result" where
  "chan_recv c = (case chBuf c of x # xs \<Rightarrow> Received x (c\<lparr>chBuf := xs\<rparr>)
     | [] \<Rightarrow> if chClosed c then ChanClosed else Blocks)"

definition close_chan :: "'a chan \<Rightarrow> 'a chan option" where
  "close_chan c = (if chClosed c then None else Some (c\<lparr>chClosed := True\<rparr>))"

definition chan_ok :: "'a chan \<Rightarrow> bool" where
  "chan_ok c \<longleftrightarrow> length (chBuf c) \<le> chCap c"

section \<open>Bounded queues\<close>

datatype 'a qop = Offer 'a | Take

locale bounded_queue =
  fixes offer :: "'s \<Rightarrow> 'a \<Rightarrow> 's \<times> bool"
    and take_one :: "'s \<Rightarrow> ('a \<times> 's) option"
    and waiting :: "'s \<Rightarrow> 'a list"
    and capacity :: "'s \<Rightarrow> nat"
  assumes accepted: "offer s x = (s', True) \<Longrightarrow> waiting s' = waiting s @ [x] \<and> length (waiting s) < capacity s"
    and refused: "offer s x = (s', False) \<Longrightarrow> waiting s' = waiting s"
    and capacity_offer: "offer s x = (s', b) \<Longrightarrow> capacity s' = capacity s"
    and taken: "take_one s = Some (x, s') \<Longrightarrow> waiting s = x # waiting s' \<and> capacity s' = capacity s"
    and nothing: "take_one s = None \<Longrightarrow> waiting s = []"
begin

text \<open>A run: the state, what was accepted and what came out.\<close>

fun queue_run :: "'s \<times> 'a list \<times> 'a list \<Rightarrow> 'a qop list \<Rightarrow> 's \<times> 'a list \<times> 'a list" where
  "queue_run q [] = q"
| "queue_run (s, acc, out) (Offer x # ops) =
     (case offer s x of (s', b) \<Rightarrow> queue_run (s', if b then acc @ [x] else acc, out) ops)"
| "queue_run (s, acc, out) (Take # ops) =
     (case take_one s of None \<Rightarrow> queue_run (s, acc, out) ops | Some (x, s') \<Rightarrow> queue_run (s', acc, out @ [x]) ops)"

lemma queue_run_fifo:
  assumes "queue_run (s, acc, out) ops = (s', acc', out')" "acc = out @ waiting s" "length (waiting s) \<le> capacity s"
  shows "acc' = out' @ waiting s' \<and> length (waiting s') \<le> capacity s' \<and> capacity s' = capacity s"
  using assms
proof (induction "(s, acc, out)" ops arbitrary: s acc out rule: queue_run.induct)
  case (2 s acc out x ops)
  obtain s1 b where o: "offer s x = (s1, b)" by fastforce
  have c: "capacity s1 = capacity s" using capacity_offer [OF o] .
  show ?case
  proof (cases b)
    case True
    then have "waiting s1 = waiting s @ [x]" "length (waiting s) < capacity s"
      using accepted [of s x s1] o by simp_all
    with 2(1) [OF o [symmetric]] 2(2-) o True c show ?thesis by simp
  next
    case False
    then have "waiting s1 = waiting s" using refused [of s x s1] o by simp
    with 2(1) [OF o [symmetric]] 2(2-) o False c show ?thesis by simp
  qed
next
  case (3 s acc out ops)
  show ?case
  proof (cases "take_one s")
    case None
    with 3 show ?thesis by simp
  next
    case (Some y)
    obtain x s1 where y: "y = (x, s1)" by fastforce
    from taken [of s x s1] Some y have "waiting s = x # waiting s1" "capacity s1 = capacity s" by auto
    with 3(2) [OF Some y [symmetric]] 3(3-) Some y show ?thesis by simp
  qed
qed simp

text \<open>From an empty queue: what came out is what was accepted, in order, less what still waits.\<close>

lemma fifo_from_empty:
  assumes "waiting s = []" "queue_run (s, [], []) ops = (s', acc, out)"
  shows "acc = out @ waiting s'" "length (waiting s') \<le> capacity s"
  using queue_run_fifo [OF assms(2)] assms(1) by auto

lemma offer_full: "length (waiting s) = capacity s \<Longrightarrow> \<exists>s'. offer s x = (s', False)"
  using accepted by (metis (full_types) nat_less_le surj_pair)

end

section \<open>Subsequences\<close>

text \<open>What came through a lossy buffer, extended by one more message or by none.\<close>

lemma subseq_append_same: "subseq xs ys \<Longrightarrow> subseq (xs @ zs) (ys @ zs)"
  by simp

lemma subseq_append_left: "subseq xs ys \<Longrightarrow> subseq xs (ys @ zs)"
  by (metis append_Nil2 list_emb_append_mono list_emb_Nil)

end
