(* ===== verification/GoTime.thy ===== *)
theory GoTime
  imports GoFloat
begin

text \<open>
  What the services use of Go's \<open>time\<close> package. An instant is a number of nanoseconds on one clock,
  without a bound; a duration is an \<open>int64\<close> of nanoseconds, and the difference of two instants
  saturates at its ends.
\<close>

type_synonym instant = int
type_synonym duration = int64

abbreviation Second :: duration where
  "Second \<equiv> 1000000000"

abbreviation Millisecond :: duration where
  "Millisecond \<equiv> 1000000"

definition time_Sub :: "instant \<Rightarrow> instant \<Rightarrow> duration" where
  "time_Sub t u = max min_int64 (min max_int64 (t - u))"

text \<open>\<open>Duration.Seconds\<close>: whole seconds and the rest are converted apart and added.\<close>

definition dur_Seconds :: "duration \<Rightarrow> f64" where
  "dur_Seconds d = fadd (f64_of_int (go_div d Second)) (fdiv (f64_of_int (go_mod d Second)) (Fin 1000000000))"

lemma time_Sub_exact [simp]: "in_int64 (t - u) \<Longrightarrow> time_Sub t u = t - u"
  by (simp add: time_Sub_def in_int64_def)

lemma time_Sub_pos: "u < t \<Longrightarrow> 0 < time_Sub t u"
  by (simp add: time_Sub_def min_int64_def max_int64_def)

lemma time_Sub_in_int64 [simp]: "in_int64 (time_Sub t u)"
  by (simp add: time_Sub_def in_int64_def min_int64_def max_int64_def)

end
