(* ===== verification/TelemetryIngest.thy ===== *)
theory TelemetryIngest
  imports Telemetry GoChan GoTime "HOL-Library.Sublist"
begin

text \<open>
  The telemetry path: the bot's emitter (\<open>bot-worker/internal/telemetry/client.go\<close>), the ingester's bounded
  buffer, stream handler and drain loop (\<open>telemetry-ingester/internal/buffer\<close>, \<open>server\<close>, \<open>main.go\<close>) and its
  producers. The lemmas show that accepted events are published once and in order, that batches
  respect their size, that nothing is left behind when the loop ends, and when a push can meet a
  closed channel.
\<close>

section \<open>The bounded buffer\<close>

record Buffer =
  buCh :: "OrderEvent chan"
  buPushed :: "64 word"
  buDropped :: "64 word"
  buClosed :: bool

record BufStats =
  stPushed :: "64 word"
  stDropped :: "64 word"

definition NewBuffer :: "int \<Rightarrow> Buffer" where
  "NewBuffer n = \<lparr>buCh = make_chan (nat (if n \<le> 0 then 1024 else n)), buPushed = 0, buDropped = 0, buClosed = False\<rparr>"

text \<open>The part of \<open>Push\<close> after the closed flag was read: \<open>None\<close> is the panic of a send on a closed channel.\<close>

definition push_send :: "Buffer \<Rightarrow> OrderEvent \<Rightarrow> (Buffer \<times> bool) option" where
  "push_send b e = (case try_send (buCh b) e of
     Sent c \<Rightarrow> Some (b\<lparr>buCh := c, buPushed := buPushed b + 1\<rparr>, True)
   | WouldBlock \<Rightarrow> Some (b\<lparr>buDropped := buDropped b + 1\<rparr>, False)
   | SendPanic \<Rightarrow> None)"

definition Push :: "Buffer \<Rightarrow> OrderEvent \<Rightarrow> (Buffer \<times> bool) option" where
  "Push b e = (if buClosed b then Some (b, False) else push_send b e)"

definition BufferStats :: "Buffer \<Rightarrow> BufStats" where
  "BufferStats b = \<lparr>stPushed = buPushed b, stDropped = buDropped b\<rparr>"

definition CloseBuffer :: "Buffer \<Rightarrow> Buffer option" where
  "CloseBuffer b = (if buClosed b then Some b
     else map_option (\<lambda>c. b\<lparr>buClosed := True, buCh := c\<rparr>) (close_chan (buCh b)))"

text \<open>Between whole operations the flag and the channel agree, so neither operation panics.\<close>

definition buffer_ok :: "Buffer \<Rightarrow> bool" where
  "buffer_ok b \<longleftrightarrow> chClosed (buCh b) = buClosed b \<and> chan_ok (buCh b)"

definition push :: "Buffer \<Rightarrow> OrderEvent \<Rightarrow> Buffer \<times> bool" where
  "push b e = (case Push b e of Some r \<Rightarrow> r | None \<Rightarrow> (b, False))"

definition buffer_take :: "Buffer \<Rightarrow> (OrderEvent \<times> Buffer) option" where
  "buffer_take b = (case chan_recv (buCh b) of Received e c \<Rightarrow> Some (e, b\<lparr>buCh := c\<rparr>) | _ \<Rightarrow> None)"

lemma NewBuffer_ok: "buffer_ok (NewBuffer n)"
  by (simp add: buffer_ok_def NewBuffer_def make_chan_def chan_ok_def)

lemma Push_no_panic:
  assumes "buffer_ok b"
  shows "\<exists>b' a. Push b e = Some (b', a) \<and> buffer_ok b'"
  using assms by (auto simp: Push_def push_send_def try_send_def buffer_ok_def chan_ok_def)

lemma CloseBuffer_no_panic:
  assumes "buffer_ok b"
  shows "\<exists>b'. CloseBuffer b = Some b' \<and> buffer_ok b' \<and> buClosed b'"
  using assms by (auto simp: CloseBuffer_def close_chan_def buffer_ok_def chan_ok_def)

lemmas push_defs = push_def Push_def push_send_def try_send_def

interpretation buf: bounded_queue push buffer_take "\<lambda>b. chBuf (buCh b)" "\<lambda>b. chCap (buCh b)"
proof
  fix s s' x b
  show "push s x = (s', True) \<Longrightarrow> chBuf (buCh s') = chBuf (buCh s) @ [x] \<and> length (chBuf (buCh s)) < chCap (buCh s)"
    by (auto simp: push_defs split: if_splits)
  show "push s x = (s', False) \<Longrightarrow> chBuf (buCh s') = chBuf (buCh s)"
    by (auto simp: push_defs split: if_splits)
  show "push s x = (s', b) \<Longrightarrow> chCap (buCh s') = chCap (buCh s)"
    by (auto simp: push_defs split: if_splits)
  show "buffer_take s = Some (x, s') \<Longrightarrow> chBuf (buCh s) = x # chBuf (buCh s') \<and> chCap (buCh s') = chCap (buCh s)"
    by (auto simp: buffer_take_def chan_recv_def split: list.splits if_splits)
  show "buffer_take s = None \<Longrightarrow> chBuf (buCh s) = []"
    by (auto simp: buffer_take_def chan_recv_def split: list.splits if_splits)
qed

section \<open>The stream handler\<close>

text \<open>What \<open>stream.Recv\<close> returns, one per call: an event, the end of the stream, or an error.\<close>

datatype recv = RecvEvent OrderEvent | RecvEOF | RecvErr string

datatype stream_end = AckSent int64 | StreamErr string | StreamOpen int64

text \<open>The loop over the results so far; \<open>StreamOpen\<close> is a stream that has not ended.\<close>

fun ingest_loop :: "Buffer \<Rightarrow> int64 \<Rightarrow> recv list \<Rightarrow> (Buffer \<times> stream_end) option" where
  "ingest_loop b received [] = Some (b, StreamOpen received)"
| "ingest_loop b received (RecvEOF # rs) = Some (b, AckSent received)"
| "ingest_loop b received (RecvErr err # rs) = Some (b, StreamErr err)"
| "ingest_loop b received (RecvEvent e # rs) = (case Push b e of None \<Rightarrow> None
     | Some (b', ok) \<Rightarrow> ingest_loop b' (if ok then wrap64 (received + 1) else received) rs)"

definition IngestStream :: "Buffer \<Rightarrow> recv list \<Rightarrow> (Buffer \<times> stream_end) option" where
  "IngestStream b rs = ingest_loop b 0 rs"

text \<open>\<open>QueryMetrics\<close> answers with the contestant of the request and nothing else.\<close>

definition QueryMetrics :: "string \<Rightarrow> string" where
  "QueryMetrics contestant = contestant"

section \<open>Producers\<close>

record StubProducer =
  spBatches :: "OrderEvent list list"
  spPublished :: "64 word"

definition NewStubProducer :: StubProducer where
  "NewStubProducer = \<lparr>spBatches = [], spPublished = 0\<rparr>"

definition stub_Publish :: "OrderEvent list \<Rightarrow> StubProducer \<Rightarrow> StubProducer" where
  "stub_Publish batch p = p\<lparr>spBatches := spBatches p @ [batch], spPublished := spPublished p + of_nat (length batch)\<rparr>"

definition Published :: "StubProducer \<Rightarrow> 64 word" where
  "Published p = spPublished p"

definition Batches :: "StubProducer \<Rightarrow> OrderEvent list list" where
  "Batches p = spBatches p"

text \<open>
  The messages \<open>Kafka.Publish\<close> hands to the writer, or the first marshalling error; \<open>marshal\<close> is the
  protobuf encoder.
\<close>

fun kafka_messages :: "(OrderEvent \<Rightarrow> string + string) \<Rightarrow> OrderEvent list \<Rightarrow> (string \<times> string) list \<Rightarrow> string + (string \<times> string) list" where
  "kafka_messages marshal [] msgs = Inr msgs"
| "kafka_messages marshal (e # es) msgs = (case marshal e of
     Inl err \<Rightarrow> Inl (''marshal event '' @ eOrderId e @ '': '' @ err)
   | Inr d \<Rightarrow> kafka_messages marshal es (msgs @ [(eContestantId e, d)]))"

definition kafka_Publish :: "(OrderEvent \<Rightarrow> string + string) \<Rightarrow> ((string \<times> string) list \<Rightarrow> string option) \<Rightarrow> OrderEvent list \<Rightarrow> string option" where
  "kafka_Publish marshal write batch = (case kafka_messages marshal batch [] of
     Inl err \<Rightarrow> Some err | Inr msgs \<Rightarrow> write msgs)"

section \<open>The drain loop\<close>

datatype drain_mode = Running | Draining | Returned

text \<open>
  \<open>drPublished\<close> are the batches handed to \<open>Publish\<close>, whose error is only logged. In mode \<open>Draining\<close> the context is
  done and the loop ranges over the channel until it is closed and empty.
\<close>

record drain_state =
  drPending :: "OrderEvent list"
  drPublished :: "OrderEvent list list"
  drMode :: drain_mode

definition drain_flush :: "drain_state \<Rightarrow> drain_state" where
  "drain_flush d = (if drPending d = [] then d
     else d\<lparr>drPublished := drPublished d @ [drPending d], drPending := []\<rparr>)"

definition drain_add :: "int \<Rightarrow> OrderEvent \<Rightarrow> drain_state \<Rightarrow> drain_state" where
  "drain_add batchSize e d = (let d1 = d\<lparr>drPending := drPending d @ [e]\<rparr>
     in if batchSize \<le> int (length (drPending d1)) then drain_flush d1 else d1)"

text \<open>The cases of the \<open>select\<close>; a step whose case is not ready leaves the state as it is.\<close>

definition drain_tick :: "drain_state \<Rightarrow> drain_state" where
  "drain_tick d = (if drMode d = Running then drain_flush d else d)"

definition drain_done :: "drain_state \<Rightarrow> drain_state" where
  "drain_done d = (if drMode d = Running then d\<lparr>drMode := Draining\<rparr> else d)"

definition drain_recv :: "int \<Rightarrow> Buffer \<times> drain_state \<Rightarrow> Buffer \<times> drain_state" where
  "drain_recv batchSize bd = (case bd of (b, d) \<Rightarrow>
     if drMode d = Returned then (b, d)
     else case chan_recv (buCh b) of
            Received e c \<Rightarrow> (b\<lparr>buCh := c\<rparr>, drain_add batchSize e d)
          | ChanClosed \<Rightarrow> (b, (drain_flush d)\<lparr>drMode := Returned\<rparr>)
          | Blocks \<Rightarrow> (b, d))"

section \<open>The ingester\<close>

text \<open>The interleaving of stream handlers, shutdown and the drain loop, one whole operation at a time.\<close>

datatype ing_op = OpPush OrderEvent | OpClose | OpTick | OpDone | OpRecv

record ingester =
  igBuf :: Buffer
  igDrain :: drain_state
  igAccepted :: "OrderEvent list"

definition new_ingester :: "int \<Rightarrow> ingester" where
  "new_ingester n = \<lparr>igBuf = NewBuffer n, igDrain = \<lparr>drPending = [], drPublished = [], drMode = Running\<rparr>, igAccepted = []\<rparr>"

fun ing_step :: "int \<Rightarrow> ingester \<Rightarrow> ing_op \<Rightarrow> ingester" where
  "ing_step batchSize s (OpPush e) = (case push (igBuf s) e of (b, ok) \<Rightarrow>
     s\<lparr>igBuf := b, igAccepted := (if ok then igAccepted s @ [e] else igAccepted s)\<rparr>)"
| "ing_step batchSize s OpClose = (case CloseBuffer (igBuf s) of Some b \<Rightarrow> s\<lparr>igBuf := b\<rparr> | None \<Rightarrow> s)"
| "ing_step batchSize s OpTick = s\<lparr>igDrain := drain_tick (igDrain s)\<rparr>"
| "ing_step batchSize s OpDone = s\<lparr>igDrain := drain_done (igDrain s)\<rparr>"
| "ing_step batchSize s OpRecv = (case drain_recv batchSize (igBuf s, igDrain s) of (b, d) \<Rightarrow> s\<lparr>igBuf := b, igDrain := d\<rparr>)"

definition ingest_inv :: "int \<Rightarrow> ingester \<Rightarrow> bool" where
  "ingest_inv batchSize s \<longleftrightarrow> buffer_ok (igBuf s)
     \<and> concat (drPublished (igDrain s)) @ drPending (igDrain s) @ chBuf (buCh (igBuf s)) = igAccepted s
     \<and> (\<forall>batch \<in> set (drPublished (igDrain s)). batch \<noteq> [] \<and> int (length batch) \<le> batchSize)
     \<and> int (length (drPending (igDrain s))) < batchSize
     \<and> (drMode (igDrain s) = Returned \<longrightarrow> chClosed (buCh (igBuf s)) \<and> chBuf (buCh (igBuf s)) = [] \<and> drPending (igDrain s) = [])"

lemma drain_add_inv:
  assumes "\<forall>batch \<in> set (drPublished d). batch \<noteq> [] \<and> int (length batch) \<le> n" "int (length (drPending d)) < n" "1 \<le> n"
  shows "concat (drPublished (drain_add n e d)) @ drPending (drain_add n e d) @ zs = concat (drPublished d) @ drPending d @ e # zs"
    "\<forall>batch \<in> set (drPublished (drain_add n e d)). batch \<noteq> [] \<and> int (length batch) \<le> n"
    "int (length (drPending (drain_add n e d))) < n" "drMode (drain_add n e d) = drMode d"
proof -
  have add: "drain_add n e d = (if n \<le> int (Suc (length (drPending d)))
      then d\<lparr>drPublished := drPublished d @ [drPending d @ [e]], drPending := []\<rparr> else d\<lparr>drPending := drPending d @ [e]\<rparr>)"
    by (simp add: drain_add_def drain_flush_def Let_def)
  show "concat (drPublished (drain_add n e d)) @ drPending (drain_add n e d) @ zs = concat (drPublished d) @ drPending d @ e # zs"
    "drMode (drain_add n e d) = drMode d"
    by (simp_all add: add)
  show "\<forall>batch \<in> set (drPublished (drain_add n e d)). batch \<noteq> [] \<and> int (length batch) \<le> n"
    using assms(1,2) by (simp add: add)
  show "int (length (drPending (drain_add n e d))) < n"
    using assms(2,3) by (simp add: add)
qed

lemma ing_step_inv:
  assumes inv: "ingest_inv n s" and n: "1 \<le> n"
  shows "ingest_inv n (ing_step n s op)"
proof -
  have ok: "buffer_ok (igBuf s)" using inv by (simp add: ingest_inv_def)
  show ?thesis
proof (cases op)
  case (OpPush e)
  obtain b' a where p: "Push (igBuf s) e = Some (b', a)" "buffer_ok b'"
    using Push_no_panic [OF ok] by blast
  then have q: "push (igBuf s) e = (b', a)" by (simp add: push_def)
  have "chBuf (buCh b') = (if a then chBuf (buCh (igBuf s)) @ [e] else chBuf (buCh (igBuf s)))"
    using buf.accepted [of "igBuf s" e b'] buf.refused [of "igBuf s" e b'] q by (cases a) auto
  moreover have "chClosed (buCh b') = chClosed (buCh (igBuf s))" "chClosed (buCh (igBuf s)) \<Longrightarrow> \<not> a"
    using p inv by (auto simp: Push_def push_send_def try_send_def ingest_inv_def buffer_ok_def split: if_splits)
  ultimately show ?thesis
    using inv p(2) by (cases a) (auto simp: OpPush q ingest_inv_def)
next
  case OpClose
  obtain b where "CloseBuffer (igBuf s) = Some b" "buffer_ok b" "buClosed b"
    using CloseBuffer_no_panic [OF ok] by blast
  moreover from this(1) have "chBuf (buCh b) = chBuf (buCh (igBuf s))"
    by (auto simp: CloseBuffer_def close_chan_def split: if_splits)
  ultimately show ?thesis using inv by (auto simp: OpClose ingest_inv_def buffer_ok_def)
next
  case OpTick
  show ?thesis
  proof (cases "drMode (igDrain s) = Running \<and> drPending (igDrain s) \<noteq> []")
    case True
    then show ?thesis using inv n by (auto simp: OpTick ingest_inv_def drain_tick_def drain_flush_def)
  next
    case False
    then have "drain_tick (igDrain s) = igDrain s" by (auto simp: drain_tick_def drain_flush_def)
    then show ?thesis using inv by (simp add: OpTick ingest_inv_def)
  qed
next
  case OpDone
  then show ?thesis using inv by (auto simp: ingest_inv_def drain_done_def)
next
  case OpRecv
  show ?thesis
  proof (cases "drMode (igDrain s) = Returned")
    case True
    then show ?thesis using inv by (simp add: OpRecv drain_recv_def)
  next
    case run: False
    show ?thesis
    proof (cases "chan_recv (buCh (igBuf s))")
      case (Received e c)
      then have c: "chBuf (buCh (igBuf s)) = e # chBuf c" "chClosed c = chClosed (buCh (igBuf s))" "chCap c = chCap (buCh (igBuf s))"
        by (auto simp: chan_recv_def split: list.splits if_splits)
      have pre: "\<forall>batch \<in> set (drPublished (igDrain s)). batch \<noteq> [] \<and> int (length batch) \<le> n" "int (length (drPending (igDrain s))) < n"
        using inv by (auto simp: ingest_inv_def)
      have "concat (drPublished (igDrain s)) @ drPending (igDrain s) @ e # chBuf c = igAccepted s"
        using inv c(1) by (simp add: ingest_inv_def)
      with drain_add_inv(1) [OF pre n, of e "chBuf c"]
      have "concat (drPublished (drain_add n e (igDrain s))) @ drPending (drain_add n e (igDrain s)) @ chBuf c = igAccepted s"
        by (rule trans)
      with drain_add_inv(2-4) [OF pre n, of e] run inv c show ?thesis
        by (auto simp: OpRecv drain_recv_def Received ingest_inv_def buffer_ok_def chan_ok_def)
    next
      case ChanClosed
      then have "chBuf (buCh (igBuf s)) = []" "chClosed (buCh (igBuf s))"
        by (auto simp: chan_recv_def split: list.splits if_splits)
      with inv run n ChanClosed show ?thesis
        by (cases "drPending (igDrain s) = []") (auto simp: OpRecv drain_recv_def ingest_inv_def drain_flush_def)
    next
      case Blocks
      then show ?thesis using inv run by (simp add: OpRecv drain_recv_def)
    qed
  qed
qed
qed

lemma ing_run_inv:
  assumes "1 \<le> n"
  shows "ingest_inv n (foldl (ing_step n) (new_ingester cap) ops)"
proof (induction ops rule: rev_induct)
  case Nil
  show ?case using assms NewBuffer_ok [of cap]
    by (simp add: ingest_inv_def new_ingester_def NewBuffer_def make_chan_def)
next
  case (snoc op ops)
  then show ?case using ing_step_inv [OF _ assms] by simp
qed


section \<open>Streams\<close>

text \<open>The events a handler pushed and those the buffer took, for the calls of one stream.\<close>

lemma ingest_loop_counts:
  assumes "buffer_ok b" "ingest_loop b n rs = Some (b', r)" "r = AckSent k"
  shows "\<exists>acc. chBuf (buCh b') = chBuf (buCh b) @ acc \<and> k = (if acc = [] then n else wrap64 (n + int (length acc))) \<and> buffer_ok b'"
  using assms
proof (induction b n rs arbitrary: b' rule: ingest_loop.induct)
  case (4 b n e rs)
  obtain b1 ok where p: "Push b e = Some (b1, ok)" "buffer_ok b1" using Push_no_panic [OF 4(2)] by blast
  then have q: "push b e = (b1, ok)" by (simp add: push_def)
  have w: "chBuf (buCh b1) = (if ok then chBuf (buCh b) @ [e] else chBuf (buCh b))"
    using buf.accepted [of b e b1] buf.refused [of b e b1] q by (cases ok) auto
  have "ingest_loop b1 (if ok then wrap64 (n + 1) else n) rs = Some (b', r)" using 4(3) p by simp
  from 4(1) [OF p(1) refl p(2) this 4(4)] obtain acc where
    "chBuf (buCh b') = chBuf (buCh b1) @ acc" "buffer_ok b'"
    "k = (if acc = [] then (if ok then wrap64 (n + 1) else n) else wrap64 ((if ok then wrap64 (n + 1) else n) + int (length acc)))"
    by blast
  with w show ?case
    by (intro exI [of _ "(if ok then [e] else []) @ acc"]) (auto simp: algebra_simps)
qed auto

section \<open>Interleaving a push with the close\<close>

text \<open>
  \<open>Push\<close> reads the closed flag and sends in two steps, and \<open>Close\<close> sets the flag and closes the channel
  in two steps; any number of handlers run them interleaved. A handler past the check holds its event.
\<close>

datatype push_pc = Idle | Checked OrderEvent

record race =
  raBuf :: Buffer
  raPc :: "nat \<Rightarrow> push_pc"
  raClosing :: bool
  raPanicked :: bool

definition race_start :: "int \<Rightarrow> race" where
  "race_start n = \<lparr>raBuf = NewBuffer n, raPc = (\<lambda>_. Idle), raClosing = False, raPanicked = False\<rparr>"

text \<open>\<open>graceful\<close> is the shutdown of \<open>main\<close>: the close starts only after every handler has returned, and
  no handler starts after it.\<close>

inductive race_step :: "bool \<Rightarrow> race \<Rightarrow> race \<Rightarrow> bool" for graceful where
  check_open: "raPc s h = Idle \<Longrightarrow> \<not> buClosed (raBuf s) \<Longrightarrow> race_step graceful s (s\<lparr>raPc := (raPc s)(h := Checked e)\<rparr>)"
| check_closed: "raPc s h = Idle \<Longrightarrow> buClosed (raBuf s) \<Longrightarrow> race_step graceful s s"
| send: "raPc s h = Checked e \<Longrightarrow> push_send (raBuf s) e = Some (b, ok) \<Longrightarrow>
     race_step graceful s (s\<lparr>raBuf := b, raPc := (raPc s)(h := Idle)\<rparr>)"
| send_panic: "raPc s h = Checked e \<Longrightarrow> push_send (raBuf s) e = None \<Longrightarrow> race_step graceful s (s\<lparr>raPanicked := True\<rparr>)"
| cas: "\<not> buClosed (raBuf s) \<Longrightarrow> (graceful \<longrightarrow> (\<forall>h. raPc s h = Idle)) \<Longrightarrow>
     race_step graceful s (s\<lparr>raBuf := (raBuf s)\<lparr>buClosed := True\<rparr>, raClosing := True\<rparr>)"
| close_ch: "raClosing s \<Longrightarrow> close_chan (buCh (raBuf s)) = Some c \<Longrightarrow>
     race_step graceful s (s\<lparr>raBuf := (raBuf s)\<lparr>buCh := c\<rparr>, raClosing := False\<rparr>)"
| close_panic: "raClosing s \<Longrightarrow> close_chan (buCh (raBuf s)) = None \<Longrightarrow> race_step graceful s (s\<lparr>raPanicked := True\<rparr>)"
| recv: "chan_recv (buCh (raBuf s)) = Received e c \<Longrightarrow> race_step graceful s (s\<lparr>raBuf := (raBuf s)\<lparr>buCh := c\<rparr>\<rparr>)"

inductive race_reach :: "bool \<Rightarrow> int \<Rightarrow> race \<Rightarrow> bool" for graceful n where
  start: "race_reach graceful n (race_start n)"
| step: "race_reach graceful n s \<Longrightarrow> race_step graceful s s' \<Longrightarrow> race_reach graceful n s'"

definition race_inv :: "race \<Rightarrow> bool" where
  "race_inv s \<longleftrightarrow> \<not> raPanicked s \<and> (buClosed (raBuf s) \<longrightarrow> (\<forall>h. raPc s h = Idle))
     \<and> (chClosed (buCh (raBuf s)) \<longrightarrow> buClosed (raBuf s)) \<and> (raClosing s \<longrightarrow> \<not> chClosed (buCh (raBuf s)) \<and> buClosed (raBuf s))"

lemma push_send_closed:
  "push_send b e = Some (b', ok) \<Longrightarrow> buClosed b' = buClosed b \<and> chClosed (buCh b') = chClosed (buCh b)"
  "push_send b e = None \<longleftrightarrow> chClosed (buCh b)"
  by (auto simp: push_send_def try_send_def split: if_splits)

lemma race_step_inv: "race_step True s s' \<Longrightarrow> race_inv s \<Longrightarrow> race_inv s'"
proof (induction rule: race_step.induct)
  case (send s h e b ok)
  from send(3) send(1) have "\<not> buClosed (raBuf s)" by (auto simp: race_inv_def)
  with send push_send_closed(1) [OF send(2)] show ?case by (auto simp: race_inv_def)
next
  case (send_panic s h e)
  then show ?case using push_send_closed(2) by (auto simp: race_inv_def)
next
  case (recv s e c)
  then have "chClosed c = chClosed (buCh (raBuf s))" by (auto simp: chan_recv_def split: list.splits if_splits)
  with recv show ?case by (auto simp: race_inv_def)
qed (auto simp: race_inv_def close_chan_def split: if_splits)

lemma race_reach_inv: "race_reach True n s \<Longrightarrow> race_inv s"
proof (induction rule: race_reach.induct)
  case start
  show ?case by (simp add: race_inv_def race_start_def NewBuffer_def make_chan_def)
qed (rule race_step_inv)

lemma race_panic_reachable: "\<exists>s. race_reach False 1 s \<and> raPanicked s"
proof -
  let ?b = "NewBuffer 1"
  define s1 where "s1 = (race_start 1)\<lparr>raPc := (\<lambda>_. Idle)(0 := Checked emptyEvent)\<rparr>"
  define s2 where "s2 = s1\<lparr>raBuf := ?b\<lparr>buClosed := True\<rparr>, raClosing := True\<rparr>"
  define s3 where "s3 = s2\<lparr>raBuf := ?b\<lparr>buClosed := True, buCh := (buCh ?b)\<lparr>chClosed := True\<rparr>\<rparr>, raClosing := False\<rparr>"
  have "race_step False (race_start 1) s1"
    using check_open [of "race_start 1" 0 False emptyEvent] by (simp add: s1_def race_start_def NewBuffer_def)
  moreover have "race_step False s1 s2"
    using cas [of s1 False] by (simp add: s1_def s2_def race_start_def NewBuffer_def)
  moreover have "race_step False s2 s3"
    using close_ch [of s2 "(buCh ?b)\<lparr>chClosed := True\<rparr>" False]
    by (simp add: s1_def s2_def s3_def race_start_def NewBuffer_def make_chan_def close_chan_def)
  moreover have "race_step False s3 (s3\<lparr>raPanicked := True\<rparr>)"
    using send_panic [of s3 0 emptyEvent False] push_send_closed(2) [of "raBuf s3" emptyEvent]
    by (simp add: s1_def s2_def s3_def race_start_def NewBuffer_def make_chan_def)
  ultimately have "race_reach False 1 (s3\<lparr>raPanicked := True\<rparr>)"
    by (meson race_reach.intros)
  then show ?thesis by (intro exI [of _ "s3\<lparr>raPanicked := True\<rparr>"]) simp
qed


section \<open>The bot's emitter\<close>

record GRPCClient =
  gcQueue :: "OrderEvent chan"
  gcClosed :: bool
  gcEmitted :: "64 word"
  gcDropped :: "64 word"

definition DialClient :: "int \<Rightarrow> GRPCClient" where
  "DialClient bufferCap = \<lparr>gcQueue = make_chan (nat (if bufferCap \<le> 0 then 1024 else bufferCap)), gcClosed = False,
     gcEmitted = 0, gcDropped = 0\<rparr>"

text \<open>The queue itself is never closed, so no send on it panics.\<close>

definition Emit :: "GRPCClient \<Rightarrow> OrderEvent \<Rightarrow> GRPCClient" where
  "Emit c e = (if gcClosed c then c
     else case try_send (gcQueue c) e of
            Sent q \<Rightarrow> c\<lparr>gcQueue := q, gcEmitted := gcEmitted c + 1\<rparr>
          | _ \<Rightarrow> c\<lparr>gcDropped := gcDropped c + 1\<rparr>)"

definition CloseClient :: "GRPCClient \<Rightarrow> GRPCClient" where
  "CloseClient c = c\<lparr>gcClosed := True\<rparr>"

definition ClientStats :: "GRPCClient \<Rightarrow> 64 word \<times> 64 word" where
  "ClientStats c = (gcEmitted c, gcDropped c)"

text \<open>
  The sender: whether a stream is open, the backoff, and what went out. For one event from the queue the
  environment says whether opening a stream and sending succeed, and whether the client is shut down
  while it sleeps.
\<close>

record sender =
  snOpen :: bool
  snBackoff :: duration
  snSent :: "OrderEvent list"
  snRunning :: bool

record outcome =
  ocOpens :: bool
  ocSends :: bool
  ocShutdown :: bool

definition new_sender :: sender where
  "new_sender = \<lparr>snOpen = False, snBackoff = 100 * Millisecond, snSent = [], snRunning = True\<rparr>"

definition sleepBackoff :: "bool \<Rightarrow> duration \<Rightarrow> duration \<times> bool" where
  "sleepBackoff shutdown b = (if shutdown then (b, False)
     else let b2 = wrap64 (b * 2) in (if 5 * Second < b2 then 5 * Second else b2, True))"

definition sender_sleep :: "bool \<Rightarrow> sender \<Rightarrow> sender" where
  "sender_sleep shutdown s = (case sleepBackoff shutdown (snBackoff s) of (b, go) \<Rightarrow> s\<lparr>snBackoff := b, snRunning := go\<rparr>)"

definition send_one :: "outcome \<Rightarrow> OrderEvent \<Rightarrow> sender \<Rightarrow> sender" where
  "send_one oc e s =
     (if \<not> snOpen s \<and> \<not> ocOpens oc then sender_sleep (ocShutdown oc) s
      else let s1 = (if snOpen s then s else s\<lparr>snOpen := True, snBackoff := 100 * Millisecond\<rparr>)
           in if ocSends oc then s1\<lparr>snSent := snSent s1 @ [e]\<rparr>
              else sender_sleep (ocShutdown oc) (s1\<lparr>snOpen := False\<rparr>))"

text \<open>One turn of \<open>run\<close>'s \<open>select\<close>: an event from the queue, or the end of the client.\<close>

datatype run_turn = TurnEvent outcome | TurnDone

definition run_step :: "GRPCClient \<times> sender \<Rightarrow> run_turn \<Rightarrow> GRPCClient \<times> sender" where
  "run_step cs t = (case cs of (c, s) \<Rightarrow> if \<not> snRunning s then (c, s)
     else case t of
            TurnDone \<Rightarrow> (c, s\<lparr>snRunning := False\<rparr>)
          | TurnEvent oc \<Rightarrow> (case chan_recv (gcQueue c) of
              Received e q \<Rightarrow> (c\<lparr>gcQueue := q\<rparr>, send_one oc e s)
            | _ \<Rightarrow> (c, s)))"

definition emit :: "GRPCClient \<Rightarrow> OrderEvent \<Rightarrow> GRPCClient \<times> bool" where
  "emit c e = (Emit c e, gcEmitted (Emit c e) \<noteq> gcEmitted c)"

definition client_take :: "GRPCClient \<Rightarrow> (OrderEvent \<times> GRPCClient) option" where
  "client_take c = (case chan_recv (gcQueue c) of Received e q \<Rightarrow> Some (e, c\<lparr>gcQueue := q\<rparr>) | _ \<Rightarrow> None)"

interpretation em: bounded_queue emit client_take "\<lambda>c. chBuf (gcQueue c)" "\<lambda>c. chCap (gcQueue c)"
proof
  fix s s' x b
  show "emit s x = (s', True) \<Longrightarrow> chBuf (gcQueue s') = chBuf (gcQueue s) @ [x] \<and> length (chBuf (gcQueue s)) < chCap (gcQueue s)"
    by (auto simp: emit_def Emit_def try_send_def split: if_splits)
  show "emit s x = (s', False) \<Longrightarrow> chBuf (gcQueue s') = chBuf (gcQueue s)"
    by (auto simp: emit_def Emit_def try_send_def split: if_splits)
  show "emit s x = (s', b) \<Longrightarrow> chCap (gcQueue s') = chCap (gcQueue s)"
    by (auto simp: emit_def Emit_def try_send_def split: if_splits)
  show "client_take s = Some (x, s') \<Longrightarrow> chBuf (gcQueue s) = x # chBuf (gcQueue s') \<and> chCap (gcQueue s') = chCap (gcQueue s)"
    by (auto simp: client_take_def chan_recv_def split: list.splits if_splits)
  show "client_take s = None \<Longrightarrow> chBuf (gcQueue s) = []"
    by (auto simp: client_take_def chan_recv_def split: list.splits if_splits)
qed

definition sender_ok :: "sender \<Rightarrow> bool" where
  "sender_ok s \<longleftrightarrow> 100 * Millisecond \<le> snBackoff s \<and> snBackoff s \<le> 5 * Second"

lemma sleepBackoff_bounds:
  assumes "100 * Millisecond \<le> b" "b \<le> 5 * Second"
  shows "100 * Millisecond \<le> fst (sleepBackoff x b)" "fst (sleepBackoff x b) \<le> 5 * Second"
    "\<not> x \<Longrightarrow> fst (sleepBackoff x b) = min (2 * b) (5 * Second)"
proof -
  have "wrap64 (b * 2) = b * 2" using assms by (intro wrap64_id) (simp add: in_int64_def min_int64_def max_int64_def)
  then show "100 * Millisecond \<le> fst (sleepBackoff x b)" "fst (sleepBackoff x b) \<le> 5 * Second"
    "\<not> x \<Longrightarrow> fst (sleepBackoff x b) = min (2 * b) (5 * Second)"
    using assms by (simp_all add: sleepBackoff_def Let_def)
qed

lemma sender_sleep_ok: "sender_ok s \<Longrightarrow> sender_ok (sender_sleep x s)"
  using sleepBackoff_bounds [of "snBackoff s" x] by (auto simp: sender_ok_def sender_sleep_def split: prod.splits)

lemma send_one_ok: "sender_ok s \<Longrightarrow> sender_ok (send_one oc e s)"
proof -
  assume s: "sender_ok s"
  have 1: "sender_ok (if snOpen s then s else s\<lparr>snOpen := True, snBackoff := 100 * Millisecond\<rparr>)" (is "sender_ok ?s1")
    using s by (simp add: sender_ok_def)
  then have "sender_ok (?s1\<lparr>snSent := snSent ?s1 @ [e]\<rparr>)" "sender_ok (?s1\<lparr>snOpen := False\<rparr>)"
    by (simp_all add: sender_ok_def)
  with s show ?thesis unfolding send_one_def Let_def by (simp only: sender_sleep_ok split: if_split) simp
qed

lemma sender_sleep_sent [simp]: "snSent (sender_sleep x s) = snSent s"
  by (simp add: sender_sleep_def split: prod.splits)

lemma send_one_sent: "snSent (send_one oc e s) = snSent s \<or> snSent (send_one oc e s) = snSent s @ [e]"
  by (simp add: send_one_def Let_def)

text \<open>Emits, turns of the sender and the close, interleaved.\<close>

datatype cl_op = DoEmit OrderEvent | DoTurn run_turn | DoClose

record emitter =
  emClient :: GRPCClient
  emSender :: sender
  emAccepted :: "OrderEvent list"

definition new_emitter :: "int \<Rightarrow> emitter" where
  "new_emitter n = \<lparr>emClient = DialClient n, emSender = new_sender, emAccepted = []\<rparr>"

fun em_step :: "emitter \<Rightarrow> cl_op \<Rightarrow> emitter" where
  "em_step s (DoEmit e) = (case emit (emClient s) e of (c, ok) \<Rightarrow>
     s\<lparr>emClient := c, emAccepted := (if ok then emAccepted s @ [e] else emAccepted s)\<rparr>)"
| "em_step s (DoTurn t) = (case run_step (emClient s, emSender s) t of (c, sn) \<Rightarrow> s\<lparr>emClient := c, emSender := sn\<rparr>)"
| "em_step s DoClose = s\<lparr>emClient := CloseClient (emClient s)\<rparr>"

definition em_inv :: "emitter \<Rightarrow> bool" where
  "em_inv s \<longleftrightarrow> sender_ok (emSender s) \<and> chan_ok (gcQueue (emClient s))
     \<and> (\<exists>gone. subseq (snSent (emSender s)) gone \<and> emAccepted s = gone @ chBuf (gcQueue (emClient s)))"

lemma em_invI:
  "sender_ok (emSender s) \<Longrightarrow> chan_ok (gcQueue (emClient s)) \<Longrightarrow> subseq (snSent (emSender s)) gone \<Longrightarrow>
   emAccepted s = gone @ chBuf (gcQueue (emClient s)) \<Longrightarrow> em_inv s"
  by (auto simp: em_inv_def)

lemma em_step_inv:
  assumes "em_inv s"
  shows "em_inv (em_step s op)"
proof -
  from assms obtain gone where g: "sender_ok (emSender s)" "chan_ok (gcQueue (emClient s))"
    "subseq (snSent (emSender s)) gone" "emAccepted s = gone @ chBuf (gcQueue (emClient s))"
    by (auto simp: em_inv_def)
  show ?thesis
  proof (cases op)
    case (DoEmit e)
    obtain c ok where q: "emit (emClient s) e = (c, ok)" by fastforce
    have "chBuf (gcQueue c) = (if ok then chBuf (gcQueue (emClient s)) @ [e] else chBuf (gcQueue (emClient s)))"
      using em.accepted [of "emClient s" e c] em.refused [of "emClient s" e c] q by (cases ok) auto
    moreover have "chan_ok (gcQueue c)"
      using g(2) q by (auto simp: emit_def Emit_def try_send_def chan_ok_def split: if_splits)
    ultimately show ?thesis using g by (intro em_invI [of _ gone]) (simp_all add: DoEmit q)
  next
    case (DoTurn t)
    show ?thesis
    proof (cases "snRunning (emSender s) \<and> (\<exists>oc. t = TurnEvent oc) \<and> (\<exists>e q. chan_recv (gcQueue (emClient s)) = Received e q)")
      case True
      then obtain oc e q where t: "t = TurnEvent oc" "chan_recv (gcQueue (emClient s)) = Received e q" by blast
      then have q: "chBuf (gcQueue (emClient s)) = e # chBuf q" "chan_ok q"
        using g(2) by (auto simp: chan_recv_def chan_ok_def split: list.splits if_splits)
      have "subseq (snSent (send_one oc e (emSender s))) (gone @ [e])"
        using send_one_sent [of oc e "emSender s"] g(3) by (auto intro: list_emb_append_mono)
      then show ?thesis using True t q g
        by (intro em_invI [of _ "gone @ [e]"]) (simp_all add: DoTurn run_step_def send_one_ok)
    next
      case False
      then have "run_step (emClient s, emSender s) t = (emClient s, emSender s) \<or>
          run_step (emClient s, emSender s) t = (emClient s, (emSender s)\<lparr>snRunning := False\<rparr>)"
        by (auto simp: run_step_def split: run_turn.splits recv_result.splits)
      then show ?thesis using g by (intro em_invI [of _ gone]) (auto simp: DoTurn sender_ok_def)
    qed
  next
    case DoClose
    then show ?thesis using g by (intro em_invI [of _ gone]) (simp_all add: CloseClient_def)
  qed
qed

lemma em_run_inv: "em_inv (foldl em_step (new_emitter n) ops)"
proof (induction ops rule: rev_induct)
  case Nil
  show ?case by (rule em_invI [of _ "[]"])
    (simp_all add: new_emitter_def sender_ok_def new_sender_def chan_ok_def DialClient_def make_chan_def)
qed (simp add: em_step_inv)

section \<open>Properties\<close>

text \<open>C18: However pushes, ticks, receives and the shutdown interleave, the batches handed to the producer,
  the pending batch and the buffer are together exactly the accepted events in the order they were
  accepted: nothing is lost, doubled or reordered. No batch is empty or larger than the batch size, and
  once the drain loop has returned every accepted event has been handed over.\<close>

theorem ingester_publishes_in_order:
  assumes "1 \<le> batchSize" "s = foldl (ing_step batchSize) (new_ingester cap) ops"
  shows "concat (drPublished (igDrain s)) @ drPending (igDrain s) @ chBuf (buCh (igBuf s)) = igAccepted s
     \<and> (\<forall>batch \<in> set (drPublished (igDrain s)). batch \<noteq> [] \<and> int (length batch) \<le> batchSize)
     \<and> (drMode (igDrain s) = Returned \<longrightarrow> concat (drPublished (igDrain s)) = igAccepted s)"
  using ing_run_inv [OF assms(1), of cap ops] unfolding assms(2) [symmetric] ingest_inv_def by auto

theorem ingester_publishes_in_order_witness:
  "concat (drPublished (igDrain (foldl (ing_step 2) (new_ingester 4) [OpPush emptyEvent, OpRecv, OpTick, OpClose, OpRecv]))) = [emptyEvent]"
proof -
  let ?s = "foldl (ing_step 2) (new_ingester 4) [OpPush emptyEvent, OpRecv, OpTick, OpClose, OpRecv]"
  have "drMode (igDrain ?s) = Returned" "igAccepted ?s = [emptyEvent]"
    by (simp_all add: new_ingester_def NewBuffer_def make_chan_def push_defs drain_recv_def chan_recv_def drain_add_def
        Let_def drain_tick_def drain_flush_def CloseBuffer_def close_chan_def)
  then show ?thesis using ingester_publishes_in_order [of 2 ?s 4 "[OpPush emptyEvent, OpRecv, OpTick, OpClose, OpRecv]"] by simp
qed

text \<open>C19: Once the buffer is closed the drain loop returns: as many receives as events wait, and one more,
  end it, whatever mode it was in.\<close>

theorem drain_loop_returns:
  assumes "buClosed (igBuf s)" "buffer_ok (igBuf s)"
  shows "drMode (igDrain (foldl (ing_step batchSize) s (replicate (Suc (length (chBuf (buCh (igBuf s))))) OpRecv))) = Returned"
  using assms
proof (induction "chBuf (buCh (igBuf s))" arbitrary: s)
  case Nil
  then have "chan_recv (buCh (igBuf s)) = ChanClosed" by (simp add: chan_recv_def buffer_ok_def)
  with Nil show ?case by (simp add: drain_recv_def)
next
  case (Cons e es)
  let ?s = "ing_step batchSize s OpRecv"
  show ?case
  proof (cases "drMode (igDrain s) = Returned")
    case True
    then have "ing_step batchSize s OpRecv = s" by (simp add: drain_recv_def)
    then have "foldl (ing_step batchSize) s (replicate n OpRecv) = s" for n by (induction n) simp_all
    with True show ?thesis by (simp del: ing_step.simps replicate_Suc)
  next
    case False
    have r: "chan_recv (buCh (igBuf s)) = Received e ((buCh (igBuf s))\<lparr>chBuf := es\<rparr>)"
      using Cons(2) [symmetric] by (simp add: chan_recv_def)
    then have s: "igBuf ?s = (igBuf s)\<lparr>buCh := (buCh (igBuf s))\<lparr>chBuf := es\<rparr>\<rparr>"
      using False by (simp add: drain_recv_def)
    have "length (chBuf (buCh (igBuf s))) \<le> chCap (buCh (igBuf s))" using Cons(4) by (simp add: buffer_ok_def chan_ok_def)
    then have "buClosed (igBuf ?s)" "buffer_ok (igBuf ?s)" "chBuf (buCh (igBuf ?s)) = es"
      using Cons(2) [symmetric] Cons(3,4) unfolding s by (auto simp: buffer_ok_def chan_ok_def)
    with Cons(1) [of ?s] Cons(2) [symmetric] show ?thesis by simp
  qed
qed

theorem drain_loop_returns_witness:
  "drMode (igDrain (foldl (ing_step 2) (ing_step 2 (new_ingester 4) OpClose) [OpRecv])) = Returned"
  using drain_loop_returns [of "ing_step 2 (new_ingester 4) OpClose" 2]
  by (simp add: new_ingester_def NewBuffer_def make_chan_def CloseBuffer_def close_chan_def buffer_ok_def chan_ok_def)



text \<open>Without that order a push can panic: it reads the closed flag, the buffer is closed, and its send
  meets the closed channel, although \<open>Push\<close> promises to return false on a closed buffer.\<close>

theorem push_racing_close_can_panic: "\<exists>s. race_reach False 1 s \<and> raPanicked s"
  by (rule race_panic_reachable)

text \<open>What the bot's emitter sends is a subsequence of what it accepted, in order, whatever streams
  fail; an accepted event that was not sent is still queued or was given up with its stream. The retry
  pause stays between a tenth of a second and five seconds.\<close>

theorem emitter_sends_in_order:
  "\<exists>gone. subseq (snSent (emSender (foldl em_step (new_emitter n) ops))) gone
     \<and> emAccepted (foldl em_step (new_emitter n) ops) = gone @ chBuf (gcQueue (emClient (foldl em_step (new_emitter n) ops)))
     \<and> 100 * Millisecond \<le> snBackoff (emSender (foldl em_step (new_emitter n) ops))
     \<and> snBackoff (emSender (foldl em_step (new_emitter n) ops)) \<le> 5 * Second"
  using em_run_inv [of n ops] by (auto simp: em_inv_def sender_ok_def)

text \<open>A stream that ends is acknowledged with the number of its events the buffer took, and these are
  the events it appended.\<close>

theorem ack_counts_accepted_events:
  assumes "buffer_ok b" "IngestStream b rs = Some (b', AckSent k)" "length rs < 2 ^ 63"
  shows "\<exists>acc. chBuf (buCh b') = chBuf (buCh b) @ acc \<and> k = int (length acc)"
proof -
  have "length (chBuf (buCh b')) \<le> length (chBuf (buCh b)) + length rs"
    if "ingest_loop b n rs = Some (b', r)" "buffer_ok b" for b n rs r
    using that
  proof (induction b n rs rule: ingest_loop.induct)
    case (4 b n e rs)
    obtain b1 ok where p: "Push b e = Some (b1, ok)" "buffer_ok b1" using Push_no_panic [OF 4(3)] by blast
    then have "length (chBuf (buCh b1)) \<le> Suc (length (chBuf (buCh b)))"
      by (auto simp: Push_def push_send_def try_send_def split: if_splits)
    moreover have "length (chBuf (buCh b')) \<le> length (chBuf (buCh b1)) + length rs"
      using 4(1) [OF p(1) refl _ p(2)] 4(2) p(1) by simp
    ultimately show ?case by simp
  qed auto
  with assms have le: "length (chBuf (buCh b')) \<le> length (chBuf (buCh b)) + length rs" by (auto simp: IngestStream_def)
  obtain acc where acc: "chBuf (buCh b') = chBuf (buCh b) @ acc" "k = (if acc = [] then 0 else wrap64 (0 + int (length acc)))"
    using ingest_loop_counts [OF assms(1) assms(2) [unfolded IngestStream_def] refl] by blast
  have "in_int64 (int (length acc))" using le acc(1) assms(3) by (simp add: in_int64_def min_int64_def max_int64_def)
  with acc show ?thesis by auto
qed

theorem ack_counts_accepted_events_witness:
  "\<exists>acc. chBuf (buCh (fst (the (IngestStream (NewBuffer 1) [RecvEvent emptyEvent, RecvEvent emptyEvent, RecvEOF])))) = acc \<and> 1 = int (length acc)"
proof -
  obtain b' where "IngestStream (NewBuffer 1) [RecvEvent emptyEvent, RecvEvent emptyEvent, RecvEOF] = Some (b', AckSent 1)"
    by (simp add: IngestStream_def NewBuffer_def make_chan_def Push_def push_send_def try_send_def wrap64_def)
  with ack_counts_accepted_events [OF NewBuffer_ok, of 1 "[RecvEvent emptyEvent, RecvEvent emptyEvent, RecvEOF]" b' 1]
  show ?thesis by (simp add: NewBuffer_def make_chan_def)
qed

end
