(* ===== verification/Score.thy ===== *)
theory Score
  imports GoFloat
begin

text \<open>
  The composite score, \<open>services/leaderboard-svc/internal/score/score.go\<close>. The lemmas bound the score of the
  default policy, show that it never falls when a measurement improves, and that one crash or one
  timeout takes all of it.
\<close>

record SConfig =
  scMaxP99Ns :: int64
  scTargetTPS :: f64
  scLatencyWeight :: f64
  scTPSWeight :: f64
  scCorrectnessWeight :: f64
  scCrashPenalty :: int64
  scTimeoutPenalty :: int64
  scScale :: f64

text \<open>The constants \<open>0.4\<close> and \<open>0.3\<close> of the source are the nearest \<open>float64\<close>.\<close>

definition DefaultConfig :: SConfig where
  "DefaultConfig = \<lparr>scMaxP99Ns = 100000000, scTargetTPS = Fin 10000, scLatencyWeight = f64_of_rat (4 / 10),
     scTPSWeight = f64_of_rat (3 / 10), scCorrectnessWeight = f64_of_rat (3 / 10), scCrashPenalty = 10000,
     scTimeoutPenalty = 1000, scScale = Fin 1000\<rparr>"

record Inputs =
  inP99Ns :: int64
  inTPS :: f64
  inCorrectness :: f64
  inCrashes :: int64
  inTimeouts :: int64

record Result =
  reLatencyNorm :: f64
  reTPSNorm :: f64
  reCorrectness :: f64
  reBaseScore :: f64
  rePenalty :: int64
  reFinalScore :: int64

text \<open>A \<open>Calculator\<close> is its configuration.\<close>

definition NewCalculator :: "SConfig \<Rightarrow> SConfig" where
  "NewCalculator cfg = (if scMaxP99Ns cfg \<le> 0 then DefaultConfig else cfg)"

definition clamp01 :: "f64 \<Rightarrow> f64" where
  "clamp01 v = (if flt v (Fin 0) then Fin 0 else if flt (Fin 1) v then Fin 1 else v)"

definition Compute :: "SConfig \<Rightarrow> Inputs \<Rightarrow> Result" where
  "Compute cfg i =
     (let latNorm = clamp01 (fsub (Fin 1) (fdiv (f64_of_int (inP99Ns i)) (f64_of_int (scMaxP99Ns cfg))));
          tpsNorm = clamp01 (fdiv (inTPS i) (scTargetTPS cfg));
          corr = clamp01 (inCorrectness i);
          base = fmul (scScale cfg) (fadd (fadd (fmul (scLatencyWeight cfg) latNorm) (fmul (scTPSWeight cfg) tpsNorm))
                                          (fmul (scCorrectnessWeight cfg) corr));
          penalty = wrap64 (wrap64 (inCrashes i * scCrashPenalty cfg) + wrap64 (inTimeouts i * scTimeoutPenalty cfg));
          final = max (wrap64 (int64_of_f64 (math_Round base) - penalty)) 0
      in \<lparr>reLatencyNorm = latNorm, reTPSNorm = tpsNorm, reCorrectness = corr, reBaseScore = base,
          rePenalty = penalty, reFinalScore = final\<rparr>)"

section \<open>The default policy\<close>

text \<open>The three \<open>float64\<close> constants and the sums of them, evaluated.\<close>

definition w4 :: rat where
  "w4 = 3602879701896397 / 9007199254740992"

definition w3 :: rat where
  "w3 = 5404319552844595 / 18014398509481984"

definition w7 :: rat where
  "w7 = 3152519739159347 / 4503599627370496"

lemma f64_weights: "f64_of_rat (4 / 10) = Fin w4" "f64_of_rat (3 / 10) = Fin w3"
  by (subst f64_of_rat_eval [where k = "- 2" and m = 7205759403792794]; simp add: pow2_def w4_def)
     (subst f64_of_rat_eval [where k = "- 2" and m = 5404319552844595]; simp add: pow2_def w3_def)

lemma f64_weights_exact: "f64_of_rat w4 = Fin w4" "f64_of_rat w3 = Fin w3"
  by (subst f64_of_rat_eval [where k = "- 2" and m = 7205759403792794]; simp add: pow2_def w4_def)
     (subst f64_of_rat_eval [where k = "- 2" and m = 5404319552844595]; simp add: pow2_def w3_def)

text \<open>The sum of the weights rounds to one: the first addition and the second are both ties.\<close>

lemma f64_weight_sums: "f64_of_rat (w4 + w3) = Fin w7" "f64_of_rat (w7 + w3) = Fin 1"
  by (subst f64_of_rat_eval [where k = "- 1" and m = 6305039478318694]; simp add: pow2_def w4_def w3_def w7_def)
     (subst f64_of_rat_eval [where k = "- 1" and m = 9007199254740992]; simp add: pow2_def w3_def w7_def)

lemma f64_1000: "f64_of_rat 1000 = Fin 1000"
  using f64_of_int_exact [of 1000] by (simp add: f64_of_int_def)

definition weighted :: "rat \<Rightarrow> rat \<Rightarrow> rat \<Rightarrow> f64" where
  "weighted l t c = fmul (Fin 1000) (fadd (fadd (fmul (Fin w4) (Fin l)) (fmul (Fin w3) (Fin t))) (fmul (Fin w3) (Fin c)))"

lemma weights_nonneg [simp]: "0 \<le> w4" "0 \<le> w3"
  by (simp_all add: w4_def w3_def)

lemma weighted_parts:
  assumes "0 \<le> l" "l \<le> 1" "0 \<le> t" "t \<le> 1" "0 \<le> c" "c \<le> 1"
  obtains a b d s u z where "f64_of_rat (w4 * l) = Fin a" "f64_of_rat (w3 * t) = Fin b" "f64_of_rat (w3 * c) = Fin d"
    "f64_of_rat (a + b) = Fin s" "f64_of_rat (s + d) = Fin u" "f64_of_rat (1000 * u) = Fin z"
    "weighted l t c = Fin z" "0 \<le> z" "z \<le> 1000"
proof -
  obtain a where a: "f64_of_rat (w4 * l) = Fin a" "0 \<le> a" "a \<le> w4"
    using f64_of_rat_upto [OF f64_weights_exact(1), of "w4 * l"] assms by (auto simp: mult_left_le)
  obtain b where b: "f64_of_rat (w3 * t) = Fin b" "0 \<le> b" "b \<le> w3"
    using f64_of_rat_upto [OF f64_weights_exact(2), of "w3 * t"] assms by (auto simp: mult_left_le)
  obtain d where d: "f64_of_rat (w3 * c) = Fin d" "0 \<le> d" "d \<le> w3"
    using f64_of_rat_upto [OF f64_weights_exact(2), of "w3 * c"] assms by (auto simp: mult_left_le)
  obtain s where s: "f64_of_rat (a + b) = Fin s" "0 \<le> s" "s \<le> w7"
    using f64_of_rat_upto [OF f64_weight_sums(1), of "a + b"] a b by auto
  obtain u where u: "f64_of_rat (s + d) = Fin u" "0 \<le> u" "u \<le> 1"
    using f64_of_rat_upto [OF f64_weight_sums(2), of "s + d"] s d by auto
  obtain z where z: "f64_of_rat (1000 * u) = Fin z" "0 \<le> z" "z \<le> 1000"
    using f64_of_rat_upto [OF f64_1000, of "1000 * u"] u by auto
  have "weighted l t c = Fin z" by (simp add: weighted_def a b d s u z)
  with that a b d s u z show ?thesis by blast
qed

lemma weighted_mono:
  assumes "0 \<le> l" "l \<le> l'" "l' \<le> 1" "0 \<le> t" "t \<le> t'" "t' \<le> 1" "0 \<le> c" "c \<le> c'" "c' \<le> 1"
  shows "weighted l t c \<le> weighted l' t' c'"
proof -
  obtain a b d s u z where 1: "f64_of_rat (w4 * l) = Fin a" "f64_of_rat (w3 * t) = Fin b" "f64_of_rat (w3 * c) = Fin d"
    "f64_of_rat (a + b) = Fin s" "f64_of_rat (s + d) = Fin u" "f64_of_rat (1000 * u) = Fin z" "weighted l t c = Fin z"
    by (rule weighted_parts [of l t c]) (use assms in linarith)+
  obtain a' b' d' s' u' z' where 2: "f64_of_rat (w4 * l') = Fin a'" "f64_of_rat (w3 * t') = Fin b'" "f64_of_rat (w3 * c') = Fin d'"
    "f64_of_rat (a' + b') = Fin s'" "f64_of_rat (s' + d') = Fin u'" "f64_of_rat (1000 * u') = Fin z'" "weighted l' t' c' = Fin z'"
    by (rule weighted_parts [of l' t' c']) (use assms in linarith)+
  have m: "p \<le> q" if "f64_of_rat x = Fin p" "f64_of_rat y = Fin q" "x \<le> y" for x y p q
    using f64_of_rat_mono [OF that(3)] that(1,2) by simp
  have "a \<le> a'" "b \<le> b'" "d \<le> d'"
    by (intro m [OF 1(1) 2(1)] m [OF 1(2) 2(2)] m [OF 1(3) 2(3)] mult_left_mono assms weights_nonneg)+
  then have "s \<le> s'" using m [OF 1(4) 2(4)] by simp
  then have "u \<le> u'" using m [OF 1(5) 2(5)] \<open>d \<le> d'\<close> by simp
  then show ?thesis using m [OF 1(6) 2(6)] 1(7) 2(7) by simp
qed

section \<open>Normalised measurements\<close>

lemma clamp01_unit:
  assumes "x \<noteq> NaN"
  obtains r where "clamp01 x = Fin r" "0 \<le> r" "r \<le> 1"
proof -
  have "Fin 0 \<le> clamp01 x \<and> clamp01 x \<le> Fin 1" using assms by (cases x) (auto simp: clamp01_def)
  then show ?thesis using that by (cases "clamp01 x") auto
qed

lemma clamp01_mono: "x \<noteq> NaN \<Longrightarrow> y \<noteq> NaN \<Longrightarrow> x \<le> y \<Longrightarrow> clamp01 x \<le> clamp01 y"
  by (cases x; cases y) (auto simp: clamp01_def)

lemma fdiv_pos_not_NaN: "a \<noteq> NaN \<Longrightarrow> 0 < c \<Longrightarrow> fdiv a (Fin c) \<noteq> NaN"
  by (cases a) (auto simp: inf_signed_def)

lemma fdiv_by_pos_mono:
  "a \<noteq> NaN \<Longrightarrow> b \<noteq> NaN \<Longrightarrow> a \<le> b \<Longrightarrow> 0 < c \<Longrightarrow> fdiv a (Fin c) \<le> fdiv b (Fin c)"
  by (cases a; cases b) (auto simp: inf_signed_def f64_of_rat_mono divide_right_mono)

lemma fsub_1_not_NaN: "x \<noteq> NaN \<Longrightarrow> fsub (Fin 1) x \<noteq> NaN"
  by (cases x) (auto simp: fsub_def)

lemma fsub_1_antimono: "x \<noteq> NaN \<Longrightarrow> y \<noteq> NaN \<Longrightarrow> x \<le> y \<Longrightarrow> fsub (Fin 1) y \<le> fsub (Fin 1) x"
  by (cases x; cases y) (auto simp: fsub_def f64_of_rat_mono)

definition lat_ratio :: "int64 \<Rightarrow> f64" where
  "lat_ratio p = fsub (Fin 1) (fdiv (f64_of_int p) (Fin 100000000))"

lemma lat_ratio_not_NaN [simp]: "lat_ratio p \<noteq> NaN"
  by (simp add: lat_ratio_def fsub_1_not_NaN fdiv_pos_not_NaN)

lemma lat_ratio_antimono: "p \<le> q \<Longrightarrow> lat_ratio q \<le> lat_ratio p"
  unfolding lat_ratio_def
  by (intro fsub_1_antimono fdiv_by_pos_mono fdiv_pos_not_NaN f64_of_int_mono) auto

text \<open>A measurement of the pipeline: rate and correctness are numbers, counts are not negative and the
  penalty they make fits an \<open>int64\<close>.\<close>

definition measured :: "Inputs \<Rightarrow> bool" where
  "measured i \<longleftrightarrow> inTPS i \<noteq> NaN \<and> inCorrectness i \<noteq> NaN \<and> 0 \<le> inCrashes i \<and> 0 \<le> inTimeouts i
     \<and> inCrashes i * 10000 + inTimeouts i * 1000 \<le> max_int64"

definition default_base :: "Inputs \<Rightarrow> f64" where
  "default_base i = fmul (Fin 1000) (fadd (fadd (fmul (Fin w4) (clamp01 (lat_ratio (inP99Ns i))))
      (fmul (Fin w3) (clamp01 (fdiv (inTPS i) (Fin 10000))))) (fmul (Fin w3) (clamp01 (inCorrectness i))))"

lemma Compute_default:
  "reBaseScore (Compute DefaultConfig i) = default_base i"
  "rePenalty (Compute DefaultConfig i) = wrap64 (inCrashes i * 10000 + inTimeouts i * 1000)"
  "reFinalScore (Compute DefaultConfig i) =
     max (wrap64 (int64_of_f64 (math_Round (default_base i)) - wrap64 (inCrashes i * 10000 + inTimeouts i * 1000))) 0"
proof -
  have "f64_of_int 100000000 = Fin 100000000" by (simp add: f64_of_int_exact)
  then show "reBaseScore (Compute DefaultConfig i) = default_base i"
    "rePenalty (Compute DefaultConfig i) = wrap64 (inCrashes i * 10000 + inTimeouts i * 1000)"
    "reFinalScore (Compute DefaultConfig i) =
       max (wrap64 (int64_of_f64 (math_Round (default_base i)) - wrap64 (inCrashes i * 10000 + inTimeouts i * 1000))) 0"
    by (simp_all add: Compute_def DefaultConfig_def Let_def default_base_def lat_ratio_def
        f64_weights f64_weights(1) [simplified])
qed

lemma default_base_weighted:
  assumes "inTPS i \<noteq> NaN" "inCorrectness i \<noteq> NaN"
  obtains l t c where "default_base i = weighted l t c" "0 \<le> l" "l \<le> 1" "0 \<le> t" "t \<le> 1" "0 \<le> c" "c \<le> 1"
    "clamp01 (lat_ratio (inP99Ns i)) = Fin l" "clamp01 (fdiv (inTPS i) (Fin 10000)) = Fin t" "clamp01 (inCorrectness i) = Fin c"
proof -
  obtain l where l: "clamp01 (lat_ratio (inP99Ns i)) = Fin l" "0 \<le> l" "l \<le> 1"
    by (rule clamp01_unit [OF lat_ratio_not_NaN])
  obtain t where t: "clamp01 (fdiv (inTPS i) (Fin 10000)) = Fin t" "0 \<le> t" "t \<le> 1"
    by (rule clamp01_unit [OF fdiv_pos_not_NaN [OF assms(1), of 10000]]) simp_all
  obtain c where c: "clamp01 (inCorrectness i) = Fin c" "0 \<le> c" "c \<le> 1" using clamp01_unit assms(2) by blast
  have "default_base i = weighted l t c" by (simp add: default_base_def weighted_def l t c)
  with that l t c show ?thesis by blast
qed

lemma rounded_points:
  assumes "0 \<le> z" "z \<le> 1000"
  shows "0 \<le> int64_of_f64 (math_Round (Fin z))" "int64_of_f64 (math_Round (Fin z)) \<le> 1000"
    "int64_of_f64 (math_Round (Fin z)) = \<lfloor>z + 1 / 2\<rfloor>"
proof -
  have f: "0 \<le> \<lfloor>z + 1 / 2\<rfloor>" "\<lfloor>z + 1 / 2\<rfloor> \<le> 1000" using assms by (auto simp: le_floor_iff floor_le_iff)
  then have "in_int64 \<lfloor>z + 1 / 2\<rfloor>" by (simp add: in_int64_def min_int64_def max_int64_def)
  then show *: "int64_of_f64 (math_Round (Fin z)) = \<lfloor>z + 1 / 2\<rfloor>" using assms f by (simp add: Let_def)
  with f show "0 \<le> int64_of_f64 (math_Round (Fin z))" "int64_of_f64 (math_Round (Fin z)) \<le> 1000" by simp_all
qed

lemma final_score_eq:
  assumes "measured i"
  obtains z where "default_base i = Fin z" "0 \<le> z" "z \<le> 1000"
    "reFinalScore (Compute DefaultConfig i) = max (\<lfloor>z + 1 / 2\<rfloor> - (inCrashes i * 10000 + inTimeouts i * 1000)) 0"
proof -
  from assms have nn: "inTPS i \<noteq> NaN" "inCorrectness i \<noteq> NaN" by (auto simp: measured_def)
  obtain l t c where w: "default_base i = weighted l t c" "0 \<le> l" "l \<le> 1" "0 \<le> t" "t \<le> 1" "0 \<le> c" "c \<le> 1"
    using default_base_weighted [OF nn] by blast
  obtain z where z: "default_base i = Fin z" "0 \<le> z" "z \<le> 1000"
    using weighted_parts [OF w(2-7)] w(1) by metis
  let ?p = "inCrashes i * 10000 + inTimeouts i * 1000"
  have p: "0 \<le> ?p" "?p \<le> max_int64" using assms by (auto simp: measured_def)
  then have "in_int64 ?p" by (simp add: in_int64_def min_int64_def)
  moreover have "in_int64 (\<lfloor>z + 1 / 2\<rfloor> - ?p)"
    using rounded_points(1,2) [OF z(2,3)] p
    unfolding rounded_points(3) [OF z(2,3)] in_int64_def min_int64_def max_int64_def
    by (intro conjI) (linarith, rule order_trans [of _ 1000], linarith, simp)
  ultimately have "reFinalScore (Compute DefaultConfig i) = max (\<lfloor>z + 1 / 2\<rfloor> - ?p) 0"
    unfolding Compute_default(3) z(1) rounded_points(3) [OF z(2,3)] by (simp only: wrap64_id)
  with that z show ?thesis by blast
qed

section \<open>Properties\<close>

text \<open>C14: Under the default policy the score of a measurement is between 0 and 1000, and it is 1000 for a
  run at or below zero latency, at or above the target rate, fully correct, without crash or timeout:
  the rounding of the weighted sum loses nothing at the top.\<close>

theorem score_bounds:
  assumes "measured i"
  shows "0 \<le> reFinalScore (Compute DefaultConfig i) \<and> reFinalScore (Compute DefaultConfig i) \<le> 1000
     \<and> (inP99Ns i \<le> 0 \<and> Fin 10000 \<le> inTPS i \<and> Fin 1 \<le> inCorrectness i \<and> inCrashes i = 0 \<and> inTimeouts i = 0
        \<longrightarrow> reFinalScore (Compute DefaultConfig i) = 1000)"
proof (intro conjI impI)
  obtain z where z: "default_base i = Fin z" "0 \<le> z" "z \<le> 1000"
    "reFinalScore (Compute DefaultConfig i) = max (\<lfloor>z + 1 / 2\<rfloor> - (inCrashes i * 10000 + inTimeouts i * 1000)) 0"
    using final_score_eq [OF assms] by blast
  show "0 \<le> reFinalScore (Compute DefaultConfig i)" using z(4) by simp
  have "\<lfloor>z + 1 / 2\<rfloor> \<le> 1000" using rounded_points(2) [OF z(2,3)] unfolding rounded_points(3) [OF z(2,3)] .
  moreover have "0 \<le> inCrashes i" "0 \<le> inTimeouts i" using assms by (auto simp: measured_def)
  ultimately show "reFinalScore (Compute DefaultConfig i) \<le> 1000" unfolding z(4) by linarith
  assume top: "inP99Ns i \<le> 0 \<and> Fin 10000 \<le> inTPS i \<and> Fin 1 \<le> inCorrectness i \<and> inCrashes i = 0 \<and> inTimeouts i = 0"
  have nn: "inTPS i \<noteq> NaN" "inCorrectness i \<noteq> NaN" using assms by (auto simp: measured_def)
  have "lat_ratio 0 = Fin 1" by (simp add: lat_ratio_def f64_of_int_def fsub_def)
  then have "Fin 1 \<le> lat_ratio (inP99Ns i)" using lat_ratio_antimono [of "inP99Ns i" 0] top by simp
  moreover have "Fin 1 \<le> fdiv (inTPS i) (Fin 10000)"
    using fdiv_by_pos_mono [of "Fin 10000" "inTPS i" 10000] top nn by simp
  moreover have "clamp01 x = Fin 1" if "Fin 1 \<le> x" "x \<noteq> NaN" for x
    using that by (cases x) (auto simp: clamp01_def)
  ultimately have "default_base i = fmul (Fin 1000) (fadd (fadd (Fin w4) (Fin w3)) (Fin w3))"
    using nn top fdiv_pos_not_NaN [of "inTPS i" 10000] by (simp add: default_base_def f64_weights_exact)
  also have "\<dots> = Fin 1000" by (simp add: f64_weight_sums f64_1000)
  finally have "z = 1000" using z(1) by simp
  with z(4) top show "reFinalScore (Compute DefaultConfig i) = 1000" by (simp add: floor_eq_iff)
qed

definition sample_inputs :: Inputs where
  "sample_inputs = \<lparr>inP99Ns = 0, inTPS = Fin 20000, inCorrectness = Fin 1, inCrashes = 0, inTimeouts = 0\<rparr>"

lemma sample_inputs_measured: "measured sample_inputs"
  by (simp add: measured_def sample_inputs_def max_int64_def)

theorem score_bounds_witness: "reFinalScore (Compute DefaultConfig sample_inputs) = 1000"
  using score_bounds [OF sample_inputs_measured] by (simp add: sample_inputs_def)

text \<open>C15: The score never falls when the tail latency falls, the rate rises, the correctness rises, or
  crashes and timeouts become fewer, all other things equal or better.\<close>

theorem score_monotone:
  assumes "measured i" "measured j" "inP99Ns j \<le> inP99Ns i" "inTPS i \<le> inTPS j" "inCorrectness i \<le> inCorrectness j"
    "inCrashes j \<le> inCrashes i" "inTimeouts j \<le> inTimeouts i"
  shows "reFinalScore (Compute DefaultConfig i) \<le> reFinalScore (Compute DefaultConfig j)"
proof -
  have ni: "inTPS i \<noteq> NaN" "inCorrectness i \<noteq> NaN" and nj: "inTPS j \<noteq> NaN" "inCorrectness j \<noteq> NaN"
    using assms(1,2) by (auto simp: measured_def)
  obtain l t c where 1: "default_base i = weighted l t c" "0 \<le> l" "0 \<le> t" "0 \<le> c"
    "clamp01 (lat_ratio (inP99Ns i)) = Fin l" "clamp01 (fdiv (inTPS i) (Fin 10000)) = Fin t" "clamp01 (inCorrectness i) = Fin c"
    using default_base_weighted [OF ni] by metis
  obtain l' t' c' where 2: "default_base j = weighted l' t' c'" "l' \<le> 1" "t' \<le> 1" "c' \<le> 1"
    "clamp01 (lat_ratio (inP99Ns j)) = Fin l'" "clamp01 (fdiv (inTPS j) (Fin 10000)) = Fin t'" "clamp01 (inCorrectness j) = Fin c'"
    using default_base_weighted [OF nj] by metis
  have "Fin l \<le> Fin l'" unfolding 1(5) [symmetric] 2(5) [symmetric]
    by (intro clamp01_mono lat_ratio_antimono assms) auto
  moreover have "Fin t \<le> Fin t'" unfolding 1(6) [symmetric] 2(6) [symmetric]
    by (intro clamp01_mono fdiv_by_pos_mono fdiv_pos_not_NaN assms ni nj) auto
  moreover have "Fin c \<le> Fin c'" unfolding 1(7) [symmetric] 2(7) [symmetric]
    by (intro clamp01_mono assms ni nj)
  ultimately have base: "default_base i \<le> default_base j"
    unfolding 1(1) 2(1) by (intro weighted_mono 1 2) simp_all
  obtain z where z: "default_base i = Fin z"
    "reFinalScore (Compute DefaultConfig i) = max (\<lfloor>z + 1 / 2\<rfloor> - (inCrashes i * 10000 + inTimeouts i * 1000)) 0"
    using final_score_eq [OF assms(1)] by blast
  obtain z' where z': "default_base j = Fin z'"
    "reFinalScore (Compute DefaultConfig j) = max (\<lfloor>z' + 1 / 2\<rfloor> - (inCrashes j * 10000 + inTimeouts j * 1000)) 0"
    using final_score_eq [OF assms(2)] by blast
  have "\<lfloor>z + 1 / 2\<rfloor> \<le> \<lfloor>z' + 1 / 2\<rfloor>" using base z(1) z'(1) by (intro floor_mono) simp
  then show ?thesis using assms(6,7) unfolding z(2) z'(2) by linarith
qed

theorem score_monotone_witness:
  "reFinalScore (Compute DefaultConfig (sample_inputs\<lparr>inP99Ns := 7, inTimeouts := 1\<rparr>)) \<le> reFinalScore (Compute DefaultConfig sample_inputs)"
  by (rule score_monotone) (simp_all add: measured_def sample_inputs_def max_int64_def)

text \<open>A single crash or a single timeout leaves no points under the default policy, whatever the other
  measurements are.\<close>

theorem crash_or_timeout_zeroes:
  assumes "measured i" "0 < inCrashes i \<or> 0 < inTimeouts i"
  shows "reFinalScore (Compute DefaultConfig i) = 0"
proof -
  obtain z :: rat where z: "0 \<le> z" "z \<le> 1000"
    "reFinalScore (Compute DefaultConfig i) = max (\<lfloor>z + 1 / 2\<rfloor> - (inCrashes i * 10000 + inTimeouts i * 1000)) 0"
    by (rule final_score_eq [OF assms(1)])
  have "\<lfloor>z + 1 / 2\<rfloor> \<le> 1000" using rounded_points(2) [OF z(1,2)] unfolding rounded_points(3) [OF z(1,2)] .
  moreover have "1000 \<le> inCrashes i * 10000 + inTimeouts i * 1000"
    using assms unfolding measured_def by linarith
  ultimately show ?thesis unfolding z(3) by linarith
qed

theorem crash_or_timeout_zeroes_witness:
  "reFinalScore (Compute DefaultConfig (sample_inputs\<lparr>inTimeouts := 1\<rparr>)) = 0"
  by (rule crash_or_timeout_zeroes) (simp_all add: measured_def sample_inputs_def max_int64_def)

end
