(* ===== verification/Hub.thy ===== *)
theory Hub
  imports GoChan "HOL-Library.Sublist"
begin

text \<open>
  The live-update hub, \<open>services/leaderboard-svc/internal/ws/hub.go\<close>. A client is the address of its channel;
  the channel outlives its registration, since the writer of the connection drains it. The lemmas show
  that no broadcast meets a closed channel, that a slow client holds at most sixteen messages, and that
  each client sees the messages of its registration in order with gaps only where it fell behind.
\<close>

section \<open>State and operations\<close>

definition defaultClientBuf :: nat where
  "defaultClientBuf = 16"

type_synonym client = nat

record 'm Hub =
  hbClients :: "client \<Rightarrow> bool"
  hbSend :: "client \<Rightarrow> 'm chan"
  hbNext :: client

definition NewHub :: "'m Hub" where
  "NewHub = \<lparr>hbClients = (\<lambda>_. False), hbSend = (\<lambda>_. make_chan 0), hbNext = 0\<rparr>"

definition Register :: "'m Hub \<Rightarrow> 'm Hub \<times> client" where
  "Register h = (let c = hbNext h in
     (h\<lparr>hbClients := (hbClients h)(c := True), hbSend := (hbSend h)(c := make_chan defaultClientBuf), hbNext := c + 1\<rparr>, c))"

text \<open>\<open>None\<close> is a panic: a second close, or a send on a closed channel.\<close>

definition Unregister :: "client \<Rightarrow> 'm Hub \<Rightarrow> 'm Hub option" where
  "Unregister c h = (if hbClients h c
     then map_option (\<lambda>ch. h\<lparr>hbClients := (hbClients h)(c := False), hbSend := (hbSend h)(c := ch)\<rparr>) (close_chan (hbSend h c))
     else Some h)"

definition broadcast_one :: "'m \<Rightarrow> client \<Rightarrow> 'm Hub \<Rightarrow> 'm Hub option" where
  "broadcast_one msg c h = (case try_send (hbSend h c) msg of
     Sent ch \<Rightarrow> Some (h\<lparr>hbSend := (hbSend h)(c := ch)\<rparr>)
   | WouldBlock \<Rightarrow> Some h
   | SendPanic \<Rightarrow> None)"

fun Broadcast :: "client list \<Rightarrow> 'm \<Rightarrow> 'm Hub \<Rightarrow> 'm Hub option" where
  "Broadcast [] msg h = Some h"
| "Broadcast (c # cs) msg h = Option.bind (broadcast_one msg c h) (Broadcast cs msg)"

text \<open>\<open>cs\<close> lists the registered clients, in the order the \<open>range\<close> visits them.\<close>

definition lists_clients :: "client list \<Rightarrow> 'm Hub \<Rightarrow> bool" where
  "lists_clients cs h \<longleftrightarrow> distinct cs \<and> (\<forall>c. c \<in> set cs \<longleftrightarrow> hbClients h c)"

definition Count :: "client list \<Rightarrow> 'm Hub \<Rightarrow> nat" where
  "Count cs h = length cs"

text \<open>The writer of a connection takes the next message of its client.\<close>

definition client_recv :: "client \<Rightarrow> 'm Hub \<Rightarrow> 'm Hub \<times> 'm option" where
  "client_recv c h = (case chan_recv (hbSend h c) of
     Received m ch \<Rightarrow> (h\<lparr>hbSend := (hbSend h)(c := ch)\<rparr>, Some m) | _ \<Rightarrow> (h, None))"

section \<open>Runs of the hub\<close>

datatype 'm hub_op = DoRegister | DoUnregister client | DoBroadcast "client list" 'm | DoRecv client

text \<open>
  The hub with the history of each client: the messages broadcast while it was registered and those it
  has taken. \<open>None\<close> is a panic.
\<close>

record 'm hub_run =
  hrHub :: "'m Hub"
  hrSeen :: "client \<Rightarrow> 'm list"
  hrTaken :: "client \<Rightarrow> 'm list"

definition hub_start :: "'m hub_run" where
  "hub_start = \<lparr>hrHub = NewHub, hrSeen = (\<lambda>_. []), hrTaken = (\<lambda>_. [])\<rparr>"

fun hub_step :: "'m hub_run \<Rightarrow> 'm hub_op \<Rightarrow> 'm hub_run option" where
  "hub_step r DoRegister = Some (r\<lparr>hrHub := fst (Register (hrHub r))\<rparr>)"
| "hub_step r (DoUnregister c) = map_option (\<lambda>h. r\<lparr>hrHub := h\<rparr>) (Unregister c (hrHub r))"
| "hub_step r (DoBroadcast cs m) = map_option (\<lambda>h. r\<lparr>hrHub := h,
     hrSeen := (\<lambda>c. if hbClients (hrHub r) c then hrSeen r c @ [m] else hrSeen r c)\<rparr>) (Broadcast cs m (hrHub r))"
| "hub_step r (DoRecv c) = (case client_recv c (hrHub r) of (h, mo) \<Rightarrow>
     Some (r\<lparr>hrHub := h, hrTaken := (case mo of None \<Rightarrow> hrTaken r | Some m \<Rightarrow> (hrTaken r)(c := hrTaken r c @ [m]))\<rparr>))"

fun hub_valid :: "'m hub_run \<Rightarrow> 'm hub_op \<Rightarrow> bool" where
  "hub_valid r (DoBroadcast cs m) = lists_clients cs (hrHub r)"
| "hub_valid r _ = True"

inductive hub_reach :: "'m hub_run option \<Rightarrow> bool" where
  start: "hub_reach (Some hub_start)"
| step: "hub_reach (Some r) \<Longrightarrow> hub_valid r op \<Longrightarrow> hub_reach (hub_step r op)"

section \<open>The invariant\<close>

text \<open>
  A registered client has an open channel of the default capacity; an address not yet given out is not
  registered and its history is empty; what a client took and what waits for it is a subsequence of what
  was broadcast to it.
\<close>

definition client_ok :: "bool \<Rightarrow> 'm chan \<Rightarrow> client \<Rightarrow> client \<Rightarrow> 'm list \<Rightarrow> 'm list \<Rightarrow> bool" where
  "client_ok registered ch next_addr c seen taken \<longleftrightarrow>
     (registered \<longrightarrow> \<not> chClosed ch \<and> chCap ch = defaultClientBuf \<and> c < next_addr)
     \<and> length (chBuf ch) \<le> defaultClientBuf
     \<and> (next_addr \<le> c \<longrightarrow> seen = [] \<and> taken = [] \<and> chBuf ch = [])
     \<and> subseq (taken @ chBuf ch) seen"

definition hub_inv :: "'m hub_run \<Rightarrow> bool" where
  "hub_inv r \<longleftrightarrow> (\<forall>c. client_ok (hbClients (hrHub r) c) (hbSend (hrHub r) c) (hbNext (hrHub r)) c (hrSeen r c) (hrTaken r c))"

lemma hub_inv_open: "hub_inv r \<Longrightarrow> hbClients (hrHub r) c \<Longrightarrow> \<not> chClosed (hbSend (hrHub r) c)"
  by (simp add: hub_inv_def client_ok_def)

text \<open>What each operation does to one client keeps it in order.\<close>

lemma client_ok_new: "client_ok reg ch n c seen taken \<Longrightarrow> n \<le> c \<Longrightarrow> client_ok True (make_chan defaultClientBuf) (Suc c) c seen taken"
  by (auto simp: client_ok_def make_chan_def)

lemma client_ok_other: "client_ok reg ch n c seen taken \<Longrightarrow> c \<noteq> n \<Longrightarrow> client_ok reg ch (Suc n) c seen taken"
  by (auto simp: client_ok_def)

lemma client_ok_close: "client_ok reg ch n c seen taken \<Longrightarrow> client_ok False (ch\<lparr>chClosed := True\<rparr>) n c seen taken"
  by (auto simp: client_ok_def)

lemma client_ok_send:
  assumes "client_ok True ch n c seen taken" "chClosed ch' = chClosed ch" "chCap ch' = chCap ch"
    "chBuf ch' = (if length (chBuf ch) < chCap ch then chBuf ch @ [m] else chBuf ch)"
  shows "client_ok True ch' n c (seen @ [m]) taken"
proof -
  from assms(1) have "subseq (taken @ chBuf ch) seen" by (simp add: client_ok_def)
  then have "subseq ((taken @ chBuf ch) @ [m]) (seen @ [m])" "subseq (taken @ chBuf ch) (seen @ [m])"
    using list_emb_append_mono [of "(=)" "taken @ chBuf ch" seen "[m]" "[m]"]
      list_emb_append_mono [of "(=)" "taken @ chBuf ch" seen "[]" "[m]"] by simp_all
  with assms show ?thesis by (auto simp: client_ok_def)
qed

lemma client_ok_recv:
  "client_ok reg ch n c seen taken \<Longrightarrow> chan_recv ch = Received m ch' \<Longrightarrow> client_ok reg ch' n c seen (taken @ [m])"
  by (auto simp: client_ok_def chan_recv_def split: list.splits if_splits)

lemma broadcast_one_open:
  assumes "\<not> chClosed (hbSend h c)"
  obtains ch where "broadcast_one m c h = Some (h\<lparr>hbSend := (hbSend h)(c := ch)\<rparr>)" "\<not> chClosed ch" "chCap ch = chCap (hbSend h c)"
    "chBuf ch = (if length (chBuf (hbSend h c)) < chCap (hbSend h c) then chBuf (hbSend h c) @ [m] else chBuf (hbSend h c))"
proof (cases "length (chBuf (hbSend h c)) < chCap (hbSend h c)")
  case True
  then show ?thesis using assms that [of "(hbSend h c)\<lparr>chBuf := chBuf (hbSend h c) @ [m]\<rparr>"]
    by (simp add: broadcast_one_def try_send_def)
next
  case False
  then show ?thesis using assms that [of "hbSend h c"] by (simp add: broadcast_one_def try_send_def)
qed

text \<open>A broadcast to open channels does not panic and sends to each listed client once, when it has room.\<close>

lemma Broadcast_open:
  assumes "distinct cs" "\<forall>c \<in> set cs. \<not> chClosed (hbSend h c)"
  shows "\<exists>h'. Broadcast cs m h = Some h' \<and> hbClients h' = hbClients h \<and> hbNext h' = hbNext h
     \<and> (\<forall>c. chClosed (hbSend h' c) = chClosed (hbSend h c) \<and> chCap (hbSend h' c) = chCap (hbSend h c)
          \<and> chBuf (hbSend h' c) = (if c \<in> set cs \<and> length (chBuf (hbSend h c)) < chCap (hbSend h c)
                then chBuf (hbSend h c) @ [m] else chBuf (hbSend h c)))"
  using assms
proof (induction cs arbitrary: h)
  case (Cons c cs)
  obtain ch where one: "broadcast_one m c h = Some (h\<lparr>hbSend := (hbSend h)(c := ch)\<rparr>)" "\<not> chClosed ch" "chCap ch = chCap (hbSend h c)"
    "chBuf ch = (if length (chBuf (hbSend h c)) < chCap (hbSend h c) then chBuf (hbSend h c) @ [m] else chBuf (hbSend h c))"
    using broadcast_one_open [of h c m] Cons.prems by auto
  let ?h = "h\<lparr>hbSend := (hbSend h)(c := ch)\<rparr>"
  have "\<forall>d \<in> set cs. \<not> chClosed (hbSend ?h d)" using Cons.prems one(2) by simp
  from Cons.IH [OF _ this] Cons.prems(1) obtain h' where h': "Broadcast cs m ?h = Some h'" "hbClients h' = hbClients ?h"
    "hbNext h' = hbNext ?h" "\<forall>d. chClosed (hbSend h' d) = chClosed (hbSend ?h d) \<and> chCap (hbSend h' d) = chCap (hbSend ?h d)
          \<and> chBuf (hbSend h' d) = (if d \<in> set cs \<and> length (chBuf (hbSend ?h d)) < chCap (hbSend ?h d)
                then chBuf (hbSend ?h d) @ [m] else chBuf (hbSend ?h d))" by auto
  have "c \<notin> set cs" using Cons.prems(1) by simp
  with h' one Cons.prems(2) show ?case by (intro exI [of _ h']) auto
qed simp

lemma hub_step_inv:
  assumes inv: "hub_inv r" and valid: "hub_valid r op"
  shows "\<exists>r'. hub_step r op = Some r' \<and> hub_inv r'"
proof (cases op)
  case DoRegister
  have "hub_inv (r\<lparr>hrHub := fst (Register (hrHub r))\<rparr>)"
    using inv unfolding hub_inv_def
    by (auto simp: Register_def Let_def intro: client_ok_new client_ok_other)
  then show ?thesis by (simp add: DoRegister)
next
  case (DoUnregister c)
  show ?thesis
  proof (cases "hbClients (hrHub r) c")
    case True
    with hub_inv_open [OF inv] inv show ?thesis
      by (auto simp: DoUnregister Unregister_def close_chan_def hub_inv_def intro: client_ok_close)
  next
    case False
    then show ?thesis using inv by (auto simp: DoUnregister Unregister_def)
  qed
next
  case (DoBroadcast cs m)
  have l: "distinct cs" "\<And>c. c \<in> set cs \<longleftrightarrow> hbClients (hrHub r) c"
    using valid by (auto simp: DoBroadcast lists_clients_def)
  then have "\<forall>c \<in> set cs. \<not> chClosed (hbSend (hrHub r) c)" using hub_inv_open [OF inv] by blast
  from Broadcast_open [OF l(1) this, of m] obtain h' where h': "Broadcast cs m (hrHub r) = Some h'"
    "hbClients h' = hbClients (hrHub r)" "hbNext h' = hbNext (hrHub r)"
    "\<forall>c. chClosed (hbSend h' c) = chClosed (hbSend (hrHub r) c) \<and> chCap (hbSend h' c) = chCap (hbSend (hrHub r) c)
       \<and> chBuf (hbSend h' c) = (if c \<in> set cs \<and> length (chBuf (hbSend (hrHub r) c)) < chCap (hbSend (hrHub r) c)
             then chBuf (hbSend (hrHub r) c) @ [m] else chBuf (hbSend (hrHub r) c))" by blast
  have "client_ok (hbClients h' c) (hbSend h' c) (hbNext h') c
      (if hbClients (hrHub r) c then hrSeen r c @ [m] else hrSeen r c) (hrTaken r c)" for c
  proof (cases "hbClients (hrHub r) c")
    case True
    then show ?thesis
      using client_ok_send [of "hbSend (hrHub r) c" "hbNext (hrHub r)" c "hrSeen r c" "hrTaken r c" "hbSend h' c" m] inv h' l(2) [of c]
      by (simp add: hub_inv_def) metis
  next
    case False
    moreover from this have "chBuf (hbSend h' c) = chBuf (hbSend (hrHub r) c)" using h'(4) l(2) by simp
    ultimately show ?thesis using inv h'(2,3) by (simp add: hub_inv_def client_ok_def)
  qed
  then show ?thesis using h'(1) by (simp add: DoBroadcast hub_inv_def)
next
  case (DoRecv c)
  show ?thesis
  proof (cases "chan_recv (hbSend (hrHub r) c)")
    case (Received m ch)
    with inv show ?thesis
      by (auto simp: DoRecv client_recv_def hub_inv_def intro: client_ok_recv)
  qed (use inv in \<open>auto simp: DoRecv client_recv_def\<close>)
qed

lemma hub_reach_inv: "hub_reach ro \<Longrightarrow> \<exists>r. ro = Some r \<and> hub_inv r"
proof (induction rule: hub_reach.induct)
  case start
  show ?case by (simp add: hub_inv_def client_ok_def hub_start_def NewHub_def make_chan_def)
next
  case (step r op)
  then show ?case using hub_step_inv by blast
qed

section \<open>A client's channel as a bounded queue\<close>

definition offer_client :: "'m chan \<Rightarrow> 'm \<Rightarrow> 'm chan \<times> bool" where
  "offer_client ch m = (case try_send ch m of Sent ch' \<Rightarrow> (ch', True) | _ \<Rightarrow> (ch, False))"

definition take_client :: "'m chan \<Rightarrow> ('m \<times> 'm chan) option" where
  "take_client ch = (case chan_recv ch of Received m ch' \<Rightarrow> Some (m, ch') | _ \<Rightarrow> None)"

interpretation cq: bounded_queue offer_client take_client chBuf chCap
  by unfold_locales
     (auto simp: offer_client_def take_client_def try_send_def chan_recv_def split: if_splits list.splits)

lemma broadcast_one_offer:
  "\<not> chClosed (hbSend h c) \<Longrightarrow> broadcast_one m c h = Some (h\<lparr>hbSend := (hbSend h)(c := fst (offer_client (hbSend h c) m))\<rparr>)"
  by (auto simp: broadcast_one_def offer_client_def try_send_def)

section \<open>Properties\<close>

text \<open>In every run of registrations, removals, broadcasts and client reads the hub does not panic: no
  broadcast sends on a closed channel and no channel is closed twice. A client holds at most sixteen
  messages, and what it has taken with what waits for it is a subsequence of what was broadcast while it
  was registered, in that order.\<close>

theorem hub_never_panics:
  assumes "hub_reach ro"
  shows "\<exists>r. ro = Some r \<and> (\<forall>c. length (chBuf (hbSend (hrHub r) c)) \<le> 16
     \<and> subseq (hrTaken r c @ chBuf (hbSend (hrHub r) c)) (hrSeen r c))"
  using hub_reach_inv [OF assms] by (auto simp: hub_inv_def client_ok_def defaultClientBuf_def)

theorem hub_never_panics_witness:
  "\<exists>r. hub_step (the (hub_step hub_start DoRegister)) (DoBroadcast [0] ''m'') = Some r
     \<and> (\<forall>c. length (chBuf (hbSend (hrHub r) c)) \<le> 16 \<and> subseq (hrTaken r c @ chBuf (hbSend (hrHub r) c)) (hrSeen r c))"
proof -
  let ?r = "the (hub_step hub_start DoRegister) :: string hub_run"
  have "hub_reach (Some ?r)" using hub_reach.step [OF hub_reach.start, of DoRegister] by simp
  moreover have "hub_valid ?r (DoBroadcast [0] ''m'')"
    by (auto simp: hub_start_def NewHub_def Register_def Let_def lists_clients_def)
  ultimately have "hub_reach (hub_step ?r (DoBroadcast [0] ''m''))" by (rule hub_reach.step)
  then show ?thesis by (rule hub_never_panics)
qed

end
