(* ===== verification/Windowing.thy ===== *)
theory Windowing
  imports Telemetry GoTime
begin

text \<open>
  The aggregator's windowing, \<open>services/aggregator/internal/windowing\<close> (\<open>aggregator.go\<close>, \<open>merge.go\<close>): an
  open window per run, rolled by \<open>Flush\<close> into the latest snapshot, a bounded ring of recent windows and
  a whole-run accumulator. The abstract view of a run is the sequence of its closed windows and the
  open one, each a list of events; the state kept for a key is shown to be a function of it, so that
  the whole-run metrics are those of one histogram that recorded every event of the run.

  The histogram package is not part of the repository: its four operations are a parameter, and what
  is relied on is named in \<open>hdr_laws\<close>. A clock reading is an argument of the operation that makes it.
\<close>

section \<open>The histogram interface\<close>

record 'h hdr =
  hNew :: "int64 \<Rightarrow> int64 \<Rightarrow> int \<Rightarrow> 'h"
  hRecord :: "'h \<Rightarrow> int64 \<Rightarrow> 'h"
  hMerge :: "'h \<Rightarrow> 'h \<Rightarrow> 'h"
  hQuantile :: "'h \<Rightarrow> f64 \<Rightarrow> int64"

text \<open>
  A histogram holds a multiset of recorded values, up to the resolution of its buckets: \<open>seen\<close> says
  what recording a value adds, which is nothing for a value out of range. Merging adds up, and the
  quantiles depend on the contents only.
\<close>

definition hdr_laws :: "'h hdr \<Rightarrow> ('h \<Rightarrow> 'b multiset) \<Rightarrow> (int64 \<Rightarrow> 'b multiset) \<Rightarrow> bool" where
  "hdr_laws H bag seen \<longleftrightarrow>
     (\<forall>lo hi digits. bag (hNew H lo hi digits) = {#})
     \<and> (\<forall>h v. bag (hRecord H h v) = bag h + seen v)
     \<and> (\<forall>h h'. bag (hMerge H h h') = bag h + bag h')
     \<and> (\<forall>h h' q. bag h = bag h' \<longrightarrow> hQuantile H h q = hQuantile H h' q)"

definition defaultMinLatNs :: int64 where
  "defaultMinLatNs = 1"

definition defaultMaxLatNs :: int64 where
  "defaultMaxLatNs = 60000000000"

definition defaultSigDigits :: int where
  "defaultSigDigits = 3"

definition new_hist :: "'h hdr \<Rightarrow> 'h" where
  "new_hist H = hNew H defaultMinLatNs defaultMaxLatNs defaultSigDigits"

definition DefaultHistoryWindows :: nat where
  "DefaultHistoryWindows = 60"

section \<open>State\<close>

record WSnapshot =
  sContestantID :: string
  sSubmissionID :: string
  sWindowStart :: instant
  sDuration :: duration
  sCount :: int64
  sRejected :: int64
  sTimeouts :: int64
  sTPS :: f64
  sP50Ns :: int64
  sP90Ns :: int64
  sP99Ns :: int64
  sP999Ns :: int64

record 'h windowState =
  wContestantID :: string
  wSubmissionID :: string
  wStart :: instant
  wHist :: 'h
  wCount :: int64
  wRejected :: int64
  wTimeouts :: int64

record 'h flushed =
  fSnap :: WSnapshot
  fHist :: 'h

record 'h cumState =
  cuContestantID :: string
  cuSubmissionID :: string
  cuHist :: 'h
  cuWindowCount :: int64
  cuTotalCount :: int64
  cuTotalRejected :: int64
  cuTotalTimeouts :: int64
  cuTotalDur :: duration

record MergedSnapshot =
  mContestantID :: string
  mSubmissionID :: string
  mWindowCount :: int64
  mDuration :: duration
  mTotalCount :: int64
  mTotalRejected :: int64
  mTotalTimeouts :: int64
  mAverageTPS :: f64
  mP50Ns :: int64
  mP90Ns :: int64
  mP99Ns :: int64
  mP999Ns :: int64

record 'h Aggregator =
  aWindow :: duration
  aHistoryCap :: nat
  aOpen :: "string \<rightharpoonup> 'h windowState"
  aLatest :: "string \<rightharpoonup> WSnapshot"
  aHistory :: "string \<rightharpoonup> 'h flushed list"
  aCumulative :: "string \<rightharpoonup> 'h cumState"
  aStartAt :: instant

text \<open>
  \<open>New(window, opts...)\<close>: every option is a \<open>WithClock\<close>, given by the reading of its clock, or by
  \<open>None\<close> for a nil clock, which changes nothing.
\<close>

definition WithClock :: "instant option \<Rightarrow> 'h Aggregator \<Rightarrow> 'h Aggregator" where
  "WithClock now a = (case now of None \<Rightarrow> a | Some t \<Rightarrow> a\<lparr>aStartAt := t\<rparr>)"

definition NewAggregator :: "duration \<Rightarrow> instant \<Rightarrow> instant option list \<Rightarrow> 'h Aggregator" where
  "NewAggregator w t opts = fold WithClock opts
     \<lparr>aWindow = (if w \<le> 0 then Second else w), aHistoryCap = DefaultHistoryWindows, aOpen = Map.empty,
      aLatest = Map.empty, aHistory = Map.empty, aCumulative = Map.empty, aStartAt = t\<rparr>"

section \<open>Record\<close>

definition open_window :: "'h hdr \<Rightarrow> instant \<Rightarrow> string \<Rightarrow> string \<Rightarrow> 'h windowState" where
  "open_window H t contestant submission =
     \<lparr>wContestantID = contestant, wSubmissionID = submission, wStart = t, wHist = new_hist H,
      wCount = 0, wRejected = 0, wTimeouts = 0\<rparr>"

definition record_event :: "'h hdr \<Rightarrow> 'h windowState \<Rightarrow> OrderEvent \<Rightarrow> 'h windowState" where
  "record_event H ws e =
     (let ws1 = (if 0 < eLatencyNs e then ws\<lparr>wHist := hRecord H (wHist ws) (eLatencyNs e)\<rparr> else ws);
          ws2 = ws1\<lparr>wCount := wrap64 (wCount ws1 + 1)\<rparr>
      in case eResult e of
           ORDER_RESULT_REJECTED \<Rightarrow> ws2\<lparr>wRejected := wrap64 (wRejected ws2 + 1)\<rparr>
         | ORDER_RESULT_TIMEOUT \<Rightarrow> ws2\<lparr>wTimeouts := wrap64 (wTimeouts ws2 + 1)\<rparr>
         | _ \<Rightarrow> ws2)"

definition Record :: "'h hdr \<Rightarrow> instant \<Rightarrow> OrderEvent option \<Rightarrow> 'h Aggregator \<Rightarrow> 'h Aggregator" where
  "Record H t eo a = (case eo of None \<Rightarrow> a | Some e \<Rightarrow>
     if eContestantId e = '''' then a
     else case runKey e of (key, contestant, submission) \<Rightarrow>
       let ws = (case aOpen a key of Some ws \<Rightarrow> ws | None \<Rightarrow> open_window H t contestant submission)
       in a\<lparr>aOpen := (aOpen a)(key \<mapsto> record_event H ws e)\<rparr>)"

section \<open>Flush\<close>

definition rate :: "int64 \<Rightarrow> duration \<Rightarrow> f64" where
  "rate n dur = (let s = dur_Seconds dur in if flt (Fin 0) s then fdiv (f64_of_int n) s else Fin 0)"

definition p999 :: f64 where
  "p999 = f64_of_rat (999 / 10)"

definition window_dur :: "duration \<Rightarrow> instant \<Rightarrow> 'h windowState \<Rightarrow> duration" where
  "window_dur window now ws = (let dur = time_Sub now (wStart ws) in if dur \<le> 0 then window else dur)"

definition snapshot_of :: "'h hdr \<Rightarrow> duration \<Rightarrow> instant \<Rightarrow> 'h windowState \<Rightarrow> WSnapshot" where
  "snapshot_of H window now ws = (let dur = window_dur window now ws in
     \<lparr>sContestantID = wContestantID ws, sSubmissionID = wSubmissionID ws, sWindowStart = wStart ws,
      sDuration = dur, sCount = wCount ws, sRejected = wRejected ws, sTimeouts = wTimeouts ws,
      sTPS = rate (wCount ws) dur,
      sP50Ns = hQuantile H (wHist ws) (Fin 50), sP90Ns = hQuantile H (wHist ws) (Fin 90),
      sP99Ns = hQuantile H (wHist ws) (Fin 99), sP999Ns = hQuantile H (wHist ws) p999\<rparr>)"

definition push_ring :: "nat \<Rightarrow> 'a list option \<Rightarrow> 'a \<Rightarrow> 'a list" where
  "push_ring cap ro x = (let ring = (case ro of None \<Rightarrow> [] | Some r \<Rightarrow> r) @ [x]
     in if cap < length ring then take_last cap ring else ring)"

definition new_cum :: "'h hdr \<Rightarrow> string \<Rightarrow> string \<Rightarrow> 'h cumState" where
  "new_cum H contestant submission =
     \<lparr>cuContestantID = contestant, cuSubmissionID = submission, cuHist = new_hist H, cuWindowCount = 0,
      cuTotalCount = 0, cuTotalRejected = 0, cuTotalTimeouts = 0, cuTotalDur = 0\<rparr>"

definition fold_window :: "'h hdr \<Rightarrow> 'h cumState \<Rightarrow> 'h windowState \<Rightarrow> duration \<Rightarrow> 'h cumState" where
  "fold_window H cs ws dur =
     cs\<lparr>cuHist := hMerge H (cuHist cs) (wHist ws), cuWindowCount := wrap64 (cuWindowCount cs + 1),
        cuTotalCount := wrap64 (cuTotalCount cs + wCount ws),
        cuTotalRejected := wrap64 (cuTotalRejected cs + wRejected ws),
        cuTotalTimeouts := wrap64 (cuTotalTimeouts cs + wTimeouts ws),
        cuTotalDur := wrap64 (cuTotalDur cs + dur)\<rparr>"

text \<open>The body of the loop for one key, with the snapshots appended so far.\<close>

definition flush_one :: "'h hdr \<Rightarrow> instant \<Rightarrow> string \<Rightarrow> 'h Aggregator \<times> WSnapshot list \<Rightarrow> 'h Aggregator \<times> WSnapshot list" where
  "flush_one H now key ao = (case ao of (a, out) \<Rightarrow> case aOpen a key of None \<Rightarrow> (a, out) | Some ws \<Rightarrow>
     let snap = snapshot_of H (aWindow a) now ws;
         ring = push_ring (aHistoryCap a) (aHistory a key) \<lparr>fSnap = snap, fHist = wHist ws\<rparr>;
         cs = (case aCumulative a key of Some cs \<Rightarrow> cs | None \<Rightarrow> new_cum H (wContestantID ws) (wSubmissionID ws))
     in (a\<lparr>aLatest := (aLatest a)(key \<mapsto> snap), aHistory := (aHistory a)(key \<mapsto> ring),
           aCumulative := (aCumulative a)(key \<mapsto> fold_window H cs ws (window_dur (aWindow a) now ws))\<rparr>,
         out @ [snap]))"

definition Flush :: "'h hdr \<Rightarrow> string list \<Rightarrow> instant \<Rightarrow> 'h Aggregator \<Rightarrow> 'h Aggregator \<times> WSnapshot list" where
  "Flush H ks now a = (if ks = [] then (a, [])
     else case fold (flush_one H now) ks (a, []) of (a', out) \<Rightarrow> (a'\<lparr>aOpen := Map.empty\<rparr>, out))"

section \<open>Queries\<close>

text \<open>The scan of \<open>latestRunKeyForContestant\<close> over the latest snapshots, in the order they come.\<close>

fun latest_run_loop :: "string \<Rightarrow> (string \<times> instant) option \<Rightarrow> (string \<times> WSnapshot) list \<Rightarrow> (string \<times> instant) option" where
  "latest_run_loop cid best [] = best"
| "latest_run_loop cid best ((key, snap) # rest) =
     (if sContestantID snap \<noteq> cid then latest_run_loop cid best rest
      else case best of
             None \<Rightarrow> latest_run_loop cid (Some (key, sWindowStart snap)) rest
           | Some (bestKey, bestStart) \<Rightarrow>
               if bestStart < sWindowStart snap then latest_run_loop cid (Some (key, sWindowStart snap)) rest
               else latest_run_loop cid best rest)"

definition range_items :: "string list \<Rightarrow> (string \<rightharpoonup> 'v) \<Rightarrow> (string \<times> 'v) list" where
  "range_items ks m = List.map_filter (\<lambda>k. map_option (Pair k) (m k)) ks"

definition latestRunKeyForContestant :: "string list \<Rightarrow> 'h Aggregator \<Rightarrow> string \<Rightarrow> string option" where
  "latestRunKeyForContestant ls a cid = map_option fst (latest_run_loop cid None (range_items ls (aLatest a)))"

fun merge_loop :: "'h hdr \<Rightarrow> 'h \<Rightarrow> 'h option list \<Rightarrow> 'h" where
  "merge_loop H merged [] = merged"
| "merge_loop H merged (None # hs) = merge_loop H merged hs"
| "merge_loop H merged (Some h # hs) = merge_loop H (hMerge H merged h) hs"

definition MergeHistograms :: "'h hdr \<Rightarrow> 'h option list \<Rightarrow> 'h option" where
  "MergeHistograms H hs = (if hs = [] then None else Some (merge_loop H (new_hist H) hs))"

definition merged :: "'h hdr \<Rightarrow> 'h cumState \<Rightarrow> MergedSnapshot" where
  "merged H c =
     \<lparr>mContestantID = cuContestantID c, mSubmissionID = cuSubmissionID c, mWindowCount = cuWindowCount c,
      mDuration = cuTotalDur c, mTotalCount = cuTotalCount c, mTotalRejected = cuTotalRejected c,
      mTotalTimeouts = cuTotalTimeouts c, mAverageTPS = rate (cuTotalCount c) (cuTotalDur c),
      mP50Ns = hQuantile H (cuHist c) (Fin 50), mP90Ns = hQuantile H (cuHist c) (Fin 90),
      mP99Ns = hQuantile H (cuHist c) (Fin 99), mP999Ns = hQuantile H (cuHist c) p999\<rparr>"

definition sum64 :: "('a \<Rightarrow> int64) \<Rightarrow> 'a list \<Rightarrow> int64" where
  "sum64 f xs = foldl (\<lambda>acc x. wrap64 (acc + f x)) 0 xs"

text \<open>The merge of a non-empty slice of the ring.\<close>

definition merge_slice :: "'h hdr \<Rightarrow> 'h flushed list \<Rightarrow> MergedSnapshot option" where
  "merge_slice H ring =
     (let totalCount = sum64 (sCount \<circ> fSnap) ring; totalDur = sum64 (sDuration \<circ> fSnap) ring
      in case MergeHistograms H (map (Some \<circ> fHist) ring) of
           None \<Rightarrow> None
         | Some m \<Rightarrow> let newest = fSnap (last ring) in Some
            \<lparr>mContestantID = sContestantID newest, mSubmissionID = sSubmissionID newest,
             mWindowCount = int (length ring), mDuration = totalDur, mTotalCount = totalCount,
             mTotalRejected = sum64 (sRejected \<circ> fSnap) ring, mTotalTimeouts = sum64 (sTimeouts \<circ> fSnap) ring,
             mAverageTPS = rate totalCount totalDur,
             mP50Ns = hQuantile H m (Fin 50), mP90Ns = hQuantile H m (Fin 90),
             mP99Ns = hQuantile H m (Fin 99), mP999Ns = hQuantile H m p999\<rparr>)"

text \<open>\<open>ls\<close> is the order in which the latest snapshots would be scanned.\<close>

definition MergedRecent :: "'h hdr \<Rightarrow> string list \<Rightarrow> 'h Aggregator \<Rightarrow> string \<Rightarrow> int \<Rightarrow> MergedSnapshot option" where
  "MergedRecent H ls a key windows =
     (case (if aHistory a key \<noteq> None then Some key else latestRunKeyForContestant ls a key) of
        None \<Rightarrow> None
      | Some effKey \<Rightarrow>
          if windows \<le> 0
          then (case aCumulative a effKey of
                  None \<Rightarrow> None
                | Some cs \<Rightarrow> if cuWindowCount cs = 0 then None else Some (merged H cs))
          else (let ring = (case aHistory a effKey of None \<Rightarrow> [] | Some r \<Rightarrow> r)
                in if ring = [] then None
                   else let windows' = (if int (length ring) < windows then int (length ring) else windows)
                        in merge_slice H (take_last (nat windows') ring)))"

text \<open>\<open>ids\<close> is the order in which the runs are listed; each entry is read with a scan order of its own.\<close>

definition AllMerged :: "'h hdr \<Rightarrow> string list \<Rightarrow> string list \<Rightarrow> 'h Aggregator \<Rightarrow> int \<Rightarrow> MergedSnapshot list" where
  "AllMerged H ids ls a windows = List.map_filter (\<lambda>k. MergedRecent H ls a k windows) ids"

definition Latest :: "string list \<Rightarrow> 'h Aggregator \<Rightarrow> string \<Rightarrow> WSnapshot option" where
  "Latest ls a i = (case aLatest a i of Some s \<Rightarrow> Some s
     | None \<Rightarrow> (case latestRunKeyForContestant ls a i of Some key \<Rightarrow> aLatest a key | None \<Rightarrow> None))"

definition All_latest :: "string list \<Rightarrow> 'h Aggregator \<Rightarrow> WSnapshot list" where
  "All_latest ls a = range_values ls (aLatest a)"

section \<open>The part of the state kept for a key\<close>

text \<open>
  A run of the aggregator is a sequence of recordings and flushes, as the ticker and the consumers
  interleave them; a flush names the order in which the open windows are visited.
\<close>

datatype agg_event = RecordAt instant "OrderEvent option" | FlushAt instant "string list"

fun agg_step :: "'h hdr \<Rightarrow> 'h Aggregator \<Rightarrow> agg_event \<Rightarrow> 'h Aggregator" where
  "agg_step H a (RecordAt t eo) = Record H t eo a"
| "agg_step H a (FlushAt now ks) = fst (Flush H ks now a)"

fun agg_valid :: "'h Aggregator \<Rightarrow> agg_event \<Rightarrow> bool" where
  "agg_valid a (RecordAt t eo) = True"
| "agg_valid a (FlushAt now ks) = enumerates ks (aOpen a)"

record 'h run_part =
  pWindow :: duration
  pCap :: nat
  pOpen :: "'h windowState option"
  pLatest :: "WSnapshot option"
  pHistory :: "'h flushed list option"
  pCum :: "'h cumState option"

definition part_at :: "'h Aggregator \<Rightarrow> string \<Rightarrow> 'h run_part" where
  "part_at a k = \<lparr>pWindow = aWindow a, pCap = aHistoryCap a, pOpen = aOpen a k, pLatest = aLatest a k,
     pHistory = aHistory a k, pCum = aCumulative a k\<rparr>"

definition flush_part :: "'h hdr \<Rightarrow> instant \<Rightarrow> 'h run_part \<Rightarrow> 'h run_part" where
  "flush_part H now p = (case pOpen p of None \<Rightarrow> p | Some ws \<Rightarrow>
     let snap = snapshot_of H (pWindow p) now ws;
         cs = (case pCum p of Some cs \<Rightarrow> cs | None \<Rightarrow> new_cum H (wContestantID ws) (wSubmissionID ws))
     in p\<lparr>pOpen := None, pLatest := Some snap,
          pHistory := Some (push_ring (pCap p) (pHistory p) \<lparr>fSnap = snap, fHist = wHist ws\<rparr>),
          pCum := Some (fold_window H cs ws (window_dur (pWindow p) now ws))\<rparr>)"

fun part_step :: "'h hdr \<Rightarrow> string \<Rightarrow> 'h run_part \<Rightarrow> agg_event \<Rightarrow> 'h run_part" where
  "part_step H k p (RecordAt t eo) = (if event_key eo = Some k
     then p\<lparr>pOpen := Some (record_event H (case pOpen p of Some ws \<Rightarrow> ws
            | None \<Rightarrow> open_window H t (eContestantId (the eo)) (eSubmissionId (the eo))) (the eo))\<rparr> else p)"
| "part_step H k p (FlushAt now ks) = flush_part H now p"

lemma event_key_cases:
  "event_key eo = None \<and> (eo = None \<or> eContestantId (the eo) = '''')
   \<or> (\<exists>e. eo = Some e \<and> eContestantId e \<noteq> '''' \<and> event_key eo = Some (fst (runKey e)))"
  by (auto simp: event_key_def split: option.splits)

lemma runKey_fields: "runKey e = (fst (runKey e), eContestantId e, eSubmissionId e)"
  by (simp add: runKey_def Let_def)

lemma Record_pointwise: "part_at (Record H t eo a) k = part_step H k (part_at a k) (RecordAt t eo)"
proof (cases "event_key eo")
  case None
  then show ?thesis
    using event_key_cases [of eo] by (auto simp: Record_def split: option.splits)
next
  case (Some key)
  then obtain e where e: "eo = Some e" "eContestantId e \<noteq> ''''" "key = fst (runKey e)"
    using event_key_cases [of eo] by auto
  have "Record H t eo a = a\<lparr>aOpen := (aOpen a)(key \<mapsto> record_event H (case aOpen a key of Some ws \<Rightarrow> ws
      | None \<Rightarrow> open_window H t (eContestantId e) (eSubmissionId e)) e)\<rparr>"
    using e(2) by (subst Record_def, subst runKey_fields) (simp add: e(1) e(3) [symmetric])
  with Some e(1) show ?thesis by (auto simp: part_at_def split: option.splits)
qed

lemma flush_one_open [simp]: "aOpen (fst (flush_one H now k ao)) = aOpen (fst ao)"
  by (auto simp: flush_one_def Let_def split: prod.splits option.splits)

lemma flush_one_part:
  "(part_at (fst (flush_one H now k ao)) j)\<lparr>pOpen := None\<rparr> =
     (if j = k then flush_part H now (part_at (fst ao) j) else part_at (fst ao) j)\<lparr>pOpen := None\<rparr>"
  by (auto simp: flush_one_def flush_part_def part_at_def Let_def split: prod.splits option.splits)

lemma flush_part_cong:
  "p\<lparr>pOpen := None\<rparr> = q\<lparr>pOpen := None\<rparr> \<Longrightarrow> pOpen p = pOpen q \<Longrightarrow> flush_part H now p = flush_part H now q"
  by (cases p; cases q) simp

lemma fold_flush_one_part:
  assumes "distinct ks"
  shows "(part_at (fst (fold (flush_one H now) ks ao)) j)\<lparr>pOpen := None\<rparr> =
     (if j \<in> set ks then flush_part H now (part_at (fst ao) j) else part_at (fst ao) j)\<lparr>pOpen := None\<rparr>
   \<and> aOpen (fst (fold (flush_one H now) ks ao)) = aOpen (fst ao)"
  using assms
proof (induction ks arbitrary: ao)
  case (Cons k ks)
  let ?ao = "flush_one H now k ao"
  have o: "pOpen (part_at (fst ?ao) j) = pOpen (part_at (fst ao) j)" by (simp add: part_at_def)
  have IH: "(part_at (fst (fold (flush_one H now) ks ?ao)) j)\<lparr>pOpen := None\<rparr> =
      (if j \<in> set ks then flush_part H now (part_at (fst ?ao) j) else part_at (fst ?ao) j)\<lparr>pOpen := None\<rparr>"
    and IH': "aOpen (fst (fold (flush_one H now) ks ?ao)) = aOpen (fst ?ao)"
    using Cons by auto
  show ?case
  proof (cases "j = k")
    case True
    with Cons.prems IH flush_one_part [of H now k ao j] IH' show ?thesis by simp
  next
    case False
    have "flush_part H now (part_at (fst ?ao) j) = flush_part H now (part_at (fst ao) j)"
      using flush_part_cong [OF _ o] flush_one_part [of H now k ao j] False by simp
    with False IH IH' flush_one_part [of H now k ao j] show ?thesis by simp
  qed
qed simp

lemma Flush_pointwise:
  assumes "enumerates ks (aOpen a)"
  shows "part_at (fst (Flush H ks now a)) k = flush_part H now (part_at a k)"
proof -
  from assms have d: "distinct ks" and s: "set ks = dom (aOpen a)" by (auto simp: enumerates_def)
  show ?thesis
  proof (cases "ks = []")
    case True
    with s have "aOpen a k = None" by auto
    then show ?thesis by (simp add: Flush_def True flush_part_def part_at_def)
  next
    case False
    have F: "part_at (fst (Flush H ks now a)) k = (part_at (fst (fold (flush_one H now) ks (a, []))) k)\<lparr>pOpen := None\<rparr>"
      using False by (simp add: Flush_def part_at_def split: prod.splits)
    have N: "(flush_part H now p)\<lparr>pOpen := None\<rparr> = flush_part H now p" for p
      by (auto simp: flush_part_def Let_def split: option.splits)
    show ?thesis
    proof (cases "k \<in> set ks")
      case True
      then show ?thesis using F fold_flush_one_part [OF d, of H now "(a, [])" k] by (simp add: N)
    next
      case out: False
      then have "aOpen a k = None" using s by auto
      then have "flush_part H now (part_at a k) = part_at a k" by (simp add: flush_part_def part_at_def)
      moreover from this have "(part_at a k)\<lparr>pOpen := None\<rparr> = part_at a k" using N by metis
      ultimately show ?thesis using F out fold_flush_one_part [OF d, of H now "(a, [])" k] by simp
    qed
  qed
qed

interpretation agg: pointwise_state "agg_step H" part_at "part_step H" agg_valid for H
proof
  fix a :: "'a Aggregator" and ev k
  assume "agg_valid a ev"
  then show "part_at (agg_step H a ev) k = part_step H k (part_at a k) ev"
    by (cases ev) (simp_all add: Flush_pointwise Record_pointwise del: part_step.simps(1))
qed

section \<open>Closed windows as the abstract state\<close>

text \<open>
  The abstract state of a run: its open window, with the time it was opened and its events, and its
  wins windows, each with the time of the flush that wins it.
\<close>

type_synonym open_win = "instant \<times> OrderEvent list"
type_synonym closed_win = "instant \<times> OrderEvent list \<times> instant"
type_synonym run_view = "open_win option \<times> closed_win list"

fun view_step :: "string \<Rightarrow> run_view \<Rightarrow> agg_event \<Rightarrow> run_view" where
  "view_step k (cur, wins) (RecordAt t eo) = (if event_key eo = Some k
     then (Some (case cur of None \<Rightarrow> (t, [the eo]) | Some (t0, es) \<Rightarrow> (t0, es @ [the eo])), wins)
     else (cur, wins))"
| "view_step k (cur, wins) (FlushAt now ks) =
     (case cur of None \<Rightarrow> (None, wins) | Some (t0, es) \<Rightarrow> (None, wins @ [(t0, es, now)]))"

definition run_view :: "string \<Rightarrow> agg_event list \<Rightarrow> run_view" where
  "run_view k evs = foldl (view_step k) (None, []) evs"

definition win_state :: "'h hdr \<Rightarrow> open_win \<Rightarrow> 'h windowState" where
  "win_state H w = (case w of (t, es) \<Rightarrow>
     foldl (record_event H) (open_window H t (eContestantId (hd es)) (eSubmissionId (hd es))) es)"

definition closed_snap :: "'h hdr \<Rightarrow> duration \<Rightarrow> closed_win \<Rightarrow> WSnapshot" where
  "closed_snap H W c = (case c of (t, es, now) \<Rightarrow> snapshot_of H W now (win_state H (t, es)))"

definition closed_flushed :: "'h hdr \<Rightarrow> duration \<Rightarrow> closed_win \<Rightarrow> 'h flushed" where
  "closed_flushed H W c = (case c of (t, es, now) \<Rightarrow>
     \<lparr>fSnap = closed_snap H W c, fHist = wHist (win_state H (t, es))\<rparr>)"

definition cum_add :: "'h hdr \<Rightarrow> duration \<Rightarrow> 'h cumState \<Rightarrow> closed_win \<Rightarrow> 'h cumState" where
  "cum_add H W cs c = (case c of (t, es, now) \<Rightarrow>
     let ws = win_state H (t, es) in fold_window H cs ws (window_dur W now ws))"

definition cum_of :: "'h hdr \<Rightarrow> duration \<Rightarrow> closed_win list \<Rightarrow> 'h cumState" where
  "cum_of H W cs = foldl (cum_add H W)
     (new_cum H (eContestantId (hd (fst (snd (hd cs))))) (eSubmissionId (hd (fst (snd (hd cs)))))) cs"

definition part_of :: "'h hdr \<Rightarrow> duration \<Rightarrow> nat \<Rightarrow> run_view \<Rightarrow> 'h run_part" where
  "part_of H W cap v = (case v of (cur, wins) \<Rightarrow>
     \<lparr>pWindow = W, pCap = cap, pOpen = map_option (win_state H) cur,
      pLatest = (if wins = [] then None else Some (closed_snap H W (last wins))),
      pHistory = (if wins = [] then None else Some (take_last cap (map (closed_flushed H W) wins))),
      pCum = (if wins = [] then None else Some (cum_of H W wins))\<rparr>)"

text \<open>Every window of a view has an event.\<close>

fun view_ok :: "run_view \<Rightarrow> bool" where
  "view_ok (cur, wins) \<longleftrightarrow> (\<forall>t es. cur = Some (t, es) \<longrightarrow> es \<noteq> []) \<and> (\<forall>(t, es, now) \<in> set wins. es \<noteq> [])"

lemma view_step_ok: "view_ok v \<Longrightarrow> view_ok (view_step k v ev)"
  by (cases v; cases ev) (auto split: option.splits)

lemma record_event_ids [simp]:
  "wContestantID (record_event H ws e) = wContestantID ws"
  "wSubmissionID (record_event H ws e) = wSubmissionID ws"
  "wStart (record_event H ws e) = wStart ws"
  by (simp_all add: record_event_def Let_def split: OrderResult.splits)

lemma win_state_ids [simp]:
  "wContestantID (win_state H (t, es)) = eContestantId (hd es)"
  "wSubmissionID (win_state H (t, es)) = eSubmissionId (hd es)"
  "wStart (win_state H (t, es)) = t"
proof -
  have "wContestantID (foldl (record_event H) ws es) = wContestantID ws
      \<and> wSubmissionID (foldl (record_event H) ws es) = wSubmissionID ws
      \<and> wStart (foldl (record_event H) ws es) = wStart ws" for ws
    by (induction es arbitrary: ws) simp_all
  then show "wContestantID (win_state H (t, es)) = eContestantId (hd es)"
    "wSubmissionID (win_state H (t, es)) = eSubmissionId (hd es)"
    "wStart (win_state H (t, es)) = t"
    by (simp_all add: win_state_def open_window_def)
qed

lemma win_state_snoc: "es \<noteq> [] \<Longrightarrow> win_state H (t, es @ [e]) = record_event H (win_state H (t, es)) e"
  by (simp add: win_state_def)

lemma push_ring_eq: "push_ring cap ro x = take_last cap ((case ro of None \<Rightarrow> [] | Some r \<Rightarrow> r) @ [x])"
  by (simp add: push_ring_def Let_def not_less)

lemma push_ring_some: "0 < cap \<Longrightarrow> push_ring cap (Some (take_last cap xs)) x = take_last cap (xs @ [x])"
  by (simp add: push_ring_eq take_last_append_take_last)

lemma push_ring_none: "0 < cap \<Longrightarrow> push_ring cap None x = [x]"
  by (simp add: push_ring_def)

lemma part_step_refines:
  assumes "view_ok v" "0 < cap"
  shows "part_step H k (part_of H W cap v) ev = part_of H W cap (view_step k v ev)"
proof (cases ev)
  case (RecordAt t eo)
  obtain cur wins where v: "v = (cur, wins)" by fastforce
  show ?thesis
  proof (cases cur)
    case None
    then show ?thesis by (simp add: RecordAt v part_of_def win_state_def)
  next
    case (Some w)
    obtain t0 es where w: "w = (t0, es)" by fastforce
    have "es \<noteq> []" using assms(1) by (simp add: v Some w)
    then show ?thesis by (simp add: RecordAt v Some w part_of_def win_state_snoc)
  qed
next
  case (FlushAt now ks)
  obtain cur wins where v: "v = (cur, wins)" by fastforce
  show ?thesis
  proof (cases cur)
    case None
    then show ?thesis by (simp add: FlushAt v part_of_def flush_part_def)
  next
    case (Some w)
    obtain t es where w: "w = (t, es)" by fastforce
    have ne: "es \<noteq> []" using assms(1) by (simp add: v Some w)
    show ?thesis
    proof (cases "wins = []")
      case True
      then show ?thesis using assms(2)
        by (simp add: FlushAt v Some w part_of_def flush_part_def Let_def push_ring_none cum_of_def cum_add_def
            closed_snap_def closed_flushed_def)
    next
      case False
      then have "cum_of H W (wins @ [(t, es, now)]) = cum_add H W (cum_of H W wins) (t, es, now)"
        by (simp add: cum_of_def)
      with False assms(2) show ?thesis
        by (simp add: FlushAt v Some w part_of_def flush_part_def Let_def push_ring_some cum_add_def
            closed_snap_def closed_flushed_def)
    qed
  qed
qed

lemma part_run_refines:
  assumes "0 < cap"
  shows "foldl (part_step H k) (part_of H W cap (None, [])) evs = part_of H W cap (run_view k evs) \<and> view_ok (run_view k evs)"
  using assms
  by (induction evs rule: rev_induct) (auto simp: run_view_def part_step_refines view_step_ok)

lemma fold_WithClock_fields [simp]:
  "aWindow (fold WithClock opts a) = aWindow a" "aHistoryCap (fold WithClock opts a) = aHistoryCap a"
  "aOpen (fold WithClock opts a) = aOpen a" "aLatest (fold WithClock opts a) = aLatest a"
  "aHistory (fold WithClock opts a) = aHistory a" "aCumulative (fold WithClock opts a) = aCumulative a"
  by (induction opts arbitrary: a) (auto simp: WithClock_def split: option.splits)

lemma NewAggregator_fields [simp]:
  "aWindow (NewAggregator w t opts) = (if w \<le> 0 then Second else w)"
  "aHistoryCap (NewAggregator w t opts) = DefaultHistoryWindows"
  "aOpen (NewAggregator w t opts) = Map.empty" "aLatest (NewAggregator w t opts) = Map.empty"
  "aHistory (NewAggregator w t opts) = Map.empty" "aCumulative (NewAggregator w t opts) = Map.empty"
  by (simp_all add: NewAggregator_def)

text \<open>The state for a key after any run of a new aggregator is the one its view describes.\<close>

lemma agg_run_refines:
  assumes "agg.valid_run H (NewAggregator w t opts) evs"
  shows "part_at (foldl (agg_step H) (NewAggregator w t opts) evs) k =
     part_of H (if w \<le> 0 then Second else w) DefaultHistoryWindows (run_view k evs)"
proof -
  have "part_at (NewAggregator w t opts) k =
      part_of H (if w \<le> 0 then Second else w) DefaultHistoryWindows (None, [])"
    by (simp add: part_at_def part_of_def)
  then show ?thesis
    using agg.run_pointwise [OF assms, of k] part_run_refines [of DefaultHistoryWindows H k _ evs]
    by (simp add: DefaultHistoryWindows_def)
qed

section \<open>What a window and the accumulator hold\<close>

definition latencies :: "OrderEvent list \<Rightarrow> int64 list" where
  "latencies es = filter ((<) 0) (map eLatencyNs es)"

definition with_result :: "OrderResult \<Rightarrow> OrderEvent list \<Rightarrow> int" where
  "with_result r es = int (length (filter (\<lambda>e. eResult e = r) es))"

definition one_hist :: "'h hdr \<Rightarrow> OrderEvent list \<Rightarrow> 'h" where
  "one_hist H es = foldl (hRecord H) (new_hist H) (latencies es)"

lemma latencies_append [simp]: "latencies (xs @ ys) = latencies xs @ latencies ys"
  by (simp add: latencies_def)

lemma with_result_append [simp]: "with_result r (xs @ ys) = with_result r xs + with_result r ys"
  by (simp add: with_result_def)

lemma with_result_le: "0 \<le> with_result r es" "with_result r es \<le> int (length es)"
  by (simp_all add: with_result_def)

lemma window_foldl:
  "wHist (foldl (record_event H) (open_window H t c s) es) = one_hist H es
   \<and> wCount (foldl (record_event H) (open_window H t c s) es) = wrap64 (int (length es))
   \<and> wRejected (foldl (record_event H) (open_window H t c s) es) = wrap64 (with_result ORDER_RESULT_REJECTED es)
   \<and> wTimeouts (foldl (record_event H) (open_window H t c s) es) = wrap64 (with_result ORDER_RESULT_TIMEOUT es)"
proof (induction es rule: rev_induct)
  case Nil
  show ?case by (simp add: open_window_def one_hist_def latencies_def with_result_def)
next
  case (snoc e es)
  then show ?case
    by (cases "eResult e")
       (simp_all add: record_event_def one_hist_def latencies_def with_result_def Let_def algebra_simps)
qed

lemma win_state_holds [simp]:
  "wHist (win_state H (t, es)) = one_hist H es"
  "wCount (win_state H (t, es)) = wrap64 (int (length es))"
  "wRejected (win_state H (t, es)) = wrap64 (with_result ORDER_RESULT_REJECTED es)"
  "wTimeouts (win_state H (t, es)) = wrap64 (with_result ORDER_RESULT_TIMEOUT es)"
  using window_foldl [of H t "eContestantId (hd es)" "eSubmissionId (hd es)" es]
  by (simp_all add: win_state_def)

text \<open>The events of the closed windows, in order.\<close>

definition events_of :: "closed_win list \<Rightarrow> OrderEvent list" where
  "events_of wins = concat (map (fst \<circ> snd) wins)"

lemma events_of_simps [simp]:
  "events_of [] = []" "events_of (w # ws) = fst (snd w) @ events_of ws"
  "events_of (xs @ ys) = events_of xs @ events_of ys"
  by (simp_all add: events_of_def)

lemma cum_foldl:
  "cuWindowCount (foldl (cum_add H W) (new_cum H c s) wins) = wrap64 (int (length wins))
   \<and> cuTotalCount (foldl (cum_add H W) (new_cum H c s) wins) = wrap64 (int (length (events_of wins)))
   \<and> cuTotalRejected (foldl (cum_add H W) (new_cum H c s) wins) = wrap64 (with_result ORDER_RESULT_REJECTED (events_of wins))
   \<and> cuTotalTimeouts (foldl (cum_add H W) (new_cum H c s) wins) = wrap64 (with_result ORDER_RESULT_TIMEOUT (events_of wins))
   \<and> cuHist (foldl (cum_add H W) (new_cum H c s) wins) = foldl (hMerge H) (new_hist H) (map (\<lambda>w. one_hist H (fst (snd w))) wins)"
proof (induction wins rule: rev_induct)
  case Nil
  show ?case by (simp add: new_cum_def with_result_def)
next
  case (snoc w wins)
  then show ?case
    by (cases w) (simp add: cum_add_def fold_window_def Let_def algebra_simps)
qed

lemmas cum_of_holds = cum_foldl [where c = "eContestantId (hd (fst (snd (hd wins))))"
  and s = "eSubmissionId (hd (fst (snd (hd wins))))" and wins = wins for wins, folded cum_of_def]

lemma cum_of_ids:
  "cuContestantID (cum_of H W wins) = eContestantId (hd (fst (snd (hd wins))))"
  "cuSubmissionID (cum_of H W wins) = eSubmissionId (hd (fst (snd (hd wins))))"
proof -
  have "cuContestantID (foldl (cum_add H W) cs xs) = cuContestantID cs
      \<and> cuSubmissionID (foldl (cum_add H W) cs xs) = cuSubmissionID cs" for cs xs
    by (induction xs arbitrary: cs) (auto simp: cum_add_def fold_window_def Let_def split: prod.splits)
  then show "cuContestantID (cum_of H W wins) = eContestantId (hd (fst (snd (hd wins))))"
    "cuSubmissionID (cum_of H W wins) = eSubmissionId (hd (fst (snd (hd wins))))"
    by (simp_all add: cum_of_def new_cum_def)
qed

lemma sum64_wrap: "sum64 f xs = wrap64 (\<Sum>x\<leftarrow>xs. f x)"
proof (induction xs rule: rev_induct)
  case (snoc x xs)
  then show ?case by (simp add: sum64_def)
qed (simp add: sum64_def)

section \<open>Merged histograms\<close>

lemma hdr_lawsD:
  assumes "hdr_laws H bag seen"
  shows "bag (new_hist H) = {#}" "bag (hRecord H h v) = bag h + seen v" "bag (hMerge H h h') = bag h + bag h'"
    "bag h = bag h' \<Longrightarrow> hQuantile H h q = hQuantile H h' q"
  using assms unfolding hdr_laws_def new_hist_def by blast+

lemma bag_one_hist:
  assumes "hdr_laws H bag seen"
  shows "bag (one_hist H es) = (\<Sum>v\<leftarrow>latencies es. seen v)"
proof -
  note L = hdr_lawsD(1-3) [OF assms]
  have "bag (foldl (hRecord H) h vs) = bag h + (\<Sum>v\<leftarrow>vs. seen v)" for h vs
    by (induction vs arbitrary: h) (simp_all add: L add.assoc)
  then show ?thesis by (simp add: one_hist_def L)
qed

lemma bag_merge_foldl:
  assumes "hdr_laws H bag seen"
  shows "bag (foldl (hMerge H) (new_hist H) hs) = (\<Sum>h\<leftarrow>hs. bag h)"
proof -
  note L = hdr_lawsD(1-3) [OF assms]
  have "bag (foldl (hMerge H) h hs) = bag h + (\<Sum>h\<leftarrow>hs. bag h)" for h
    by (induction hs arbitrary: h) (simp_all add: L add.assoc)
  then show ?thesis by (simp add: L)
qed

lemma quantile_of_merge:
  assumes "hdr_laws H bag seen"
  shows "hQuantile H (foldl (hMerge H) (new_hist H) (map (\<lambda>w. one_hist H (fst (snd w))) wins)) q =
         hQuantile H (one_hist H (events_of wins)) q"
proof -
  have "(\<Sum>w\<leftarrow>wins. bag (one_hist H (fst (snd w)))) = (\<Sum>v\<leftarrow>latencies (events_of wins). seen v)"
    by (induction wins) (simp_all add: bag_one_hist [OF assms] latencies_def)
  then have "bag (foldl (hMerge H) (new_hist H) (map (\<lambda>w. one_hist H (fst (snd w))) wins)) = bag (one_hist H (events_of wins))"
    by (simp add: bag_merge_foldl [OF assms] bag_one_hist [OF assms] comp_def)
  then show ?thesis by (rule hdr_lawsD(4) [OF assms])
qed

lemma merge_loop_Some: "merge_loop H m (map (\<lambda>x. Some (f x)) xs) = foldl (hMerge H) m (map f xs)"
  by (induction xs arbitrary: m) simp_all

lemma merge_loop_drops_nil: "merge_loop H m hs = foldl (hMerge H) m (List.map_filter id hs)"
  by (induction H m hs rule: merge_loop.induct) (simp_all add: map_filter_simps)

text \<open>The metrics that one histogram and one count over the events \<open>es\<close> give.\<close>

definition exact_metrics :: "'h hdr \<Rightarrow> OrderEvent list \<Rightarrow> MergedSnapshot \<Rightarrow> bool" where
  "exact_metrics H es m \<longleftrightarrow>
     mTotalCount m = int (length es)
     \<and> mTotalRejected m = with_result ORDER_RESULT_REJECTED es
     \<and> mTotalTimeouts m = with_result ORDER_RESULT_TIMEOUT es
     \<and> mP50Ns m = hQuantile H (one_hist H es) (Fin 50) \<and> mP90Ns m = hQuantile H (one_hist H es) (Fin 90)
     \<and> mP99Ns m = hQuantile H (one_hist H es) (Fin 99) \<and> mP999Ns m = hQuantile H (one_hist H es) p999"

lemma in_int64_small: "0 \<le> x \<Longrightarrow> x < 2 ^ 63 \<Longrightarrow> in_int64 x"
  by (simp add: in_int64_def min_int64_def max_int64_def)

lemma with_result_in_int64: "length es < 2 ^ 63 \<Longrightarrow> in_int64 (with_result r es)"
  using with_result_le [of r es] by (intro in_int64_small) auto

lemma length_in_int64: "length es < 2 ^ 63 \<Longrightarrow> in_int64 (int (length es))"
  by (intro in_int64_small) auto

lemma merged_exact:
  assumes "hdr_laws H bag seen" "length (events_of wins) < 2 ^ 63"
  shows "exact_metrics H (events_of wins) (merged H (cum_of H W wins))"
  using cum_of_holds [of H W wins]
  by (simp add: exact_metrics_def merged_def quantile_of_merge [OF assms(1)]
      with_result_in_int64 [OF assms(2)] length_in_int64 [OF assms(2)])

lemma closed_flushed_holds [simp]:
  "fHist (closed_flushed H W w) = one_hist H (fst (snd w))"
  "sCount (fSnap (closed_flushed H W w)) = wrap64 (int (length (fst (snd w))))"
  "sRejected (fSnap (closed_flushed H W w)) = wrap64 (with_result ORDER_RESULT_REJECTED (fst (snd w)))"
  "sTimeouts (fSnap (closed_flushed H W w)) = wrap64 (with_result ORDER_RESULT_TIMEOUT (fst (snd w)))"
  by (auto simp: closed_flushed_def closed_snap_def snapshot_of_def Let_def split: prod.splits)

lemma sum_windows:
  "wrap64 (\<Sum>w\<leftarrow>wins. wrap64 (int (length (fst (snd w))))) = wrap64 (int (length (events_of wins)))"
  "wrap64 (\<Sum>w\<leftarrow>wins. wrap64 (with_result r (fst (snd w)))) = wrap64 (with_result r (events_of wins))"
proof (induction wins)
  case (Cons w ws)
  {
    case 1
    have "wrap64 (int (length (fst (snd w))) + (\<Sum>w\<leftarrow>ws. wrap64 (int (length (fst (snd w)))))) =
          wrap64 (int (length (fst (snd w))) + wrap64 (\<Sum>w\<leftarrow>ws. wrap64 (int (length (fst (snd w))))))"
      by simp
    then show ?case using Cons(1) by simp
  next
    case 2
    have "wrap64 (with_result r (fst (snd w)) + (\<Sum>w\<leftarrow>ws. wrap64 (with_result r (fst (snd w))))) =
          wrap64 (with_result r (fst (snd w)) + wrap64 (\<Sum>w\<leftarrow>ws. wrap64 (with_result r (fst (snd w)))))"
      by simp
    then show ?case using Cons(2) by simp
  }
qed (simp_all add: with_result_def)

lemma merge_slice_exact:
  assumes "hdr_laws H bag seen" "length (events_of wins) < 2 ^ 63" "wins \<noteq> []"
  shows "\<exists>m. merge_slice H (map (closed_flushed H W) wins) = Some m
     \<and> mWindowCount m = int (length wins) \<and> exact_metrics H (events_of wins) m"
  using assms(3) quantile_of_merge [OF assms(1), of wins]
  by (simp add: merge_slice_def MergeHistograms_def exact_metrics_def sum64_wrap merge_loop_Some Let_def
      sum_windows with_result_in_int64 [OF assms(2)] length_in_int64 [OF assms(2)] comp_def)

section \<open>Whole runs\<close>

fun recorded :: "string \<Rightarrow> agg_event list \<Rightarrow> OrderEvent list" where
  "recorded k [] = []"
| "recorded k (RecordAt t eo # evs) = (if event_key eo = Some k then the eo # recorded k evs else recorded k evs)"
| "recorded k (FlushAt now ks # evs) = recorded k evs"

definition open_events :: "run_view \<Rightarrow> OrderEvent list" where
  "open_events v = (case fst v of None \<Rightarrow> [] | Some (t, es) \<Rightarrow> es)"

lemma recorded_append [simp]: "recorded k (xs @ ys) = recorded k xs @ recorded k ys"
  by (induction k xs rule: recorded.induct) simp_all

text \<open>No event is lost or filed twice: the closed windows and the open one hold the run.\<close>

lemma run_view_events: "events_of (snd (run_view k evs)) @ open_events (run_view k evs) = recorded k evs"
proof (induction evs rule: rev_induct)
  case Nil
  show ?case by (simp add: run_view_def open_events_def)
next
  case (snoc ev evs)
  obtain cur wins where v: "foldl (view_step k) (None, []) evs = (cur, wins)" by fastforce
  with snoc show ?case
    by (cases ev; cases cur) (auto simp: run_view_def open_events_def)
qed

lemma run_view_after_flush: "open_events (run_view k (evs @ [FlushAt now ks])) = []"
  by (cases "run_view k evs") (auto simp: run_view_def open_events_def split: option.splits)

lemma wins_le_events:
  assumes "view_ok (cur, wins)"
  shows "length wins \<le> length (events_of wins)"
proof -
  have "length wins \<le> length (events_of wins)" if "\<forall>(t, es, now) \<in> set wins. es \<noteq> []" for wins
    using that by (induction wins) (auto simp: Suc_le_eq intro: add_pos_nonneg, fastforce simp: Suc_le_eq length_greater_0_conv [symmetric] simp del: length_greater_0_conv)
  with assms show ?thesis by simp
qed

lemma view_ok_run: "view_ok (run_view k evs)"
  by (induction evs rule: rev_induct) (simp_all add: run_view_def view_step_ok del: view_ok.simps, simp)

lemma cum_of_count_pos:
  assumes "snd (run_view k evs) = wins" "wins \<noteq> []" "length (recorded k evs) < 2 ^ 63"
  shows "cuWindowCount (cum_of H W wins) = int (length wins)" "length (events_of wins) < 2 ^ 63"
proof -
  have le: "length (events_of wins) \<le> length (recorded k evs)"
    using arg_cong [OF run_view_events [of k evs], of length] assms(1) by simp
  then show "length (events_of wins) < 2 ^ 63" using assms(3) by simp
  have "length wins \<le> length (events_of wins)"
    using view_ok_run [of k evs] assms(1) wins_le_events by (metis prod.collapse)
  with le assms(3) have "length wins < 2 ^ 63" by simp
  then show "cuWindowCount (cum_of H W wins) = int (length wins)"
    using cum_of_holds [of H W wins] by (simp add: length_in_int64)
qed

lemma parts_of_run:
  assumes "agg.valid_run H (NewAggregator w t opts) evs" "snd (run_view k evs) = wins"
  defines "a \<equiv> foldl (agg_step H) (NewAggregator w t opts) evs" and "W \<equiv> if w \<le> 0 then Second else w"
  shows "aHistory a k = (if wins = [] then None else Some (take_last DefaultHistoryWindows (map (closed_flushed H W) wins)))"
    "aCumulative a k = (if wins = [] then None else Some (cum_of H W wins))"
    "aLatest a k = (if wins = [] then None else Some (closed_snap H W (last wins)))"
proof -
  have "part_at a k = part_of H W DefaultHistoryWindows (run_view k evs)"
    unfolding a_def W_def by (rule agg_run_refines [OF assms(1)])
  with assms(2) show "aHistory a k = (if wins = [] then None else Some (take_last DefaultHistoryWindows (map (closed_flushed H W) wins)))"
    "aCumulative a k = (if wins = [] then None else Some (cum_of H W wins))"
    "aLatest a k = (if wins = [] then None else Some (closed_snap H W (last wins)))"
    by (cases "run_view k evs"; simp add: part_at_def part_of_def)+
qed

lemma MergedRecent_whole_run:
  assumes "agg.valid_run H (NewAggregator w t opts) evs" "snd (run_view k evs) = wins" "wins \<noteq> []"
    "length (recorded k evs) < 2 ^ 63" "n \<le> 0"
  shows "MergedRecent H ls (foldl (agg_step H) (NewAggregator w t opts) evs) k n =
     Some (merged H (cum_of H (if w \<le> 0 then Second else w) wins))"
  using parts_of_run [OF assms(1,2)] cum_of_count_pos(1) [OF assms(2-4), of H] assms(3,5)
  by (simp add: MergedRecent_def)

lemma take_last_map: "take_last n (map f xs) = map f (take_last n xs)"
  by (simp add: take_last_def drop_map)

lemma take_last_Nil_iff [simp]: "take_last n xs = [] \<longleftrightarrow> n = 0 \<or> xs = []"
  by (cases xs) (auto simp: take_last_def)

lemma take_last_clamp: "take_last (min n (length xs)) xs = take_last n xs"
  by (cases "n \<le> length xs") (simp_all add: min_def)

lemma MergedRecent_last_windows:
  assumes "agg.valid_run H (NewAggregator w t opts) evs" "snd (run_view k evs) = wins" "wins \<noteq> []" "0 < n"
  shows "MergedRecent H ls (foldl (agg_step H) (NewAggregator w t opts) evs) k n =
     merge_slice H (map (closed_flushed H (if w \<le> 0 then Second else w)) (take_last (min (nat n) DefaultHistoryWindows) wins))"
proof -
  let ?F = "map (closed_flushed H (if w \<le> 0 then Second else w)) wins"
  let ?r = "take_last DefaultHistoryWindows ?F"
  have ne: "?r \<noteq> []"
    using assms(3) by (metis DefaultHistoryWindows_def length_0_conv length_map length_take_last min_def zero_neq_numeral)
  have "nat (if int (length ?r) < n then int (length ?r) else n) = min (nat n) (length ?r)"
    using assms(4) by (auto simp: min_def)
  then have "MergedRecent H ls (foldl (agg_step H) (NewAggregator w t opts) evs) k n = merge_slice H (take_last (min (nat n) (length ?r)) ?r)"
    using parts_of_run(1) [OF assms(1,2)] assms(3,4) ne by (simp add: MergedRecent_def Let_def)
  also have "take_last (min (nat n) (length ?r)) ?r = take_last (nat n) ?r" by (rule take_last_clamp)
  finally show ?thesis by (simp only: take_last_take_last take_last_map)
qed

lemma events_of_take_last: "length (events_of (take_last n wins)) \<le> length (events_of wins)"
proof -
  have "wins = take (length wins - n) wins @ take_last n wins" by (simp add: take_last_def)
  then have "length (events_of wins) = length (events_of (take (length wins - n) wins)) + length (events_of (take_last n wins))"
    by (metis events_of_simps(3) length_append)
  then show ?thesis by simp
qed

section \<open>Resolution of a contestant\<close>

lemma range_items_iff: "enumerates ks m \<Longrightarrow> (k, v) \<in> set (range_items ks m) \<longleftrightarrow> m k = Some v"
  by (force simp: range_items_def map_filter_def enumerates_def)

text \<open>The scan keeps the first entry with the greatest start among those of the contestant.\<close>

fun later :: "(string \<times> instant) option \<Rightarrow> string \<times> instant \<Rightarrow> (string \<times> instant) option" where
  "later None x = Some x"
| "later (Some b) x = Some (if snd b < snd x then x else b)"

lemma latest_run_loop_foldl:
  "latest_run_loop cid best items =
     foldl later best (map (\<lambda>(k, s). (k, sWindowStart s)) (filter (\<lambda>(k, s). sContestantID s = cid) items))"
  by (induction cid best items rule: latest_run_loop.induct) (auto split: option.splits)

lemma foldl_later_max: "\<exists>y \<in> set (x # xs). foldl later (Some x) xs = Some y \<and> (\<forall>z \<in> set (x # xs). snd z \<le> snd y)"
proof (induction xs arbitrary: x)
  case (Cons z xs)
  from Cons.IH [of "if snd x < snd z then z else x"] show ?case by (cases "snd x < snd z") fastforce+
qed simp

lemma latestRunKey_max:
  assumes "enumerates ls (aLatest a)" "aLatest a k0 = Some s0" "sContestantID s0 = cid"
  shows "\<exists>k s. latestRunKeyForContestant ls a cid = Some k \<and> aLatest a k = Some s \<and> sContestantID s = cid
     \<and> (\<forall>k' s'. aLatest a k' = Some s' \<longrightarrow> sContestantID s' = cid \<longrightarrow> sWindowStart s' \<le> sWindowStart s)"
proof -
  define xs where "xs = map (\<lambda>(k, s). (k, sWindowStart s)) (filter (\<lambda>(k, s). sContestantID s = cid) (range_items ls (aLatest a)))"
  have I: "(k, t) \<in> set xs \<longleftrightarrow> (\<exists>s. aLatest a k = Some s \<and> sContestantID s = cid \<and> sWindowStart s = t)" for k t
    by (force simp: xs_def range_items_iff [OF assms(1)])
  from assms(2,3) have "(k0, sWindowStart s0) \<in> set xs" by (auto simp: I)
  then obtain x rest where xs: "xs = x # rest" by (cases xs) auto
  from foldl_later_max [of x rest] obtain kt
    where "foldl later (Some x) rest = Some kt" "kt \<in> set xs" "\<forall>z \<in> set xs. snd z \<le> snd kt"
    unfolding xs by blast
  moreover obtain k t where "kt = (k, t)" by fastforce
  ultimately have y: "foldl later (Some x) rest = Some (k, t)" "(k, t) \<in> set xs" "\<forall>z \<in> set xs. snd z \<le> t"
    by simp_all
  then have "latestRunKeyForContestant ls a cid = Some k"
    by (simp add: latestRunKeyForContestant_def latest_run_loop_foldl xs_def [symmetric] xs)
  moreover from y(2) obtain s where "aLatest a k = Some s" "sContestantID s = cid" "sWindowStart s = t"
    by (auto simp: I)
  moreover have "sWindowStart s' \<le> t" if "aLatest a k' = Some s'" "sContestantID s' = cid" for k' s'
    using y(3) I [of k' "sWindowStart s'"] that by (metis snd_conv)
  ultimately show ?thesis by blast
qed

section \<open>A histogram that keeps its values\<close>

text \<open>A histogram without buckets, which the laws admit: it keeps the values and sorts them to answer.\<close>

definition list_quantile :: "int64 list \<Rightarrow> f64 \<Rightarrow> int64" where
  "list_quantile h q = (let xs = sort h in
     if xs = [] then 0 else case q of Fin r \<Rightarrow> xs ! min (length xs - 1) (nat \<lfloor>r / 100 * of_nat (length xs)\<rfloor>) | _ \<Rightarrow> last xs)"

definition list_hdr :: "int64 list hdr" where
  "list_hdr = \<lparr>hNew = (\<lambda>lo hi digits. []), hRecord = (\<lambda>h v. h @ [v]), hMerge = (@), hQuantile = list_quantile\<rparr>"

lemma list_hdr_laws: "hdr_laws list_hdr mset (\<lambda>v. {#v#})"
proof -
  have "list_quantile h q = list_quantile h' q" if m: "mset h = mset h'" for h h' q
  proof -
    have "sort h = sort h'" using m by (auto intro!: properties_for_sort)
    then show ?thesis by (simp add: list_quantile_def)
  qed
  then have "\<forall>h h' q. mset h = mset h' \<longrightarrow> hQuantile list_hdr h q = hQuantile list_hdr h' q"
    unfolding list_hdr_def hdr.simps by blast
  moreover have "mset (hNew list_hdr lo hi digits) = {#}" "mset (hRecord list_hdr h v) = mset h + {#v#}"
    "mset (hMerge list_hdr h h') = mset h + mset h'" for lo hi digits h h' v
    by (simp_all add: list_hdr_def)
  ultimately show ?thesis unfolding hdr_laws_def by blast
qed

definition sample_event :: "int64 \<Rightarrow> OrderResult \<Rightarrow> OrderEvent" where
  "sample_event lat r = emptyEvent\<lparr>eContestantId := ''c'', eSubmissionId := ''s'', eLatencyNs := lat, eResult := r\<rparr>"

definition sample_run :: "agg_event list" where
  "sample_run = [RecordAt 0 (Some (sample_event 5 ORDER_RESULT_FILLED)), FlushAt 1000000000 [''s''],
     RecordAt 1000000001 (Some (sample_event 7 ORDER_RESULT_TIMEOUT)), RecordAt 1000000002 None]"

lemma sample_run_valid:
  "agg.valid_run list_hdr (NewAggregator 0 0 []) (sample_run @ [FlushAt 2000000000 [''s'']])"
proof -
  have k: "runKey (sample_event l r) = (''s'', ''c'', ''s'')" "eContestantId (sample_event l r) = ''c''" for l r
    by (simp_all add: sample_event_def runKey_def Let_def)
  show ?thesis
    by (simp add: sample_run_def enumerates_def Record_def k Flush_def split: prod.splits)
qed

lemma sample_run_recorded:
  "recorded ''s'' sample_run = [sample_event 5 ORDER_RESULT_FILLED, sample_event 7 ORDER_RESULT_TIMEOUT]"
  by (simp add: sample_run_def sample_event_def event_key_def runKey_def Let_def)

section \<open>Properties\<close>

text \<open>C11: After a flush, the whole-run metrics served for a run (window argument zero or less, the scoring
  path) are exact over every event of the run recorded so far, however the recordings and the flushes
  of all runs interleaved and however many windows there were: the counts are the numbers of events,
  rejections and timeouts, and each percentile is the one of a single histogram that recorded every
  latency.\<close>

theorem whole_run_metrics_exact:
  assumes "hdr_laws H bag seen"
    and "agg.valid_run H (NewAggregator w t opts) (evs @ [FlushAt now ks])"
    and "recorded k evs \<noteq> []" "length (recorded k evs) < 2 ^ 63" "n \<le> 0"
  shows "\<exists>m. MergedRecent H ls (foldl (agg_step H) (NewAggregator w t opts) (evs @ [FlushAt now ks])) k n = Some m
     \<and> exact_metrics H (recorded k evs) m"
proof -
  let ?evs = "evs @ [FlushAt now ks]"
  define wins where "wins = snd (run_view k ?evs)"
  have ev: "events_of wins = recorded k ?evs"
    using run_view_events [of k ?evs] run_view_after_flush [of k evs now ks] by (simp add: wins_def)
  then have ne: "wins \<noteq> []" using assms(3) by auto
  have "length (events_of wins) < 2 ^ 63" using ev assms(4) by simp
  from merged_exact [OF assms(1) this] ev
  have "exact_metrics H (recorded k evs) (merged H (cum_of H (if w \<le> 0 then Second else w) wins))" by simp
  moreover have "length (recorded k ?evs) < 2 ^ 63" using assms(4) by simp
  ultimately show ?thesis
    using MergedRecent_whole_run [OF assms(2) wins_def [symmetric] ne _ assms(5)] by blast
qed

theorem whole_run_metrics_exact_witness:
  "\<exists>m. MergedRecent list_hdr [''s''] (foldl (agg_step list_hdr) (NewAggregator 0 0 []) (sample_run @ [FlushAt 2000000000 [''s'']])) ''s'' 0 = Some m
     \<and> exact_metrics list_hdr [sample_event 5 ORDER_RESULT_FILLED, sample_event 7 ORDER_RESULT_TIMEOUT] m"
  using whole_run_metrics_exact [OF list_hdr_laws sample_run_valid, of "''s''" 0 "[''s'']"]
  by (simp add: sample_run_recorded)

text \<open>For a positive window argument the metrics are exact over the events of the last windows of the
  run: as many as were asked for, as were closed, and as the ring of sixty keeps.\<close>

theorem recent_windows_exact:
  assumes "hdr_laws H bag seen" "agg.valid_run H (NewAggregator w t opts) evs"
    and "snd (run_view k evs) \<noteq> []" "length (recorded k evs) < 2 ^ 63" "0 < n"
  shows "\<exists>m. MergedRecent H ls (foldl (agg_step H) (NewAggregator w t opts) evs) k n = Some m
     \<and> mWindowCount m = min n (min 60 (int (length (snd (run_view k evs)))))
     \<and> exact_metrics H (events_of (take_last (min (nat n) 60) (snd (run_view k evs)))) m"
proof -
  define wins where "wins = snd (run_view k evs)"
  let ?l = "take_last (min (nat n) DefaultHistoryWindows) wins"
  have ne: "wins \<noteq> []" using assms(3) by (simp add: wins_def)
  have ne': "?l \<noteq> []" using ne assms(5) by (simp add: DefaultHistoryWindows_def)
  have "length (events_of ?l) < 2 ^ 63"
    using events_of_take_last [of "min (nat n) DefaultHistoryWindows" wins]
      cum_of_count_pos(2) [OF wins_def [symmetric] ne assms(4)] by linarith
  from merge_slice_exact [OF assms(1) this ne', of "if w \<le> 0 then Second else w"]
    MergedRecent_last_windows [OF assms(2) wins_def [symmetric] ne assms(5), of ls]
  obtain m where "MergedRecent H ls (foldl (agg_step H) (NewAggregator w t opts) evs) k n = Some m"
    "mWindowCount m = int (length ?l)" "exact_metrics H (events_of ?l) m" by auto
  moreover have "int (length ?l) = min n (min 60 (int (length wins)))"
    using assms(5) by (simp add: DefaultHistoryWindows_def)
  ultimately show ?thesis by (simp add: wins_def DefaultHistoryWindows_def)
qed

theorem recent_windows_exact_witness:
  "\<exists>m. MergedRecent list_hdr [''s''] (foldl (agg_step list_hdr) (NewAggregator 0 0 []) (sample_run @ [FlushAt 2000000000 [''s'']])) ''s'' 1 = Some m
     \<and> mWindowCount m = 1
     \<and> exact_metrics list_hdr [sample_event 7 ORDER_RESULT_TIMEOUT] m"
proof -
  have v: "run_view ''s'' (sample_run @ [FlushAt 2000000000 [''s'']]) =
      (None, [(0, [sample_event 5 ORDER_RESULT_FILLED], 1000000000), (1000000001, [sample_event 7 ORDER_RESULT_TIMEOUT], 2000000000)])"
    by (simp add: run_view_def sample_run_def sample_event_def event_key_def runKey_def Let_def)
  show ?thesis
    using recent_windows_exact [OF list_hdr_laws sample_run_valid, of "''s''" 1 "[''s'']"]
    by (simp add: v sample_run_recorded take_last_def)
qed

text \<open>A query for a contestant that is no run key is answered by the run of that contestant whose
  latest window started last, for both the merged and the latest view.\<close>

theorem contestant_resolves_to_latest_run:
  assumes "agg.valid_run H (NewAggregator w t opts) evs" "a = foldl (agg_step H) (NewAggregator w t opts) evs"
    and "enumerates ls (aLatest a)" "aLatest a cid = None" "aLatest a k0 = Some s0" "sContestantID s0 = cid"
  shows "\<exists>k s. aLatest a k = Some s \<and> sContestantID s = cid
     \<and> (\<forall>k' s'. aLatest a k' = Some s' \<longrightarrow> sContestantID s' = cid \<longrightarrow> sWindowStart s' \<le> sWindowStart s)
     \<and> Latest ls a cid = Some s
     \<and> MergedRecent H ls a cid n = MergedRecent H ls a k n"
proof -
  have same: "aLatest a k = None \<longleftrightarrow> aHistory a k = None" for k
    using parts_of_run(1,3) [OF assms(1) refl, of k] by (simp add: assms(2))
  obtain k s where k: "latestRunKeyForContestant ls a cid = Some k" "aLatest a k = Some s" "sContestantID s = cid"
    "\<forall>k' s'. aLatest a k' = Some s' \<longrightarrow> sContestantID s' = cid \<longrightarrow> sWindowStart s' \<le> sWindowStart s"
    using latestRunKey_max [OF assms(3,5,6)] by blast
  then have "MergedRecent H ls a cid n = MergedRecent H ls a k n"
    using same [of k] same [of cid] assms(4) by (simp add: MergedRecent_def)
  with k assms(4) show ?thesis by (auto simp: Latest_def)
qed

theorem contestant_resolves_to_latest_run_witness:
  "\<exists>a k s. aLatest a k = Some s \<and> sContestantID s = ''c'' \<and> Latest [''s''] a ''c'' = Some s
     \<and> MergedRecent list_hdr [''s''] a ''c'' 0 = MergedRecent list_hdr [''s''] a k 0"
proof -
  let ?evs = "sample_run @ [FlushAt 2000000000 [''s'']]"
  define a where "a = foldl (agg_step list_hdr) (NewAggregator 0 0 []) ?evs"
  have L: "aLatest a k = (if snd (run_view k ?evs) = [] then None
      else Some (closed_snap list_hdr Second (last (snd (run_view k ?evs)))))" for k
    using parts_of_run(3) [OF sample_run_valid refl, of k] by (simp add: a_def)
  have v: "run_view k ?evs = (if k = ''s'' then (None, [(0, [sample_event 5 ORDER_RESULT_FILLED], 1000000000),
      (1000000001, [sample_event 7 ORDER_RESULT_TIMEOUT], 2000000000)]) else (None, []))" for k
    by (simp add: run_view_def sample_run_def sample_event_def event_key_def runKey_def Let_def)
  have "enumerates [''s''] (aLatest a)" by (auto simp: enumerates_def L v dom_def)
  moreover have "aLatest a ''c'' = None" by (simp add: L v)
  moreover obtain s0 where "aLatest a ''s'' = Some s0" "sContestantID s0 = ''c''"
    by (simp add: L v closed_snap_def snapshot_of_def Let_def sample_event_def)
  ultimately show ?thesis
    using contestant_resolves_to_latest_run [OF sample_run_valid a_def, of "[''s'']" "''c''" "''s''" s0 0] by blast
qed

end
