(* ===== verification/GoStrings.thy ===== *)
theory GoStrings
  imports Prelude
begin

text \<open>
  What the services use of Go's \<open>strings\<close>, \<open>strconv\<close> and \<open>net/http\<close>: prefixes and suffixes, splitting, trimming,
  \<open>strconv.Atoi\<close>, environment variables with defaults, and the replies a handler writes. A string is its bytes.
\<close>

section \<open>Bytes\<close>

definition HasPrefix :: "string \<Rightarrow> string \<Rightarrow> bool" where
  "HasPrefix s p \<longleftrightarrow> take (length p) s = p"

definition TrimPrefix :: "string \<Rightarrow> string \<Rightarrow> string" where
  "TrimPrefix s p = (if HasPrefix s p then drop (length p) s else s)"

text \<open>\<open>strings.Split\<close> by a separator of one byte: always at least one piece.\<close>

fun split_on :: "char \<Rightarrow> string \<Rightarrow> string list" where
  "split_on d [] = [[]]"
| "split_on d (c # s) = (if c = d then [] # split_on d s
     else case split_on d s of [] \<Rightarrow> [[c]] | p # ps \<Rightarrow> (c # p) # ps)"

fun join_on :: "char \<Rightarrow> string list \<Rightarrow> string" where
  "join_on d [] = []"
| "join_on d [p] = p"
| "join_on d (p # q # ps) = p @ d # join_on d (q # ps)"

definition is_space :: "char \<Rightarrow> bool" where
  "is_space c \<longleftrightarrow> of_char c \<in> {9, 10, 11, 12, 13, 32 :: nat}"

definition TrimSpace :: "string \<Rightarrow> string" where
  "TrimSpace s = rev (dropWhile is_space (rev (dropWhile is_space s)))"

definition to_lower :: "char \<Rightarrow> char" where
  "to_lower c = (let n = (of_char c :: nat) in if 65 \<le> n \<and> n \<le> 90 then char_of (n + 32) else c)"

lemma HasPrefix_append [simp]: "HasPrefix (p @ s) p"
  by (simp add: HasPrefix_def)

lemma HasPrefix_iff: "HasPrefix s p \<longleftrightarrow> (\<exists>t. s = p @ t)"
  by (metis HasPrefix_def HasPrefix_append append_take_drop_id)

lemma TrimPrefix_append [simp]: "TrimPrefix (p @ s) p = s"
  by (simp add: TrimPrefix_def)

lemma split_on_nonempty [simp]: "split_on d s \<noteq> []"
  by (induction s) (auto split: list.splits)

lemma join_split [simp]: "join_on d (split_on d s) = s"
proof (induction s)
  case (Cons c s)
  show ?case
  proof (cases "split_on d s")
    case Nil
    then show ?thesis by simp
  next
    case (Cons p ps)
    then show ?thesis using Cons.IH by (cases ps) auto
  qed
qed simp

lemma split_on_no_sep: "p \<in> set (split_on d s) \<Longrightarrow> d \<notin> set p"
  by (induction s arbitrary: p) (auto split: if_splits list.splits)

lemma split_on_append: "split_on d (x @ d # y) = split_on d x @ split_on d y"
proof (induction x)
  case (Cons c x)
  show ?case
  proof (cases "c = d")
    case False
    obtain p ps where "split_on d x = p # ps" by (metis split_on_nonempty neq_Nil_conv)
    with False Cons show ?thesis by simp
  qed (use Cons in simp)
qed simp

lemma split_on_no_sep_id: "d \<notin> set s \<Longrightarrow> split_on d s = [s]"
  by (induction s) auto

lemma split_join: "ps \<noteq> [] \<Longrightarrow> \<forall>p \<in> set ps. d \<notin> set p \<Longrightarrow> split_on d (join_on d ps) = ps"
proof (induction d ps rule: join_on.induct)
  case (3 d p q ps)
  then show ?case using split_on_append [of d p "join_on d (q # ps)"] by (simp add: split_on_no_sep_id)
qed (simp_all add: split_on_no_sep_id)

section \<open>Numbers\<close>

definition is_digit :: "char \<Rightarrow> bool" where
  "is_digit c \<longleftrightarrow> 48 \<le> (of_char c :: nat) \<and> (of_char c :: nat) \<le> 57"

text \<open>\<open>strconv.Atoi\<close>: an optional sign and at least one digit; \<open>None\<close> for a syntax or a range error.\<close>

definition Atoi :: "string \<Rightarrow> int option" where
  "Atoi s = (let neg = HasPrefix s ''-'';
                 ds = (if neg \<or> HasPrefix s ''+'' then tl s else s);
                 n = (if neg then - int (read_nat ds) else int (read_nat ds))
             in if ds \<noteq> [] \<and> list_all is_digit ds \<and> in_int64 n then Some n else None)"

lemma is_digit_digit: "d < 10 \<Longrightarrow> is_digit (digit d)"
  by (simp add: is_digit_def of_char_digit)

lemma show_nat_is_digits: "show_nat n \<noteq> []" "list_all is_digit (show_nat n)"
  by (subst show_nat.simps, simp) (auto simp: list_all_iff dest!: show_nat_digits intro: is_digit_digit)

lemma digit_not_sign: "is_digit c \<Longrightarrow> c \<noteq> CHR ''-'' \<and> c \<noteq> CHR ''+''"
  by (auto simp: is_digit_def)

text \<open>What was printed is read back.\<close>

lemma Atoi_show_int [simp]: "in_int64 n \<Longrightarrow> Atoi (show_int n) = Some n"
proof (cases "n < 0")
  case True
  assume "in_int64 n"
  with True show_nat_is_digits [of "nat (- n)"] show ?thesis
    by (simp add: Atoi_def show_int_def HasPrefix_def)
next
  case False
  assume i: "in_int64 n"
  obtain c cs where c: "show_nat (nat n) = c # cs" using show_nat_is_digits(1) by (metis neq_Nil_conv)
  then have "is_digit c" using show_nat_is_digits(2) [of "nat n"] by simp
  then have "c \<noteq> CHR ''-''" "c \<noteq> CHR ''+''" using digit_not_sign by blast+
  with False i c show_nat_is_digits(2) [of "nat n"] read_show_nat [of "nat n"] show ?thesis
    by (simp add: Atoi_def show_int_def HasPrefix_def)
qed

text \<open>The positive number of a query parameter, or the default.\<close>

definition query_int :: "int \<Rightarrow> string \<Rightarrow> int" where
  "query_int d v = (if v \<noteq> '''' then (case Atoi v of Some n \<Rightarrow> if 0 < n then n else d | None \<Rightarrow> d) else d)"

section \<open>Environment variables\<close>

text \<open>\<open>env\<close> is what \<open>os.Getenv\<close> returns.\<close>

definition envOr :: "(string \<Rightarrow> string) \<Rightarrow> string \<Rightarrow> string \<Rightarrow> string" where
  "envOr env key d = (if env key \<noteq> '''' then env key else d)"

definition envInt :: "(string \<Rightarrow> string) \<Rightarrow> string \<Rightarrow> int \<Rightarrow> int" where
  "envInt env key d = (if env key \<noteq> '''' then (case Atoi (env key) of Some i \<Rightarrow> i | None \<Rightarrow> d) else d)"

section \<open>Replies\<close>

datatype 'a reply = JSON 'a | HttpError nat string | StatusOnly nat

end
