(* ===== verification/Leaderboard.thy ===== *)
theory Leaderboard
  imports Score Hub Validator Windowing GoStrings
begin

text \<open>
  The leaderboard service: its stores (\<open>internal/store\<close>), the scoring cycle (\<open>internal/ingest\<close>), the demo seeder
  (\<open>internal/seeder\<close>) and the query handlers (\<open>internal/httpapi\<close>). A store promises that a contestant is ranked by
  the best of the latest scores of its attempts: the in-memory store is shown to keep the promise, and the
  Redis store to simulate it. The scoring cycle is shown to score an attempt only from its own verdict
  and its own crashes.
\<close>

section \<open>The in-memory store\<close>

record Entry =
  enContestantID :: string
  enScore :: int64

record StubStore =
  ssScores :: "string \<rightharpoonup> int64"
  ssSubs :: "string \<rightharpoonup> (string \<rightharpoonup> int64)"

definition NewStubStore :: StubStore where
  "NewStubStore = \<lparr>ssScores = Map.empty, ssSubs = Map.empty\<rparr>"

definition stub_Upsert :: "string \<Rightarrow> int64 \<Rightarrow> StubStore \<Rightarrow> StubStore" where
  "stub_Upsert i v s = s\<lparr>ssScores := (ssScores s)(i \<mapsto> v)\<rparr>"

definition attempt :: "string \<Rightarrow> string" where
  "attempt submissionID = (if submissionID = '''' then ''default'' else submissionID)"

fun best_loop :: "int64 \<Rightarrow> int64 list \<Rightarrow> int64" where
  "best_loop best [] = best"
| "best_loop best (v # vs) = best_loop (if best < v then v else best) vs"

definition stub_subs :: "StubStore \<Rightarrow> string \<Rightarrow> (string \<rightharpoonup> int64)" where
  "stub_subs s c = (case ssSubs s c of None \<Rightarrow> Map.empty | Some m \<Rightarrow> m)"

text \<open>\<open>ks\<close> is the order in which the attempts of the contestant are visited.\<close>

definition stub_UpsertSubmission :: "string list \<Rightarrow> string \<Rightarrow> string \<Rightarrow> int64 \<Rightarrow> StubStore \<Rightarrow> StubStore" where
  "stub_UpsertSubmission ks c sub v s =
     (let m = (stub_subs s c)(attempt sub \<mapsto> v); best = best_loop v (range_values ks m)
      in s\<lparr>ssSubs := (ssSubs s)(c \<mapsto> m), ssScores := (ssScores s)(c \<mapsto> best)\<rparr>)"

text \<open>
  \<open>Top\<close>: the rows in the order the map yields them, sorted by falling score. \<open>sort.Slice\<close> may leave rows of
  equal score in any order; since the order \<open>ks\<close> of the rows is arbitrary too, a stable sort covers every
  outcome.
\<close>

definition stub_Top :: "string list \<Rightarrow> int \<Rightarrow> StubStore \<Rightarrow> Entry list" where
  "stub_Top ks n s = (let entries = sort_key (\<lambda>e. - enScore e)
        (map (\<lambda>(i, v). \<lparr>enContestantID = i, enScore = v\<rparr>) (range_items ks (ssScores s)))
     in if 0 < n \<and> n < int (length entries) then take (nat n) entries else entries)"

section \<open>What a store promises\<close>

text \<open>
  The attempts a store remembers, the board it ranks by, and when an operation may be taken. The laws are
  the documentation of \<open>Store.UpsertSubmission\<close>: it records the attempt's score and ranks the contestant by
  the best of its attempts.
\<close>

locale best_of_store =
  fixes upsert :: "'s \<Rightarrow> 'e \<Rightarrow> 's"
    and call_of :: "'e \<Rightarrow> string \<times> string \<times> int64"
    and attempts :: "'s \<Rightarrow> string \<Rightarrow> (string \<rightharpoonup> int64)"
    and board :: "'s \<Rightarrow> (string \<rightharpoonup> int64)"
    and usable :: "'s \<Rightarrow> 'e \<Rightarrow> bool"
  assumes attempts_upsert: "usable s e \<Longrightarrow> call_of e = (c, b, v) \<Longrightarrow>
      attempts (upsert s e) = (attempts s)(c := (attempts s c)(attempt b \<mapsto> v))"
    and board_upsert: "usable s e \<Longrightarrow> call_of e = (c, b, v) \<Longrightarrow>
      board (upsert s e) = (board s)(c \<mapsto> Max (ran ((attempts s c)(attempt b \<mapsto> v))))"
begin

fun usable_run :: "'s \<Rightarrow> 'e list \<Rightarrow> bool" where
  "usable_run s [] = True"
| "usable_run s (e # es) = (usable s e \<and> usable_run (upsert s e) es)"

lemma run_best_of:
  assumes "usable_run s es" "\<And>c. attempts s c \<noteq> Map.empty \<Longrightarrow> board s c = Some (Max (ran (attempts s c)))"
  shows "attempts (foldl upsert s es) c \<noteq> Map.empty \<Longrightarrow>
     board (foldl upsert s es) c = Some (Max (ran (attempts (foldl upsert s es) c)))"
  using assms
proof (induction es arbitrary: s)
  case (Cons e es)
  obtain c0 b v where e: "call_of e = (c0, b, v)" by (metis prod_cases3)
  have u: "usable s e" "usable_run (upsert s e) es" using Cons.prems(2) by auto
  have "board (upsert s e) c = Some (Max (ran (attempts (upsert s e) c)))" if "attempts (upsert s e) c \<noteq> Map.empty" for c
    using that Cons.prems(3) [of c] by (cases "c = c0") (simp_all add: attempts_upsert [OF u(1) e] board_upsert [OF u(1) e])
  with Cons.IH [of "upsert s e"] Cons.prems(1) u(2) show ?case by simp
qed simp

text \<open>The latest score each call gave to an attempt.\<close>

definition latest_of :: "'e list \<Rightarrow> string \<Rightarrow> (string \<rightharpoonup> int64)" where
  "latest_of es c = map_of (rev (map (\<lambda>e. (attempt (fst (snd (call_of e))), snd (snd (call_of e))))
      (filter (\<lambda>e. fst (call_of e) = c) es)))"

lemma attempts_run:
  "usable_run s es \<Longrightarrow> attempts (foldl upsert s es) c = attempts s c ++ latest_of es c"
proof (induction es arbitrary: s)
  case (Cons e es)
  obtain c0 b v where e: "call_of e = (c0, b, v)" by (metis prod_cases3)
  have u: "usable s e" "usable_run (upsert s e) es" using Cons.prems by auto
  have "latest_of (e # es) c = (if c = c0 then [attempt b \<mapsto> v] ++ latest_of es c else latest_of es c)"
    by (simp add: latest_of_def e map_of_append)
  with Cons.IH [OF u(2)] attempts_upsert [OF u(1) e] show ?case by (auto simp: map_add_assoc fun_eq_iff map_add_def split: option.splits)
qed (simp add: latest_of_def)

lemma best_of_latest:
  assumes "usable_run s es" "attempts s = (\<lambda>_. Map.empty)" "latest_of es c \<noteq> Map.empty"
  shows "board (foldl upsert s es) c = Some (Max (ran (latest_of es c)))"
  using run_best_of [OF assms(1), of c] attempts_run [OF assms(1), of c] assms(2,3) by simp

end

definition stub_step :: "StubStore \<Rightarrow> string list \<times> string \<times> string \<times> int64 \<Rightarrow> StubStore" where
  "stub_step s e = (case e of (ks, c, b, v) \<Rightarrow> stub_UpsertSubmission ks c b v s)"

definition stub_usable :: "StubStore \<Rightarrow> string list \<times> string \<times> string \<times> int64 \<Rightarrow> bool" where
  "stub_usable s e = (case e of (ks, c, b, v) \<Rightarrow> enumerates ks ((stub_subs s c)(attempt b \<mapsto> v)))"

lemma best_loop_Max: "best_loop b vs = Max (insert b (set vs))"
proof -
  have "best_loop b vs = fold max vs b"
    by (induction b vs rule: best_loop.induct) (auto simp: max_def)
  then show ?thesis using Max.set_eq_fold [of b vs] by simp
qed

interpretation stub: best_of_store stub_step snd stub_subs ssScores stub_usable
proof
  fix s e c b v
  assume u: "stub_usable s e" and e: "snd e = (c, b, v)"
  obtain ks where ks: "e = (ks, c, b, v)" using e by (cases e) auto
  let ?m = "(stub_subs s c)(attempt b \<mapsto> v)"
  show "stub_subs (stub_step s e) = (stub_subs s)(c := ?m)"
    by (auto simp: fun_eq_iff stub_step_def ks stub_UpsertSubmission_def stub_subs_def Let_def)
  have "set (range_values ks ?m) = ran ?m" using set_range_values u by (simp add: stub_usable_def ks)
  moreover have "v \<in> ran ?m" by (auto simp: ran_def)
  ultimately show "ssScores (stub_step s e) = (ssScores s)(c \<mapsto> Max (ran ?m))"
    by (simp add: stub_step_def ks stub_UpsertSubmission_def Let_def best_loop_Max insert_absorb)
qed

section \<open>The Redis store\<close>

text \<open>
  The commands of the server the store uses are a parameter, and \<open>redis_laws\<close> names what is relied on, over the
  hashes and the sorted sets of the server. The script runs as one step of the server.
\<close>

record 'r redis =
  rHSET :: "'r \<Rightarrow> string \<Rightarrow> string \<Rightarrow> f64 \<Rightarrow> 'r"
  rHVALS :: "'r \<Rightarrow> string \<Rightarrow> f64 option list"
  rZADD :: "'r \<Rightarrow> string \<Rightarrow> f64 \<Rightarrow> string \<Rightarrow> 'r"
  rZREVRANGE :: "'r \<Rightarrow> string \<Rightarrow> int \<Rightarrow> int \<Rightarrow> (string \<times> f64) list"

definition redis_laws :: "'r redis \<Rightarrow> ('r \<Rightarrow> string \<Rightarrow> (string \<rightharpoonup> f64)) \<Rightarrow> ('r \<Rightarrow> string \<Rightarrow> (string \<rightharpoonup> f64)) \<Rightarrow> bool" where
  "redis_laws R hash zset \<longleftrightarrow>
     (\<forall>r k f v. hash (rHSET R r k f v) = (hash r)(k := (hash r k)(f \<mapsto> v)) \<and> zset (rHSET R r k f v) = zset r)
     \<and> (\<forall>r k x m. zset (rZADD R r k x m) = (zset r)(k := (zset r k)(m \<mapsto> x)) \<and> hash (rZADD R r k x m) = hash r)
     \<and> (\<forall>r k. set (rHVALS R r k) = Some ` ran (hash r k))"

fun lua_best :: "f64 \<Rightarrow> f64 option list \<Rightarrow> f64" where
  "lua_best best [] = best"
| "lua_best best (None # vs) = lua_best best vs"
| "lua_best best (Some n # vs) = lua_best (if flt best n then n else best) vs"

definition upsertSubmissionScript :: "'r redis \<Rightarrow> string \<Rightarrow> string \<Rightarrow> string \<Rightarrow> string \<Rightarrow> f64 \<Rightarrow> 'r \<Rightarrow> 'r" where
  "upsertSubmissionScript R subsKey zsetKey member submission v r =
     (let r1 = rHSET R r subsKey submission v
      in rZADD R r1 zsetKey (lua_best v (rHVALS R r1 subsKey)) member)"

definition redis_key :: "string \<Rightarrow> string" where
  "redis_key k = (if k = '''' then ''leaderboard:scores'' else k)"

definition subs_key :: "string \<Rightarrow> string \<Rightarrow> string" where
  "subs_key key c = key @ '':subs:'' @ c"

text \<open>\<open>err\<close> is the failure of the round trip, if any.\<close>

definition redis_Upsert :: "'r redis \<Rightarrow> string \<Rightarrow> string option \<Rightarrow> string \<Rightarrow> int64 \<Rightarrow> 'r \<Rightarrow> 'r \<times> string option" where
  "redis_Upsert R key err i v r = (case err of
     Some e \<Rightarrow> (r, Some (''zadd '' @ i @ ''='' @ show_int v @ '': '' @ e))
   | None \<Rightarrow> (rZADD R r key (f64_of_int v) i, None))"

definition redis_UpsertSubmission :: "'r redis \<Rightarrow> string \<Rightarrow> string option \<Rightarrow> string \<Rightarrow> string \<Rightarrow> int64 \<Rightarrow> 'r \<Rightarrow> 'r \<times> string option" where
  "redis_UpsertSubmission R key err c sub v r =
     (let sub' = attempt sub
      in case err of
           Some e \<Rightarrow> (r, Some (''upsert submission '' @ c @ ''/'' @ sub' @ ''='' @ show_int v @ '': '' @ e))
         | None \<Rightarrow> (upsertSubmissionScript R (subs_key key c) key c sub' (f64_of_int v) r, None))"

definition redis_Top :: "'r redis \<Rightarrow> string \<Rightarrow> string option \<Rightarrow> int \<Rightarrow> 'r \<Rightarrow> string + Entry list" where
  "redis_Top R key err n r = (let n' = (if n \<le> 0 then 100 else n) in case err of
     Some e \<Rightarrow> Inl (''zrevrange: '' @ e)
   | None \<Rightarrow> Inr (map (\<lambda>(i, x). \<lparr>enContestantID = i, enScore = int64_of_f64 x\<rparr>) (rZREVRANGE R r key 0 (n' - 1))))"

text \<open>The two stores hold the same attempts and the same board.\<close>

definition mirrors :: "('r \<Rightarrow> string \<Rightarrow> (string \<rightharpoonup> f64)) \<Rightarrow> ('r \<Rightarrow> string \<Rightarrow> (string \<rightharpoonup> f64)) \<Rightarrow> string \<Rightarrow> 'r \<Rightarrow> StubStore \<Rightarrow> bool" where
  "mirrors hash zset key r s \<longleftrightarrow>
     (\<forall>c. hash r (subs_key key c) = map_option f64_of_int \<circ> stub_subs s c)
     \<and> zset r key = map_option f64_of_int \<circ> ssScores s"

text \<open>Integers a \<open>float64\<close> holds exactly are compared the same way on both sides.\<close>

definition exact53 :: "int \<Rightarrow> bool" where
  "exact53 v \<longleftrightarrow> \<bar>v\<bar> < 2 ^ 53"

lemma flt_of_int: "exact53 a \<Longrightarrow> exact53 b \<Longrightarrow> flt (f64_of_int a) (f64_of_int b) \<longleftrightarrow> a < b"
  by (simp add: exact53_def f64_of_int_exact)

lemma lua_best_of_int:
  assumes "exact53 b" "\<forall>x \<in> set vs. \<exists>v. x = Some (f64_of_int v) \<and> exact53 v"
  shows "\<exists>m. lua_best (f64_of_int b) vs = f64_of_int m \<and> exact53 m \<and> b \<le> m
     \<and> (m = b \<or> Some (f64_of_int m) \<in> set vs) \<and> (\<forall>v. exact53 v \<longrightarrow> Some (f64_of_int v) \<in> set vs \<longrightarrow> v \<le> m)"
  using assms
proof (induction vs arbitrary: b)
  case (Cons x vs)
  then obtain v where x: "x = Some (f64_of_int v)" "exact53 v" by auto
  let ?b = "if b < v then v else b"
  have inj: "f64_of_int u = f64_of_int w \<Longrightarrow> exact53 u \<Longrightarrow> exact53 w \<Longrightarrow> u = w" for u w
    by (simp add: exact53_def f64_of_int_exact)
  have eq: "lua_best (f64_of_int b) (x # vs) = lua_best (f64_of_int ?b) vs"
    using x Cons.prems(1) flt_of_int by simp
  have "exact53 ?b" "\<forall>x \<in> set vs. \<exists>v. x = Some (f64_of_int v) \<and> exact53 v" using Cons.prems x(2) by auto
  then obtain m where m: "lua_best (f64_of_int ?b) vs = f64_of_int m" "exact53 m" "?b \<le> m"
    "m = ?b \<or> Some (f64_of_int m) \<in> set vs" "\<forall>u. exact53 u \<longrightarrow> Some (f64_of_int u) \<in> set vs \<longrightarrow> u \<le> m"
    using Cons.IH [of ?b] by blast
  have up: "u \<le> m" if "exact53 u" "Some (f64_of_int u) \<in> set (x # vs)" for u
    using that m(3,5) x inj [of u v] by (auto split: if_splits)
  have "b \<le> m" "m = b \<or> Some (f64_of_int m) \<in> set (x # vs)" using m(3,4) x(1) by (auto split: if_splits)
  with eq m(1,2) up show ?case by (intro exI [of _ m]) auto
qed auto

lemma script_simulates:
  assumes L: "redis_laws R hash zset" and M: "mirrors hash zset key r s"
    and v: "exact53 v" "\<forall>w \<in> ran (stub_subs s c). exact53 w" and fin: "finite (dom (stub_subs s c))"
  shows "mirrors hash zset key (upsertSubmissionScript R (subs_key key c) key c (attempt b) (f64_of_int v) r)
     (s\<lparr>ssSubs := (ssSubs s)(c \<mapsto> (stub_subs s c)(attempt b \<mapsto> v)),
        ssScores := (ssScores s)(c \<mapsto> Max (ran ((stub_subs s c)(attempt b \<mapsto> v))))\<rparr>)"
proof -
  let ?m = "(stub_subs s c)(attempt b \<mapsto> v)" and ?r1 = "rHSET R r (subs_key key c) (attempt b) (f64_of_int v)"
  have h1: "hash ?r1 = (hash r)(subs_key key c := (hash r (subs_key key c))(attempt b \<mapsto> f64_of_int v))" "zset ?r1 = zset r"
    using L by (simp_all add: redis_laws_def)
  then have hm: "hash ?r1 (subs_key key c) = map_option f64_of_int \<circ> ?m"
    using M by (auto simp: mirrors_def fun_eq_iff)
  have "ran (map_option f64_of_int \<circ> ?m) = f64_of_int ` ran ?m" by (force simp: ran_def)
  moreover have "set (rHVALS R ?r1 (subs_key key c)) = Some ` ran (hash ?r1 (subs_key key c))" using L unfolding redis_laws_def by blast
  ultimately have vals: "set (rHVALS R ?r1 (subs_key key c)) = Some ` f64_of_int ` ran ?m" unfolding hm by simp
  have ex: "\<forall>w \<in> ran ?m. exact53 w" using v by (auto simp: ran_def)
  obtain m where m: "lua_best (f64_of_int v) (rHVALS R ?r1 (subs_key key c)) = f64_of_int m" "exact53 m" "v \<le> m"
    "m = v \<or> Some (f64_of_int m) \<in> set (rHVALS R ?r1 (subs_key key c))"
    "\<forall>u. exact53 u \<longrightarrow> Some (f64_of_int u) \<in> set (rHVALS R ?r1 (subs_key key c)) \<longrightarrow> u \<le> m"
    using lua_best_of_int [OF v(1), of "rHVALS R ?r1 (subs_key key c)"] ex vals by auto
  have inj: "f64_of_int u = f64_of_int w \<Longrightarrow> exact53 u \<Longrightarrow> exact53 w \<Longrightarrow> u = w" for u w
    by (simp add: exact53_def f64_of_int_exact)
  have "v \<in> ran ?m" by (auto simp: ran_def)
  then have "m \<in> ran ?m" using m(2,4) ex inj unfolding vals by (auto dest: inj)
  moreover have "\<forall>u \<in> ran ?m. u \<le> m" using m(5) ex unfolding vals by blast
  moreover have "finite (ran ?m)" using fin by (intro finite_ran) simp
  ultimately have "Max (ran ?m) = m" by (intro Max_eqI) auto
  moreover have "subs_key key c' = subs_key key c \<longleftrightarrow> c' = c" for c' by (simp add: subs_key_def)
  moreover have "zset (upsertSubmissionScript R (subs_key key c) key c (attempt b) (f64_of_int v) r) = (zset r)(key := (zset r key)(c \<mapsto> f64_of_int m))"
    "hash (upsertSubmissionScript R (subs_key key c) key c (attempt b) (f64_of_int v) r) = hash ?r1"
    using L m(1) h1(2) by (simp_all add: upsertSubmissionScript_def Let_def redis_laws_def)
  ultimately show ?thesis
    using M h1(1) by (auto simp: mirrors_def fun_eq_iff stub_subs_def)
qed

section \<open>The store interface\<close>

text \<open>
  \<open>store.Store\<close> as the operations of an implementation; \<open>'o\<close> is what the environment contributes to a call: the
  iteration order of a map for the in-memory store, the failure of the round trip for Redis.
\<close>

record ('s, 'o) Store =
  stUpsert :: "'o \<Rightarrow> string \<Rightarrow> int64 \<Rightarrow> 's \<Rightarrow> 's \<times> string option"
  stUpsertSubmission :: "'o \<Rightarrow> string \<Rightarrow> string \<Rightarrow> int64 \<Rightarrow> 's \<Rightarrow> 's \<times> string option"
  stTop :: "'o \<Rightarrow> int \<Rightarrow> 's \<Rightarrow> string + Entry list"

definition stub_store :: "(StubStore, string list) Store" where
  "stub_store = \<lparr>stUpsert = (\<lambda>ks i v s. (stub_Upsert i v s, None)),
     stUpsertSubmission = (\<lambda>ks c b v s. (stub_UpsertSubmission ks c b v s, None)),
     stTop = (\<lambda>ks n s. Inr (stub_Top ks n s))\<rparr>"

definition redis_store :: "'r redis \<Rightarrow> string \<Rightarrow> ('r, string option) Store" where
  "redis_store R key = \<lparr>stUpsert = redis_Upsert R key, stUpsertSubmission = redis_UpsertSubmission R key, stTop = redis_Top R key\<rparr>"

section \<open>Fetching\<close>

record AggSnapshot =
  agContestantID :: string
  agSubmissionID :: string
  agCount :: int64
  agRejected :: int64
  agTimeouts :: int64
  agTPS :: f64
  agP50Ns :: int64
  agP90Ns :: int64
  agP99Ns :: int64

record ValReport =
  vrContestantID :: string
  vrSubmissionID :: string
  vrTotalChecked :: int64
  vrMismatches :: int64
  vrCorrectness :: f64

record CrashReport =
  crContestantID :: string
  crSubmissionID :: string
  crCrashes :: int64

record mergedRow =
  rwContestantID :: string
  rwSubmissionID :: string
  rwCount :: int64
  rwRejected :: int64
  rwTimeouts :: int64
  rwAvgTPS :: f64
  rwP50Ns :: int64
  rwP90Ns :: int64
  rwP99Ns :: int64

text \<open>A GET: the request fails, the status is not 200, or the body decodes or not.\<close>

datatype 'a http_get = GetFailed string | GetStatus nat | GetBody "string + 'a"

definition getJSON :: "string \<Rightarrow> 'a http_get \<Rightarrow> string + 'a" where
  "getJSON url g = (case g of GetFailed e \<Rightarrow> Inl e
     | GetStatus n \<Rightarrow> Inl (url @ '': status '' @ show_nat n)
     | GetBody r \<Rightarrow> r)"

definition snapshot_of_row :: "mergedRow \<Rightarrow> AggSnapshot" where
  "snapshot_of_row r = \<lparr>agContestantID = rwContestantID r, agSubmissionID = rwSubmissionID r, agCount = rwCount r,
     agRejected = rwRejected r, agTimeouts = rwTimeouts r, agTPS = rwAvgTPS r, agP50Ns = rwP50Ns r,
     agP90Ns = rwP90Ns r, agP99Ns = rwP99Ns r\<rparr>"

definition fetch_Snapshots :: "string \<Rightarrow> mergedRow list http_get \<Rightarrow> string + AggSnapshot list" where
  "fetch_Snapshots aggURL g = (case getJSON (aggURL @ ''/metrics/merged'') g of
     Inl e \<Rightarrow> Inl e | Inr rows \<Rightarrow> Inr (map snapshot_of_row rows))"

definition fetch_Reports :: "string \<Rightarrow> ValReport list http_get \<Rightarrow> string + ValReport list" where
  "fetch_Reports valURL g = getJSON (valURL @ ''/validate'') g"

definition fetch_Crashes :: "string \<Rightarrow> CrashReport list http_get \<Rightarrow> string + CrashReport list" where
  "fetch_Crashes sandboxURL g = (if sandboxURL = '''' then Inr [] else getJSON (sandboxURL @ ''/crashes'') g)"

section \<open>Tick\<close>

definition note_report :: "(string \<rightharpoonup> f64) \<times> (string \<rightharpoonup> f64) \<Rightarrow> ValReport \<Rightarrow> (string \<rightharpoonup> f64) \<times> (string \<rightharpoonup> f64)" where
  "note_report m r = (case m of (bySub, byCon) \<Rightarrow>
     if vrTotalChecked r \<le> 0 then (bySub, byCon)
     else (if vrSubmissionID r \<noteq> '''' then bySub(vrSubmissionID r \<mapsto> vrCorrectness r) else bySub,
           byCon(vrContestantID r \<mapsto> vrCorrectness r)))"

text \<open>An absent crash count reads as zero.\<close>

definition note_crash :: "(string \<Rightarrow> int64) \<times> (string \<Rightarrow> int64) \<Rightarrow> CrashReport \<Rightarrow> (string \<Rightarrow> int64) \<times> (string \<Rightarrow> int64)" where
  "note_crash m c = (case m of (bySub, byCon) \<Rightarrow>
     (if crSubmissionID c \<noteq> '''' then bySub(crSubmissionID c := crCrashes c) else bySub,
      byCon(crContestantID c := wrap64 (byCon (crContestantID c) + crCrashes c))))"

definition snap_inputs :: "(string \<rightharpoonup> f64) \<times> (string \<rightharpoonup> f64) \<Rightarrow> (string \<Rightarrow> int64) \<times> (string \<Rightarrow> int64) \<Rightarrow> AggSnapshot \<Rightarrow> Inputs option" where
  "snap_inputs corr crash s =
     (let found = (if agSubmissionID s \<noteq> '''' then map_option (\<lambda>c. (c, fst crash (agSubmissionID s))) (fst corr (agSubmissionID s))
                   else map_option (\<lambda>c. (c, snd crash (agContestantID s))) (snd corr (agContestantID s)))
      in map_option (\<lambda>(c, crashes). \<lparr>inP99Ns = agP99Ns s, inTPS = agTPS s, inCorrectness = c, inCrashes = crashes,
                                     inTimeouts = agTimeouts s\<rparr>) found)"

text \<open>The calls of \<open>UpsertSubmission\<close> a tick makes, in order. A failed call is logged and the loop goes on, so
  the calls do not depend on the store.\<close>

definition tick_calls :: "SConfig \<Rightarrow> AggSnapshot list \<Rightarrow> ValReport list \<Rightarrow> CrashReport list \<Rightarrow> (string \<times> string \<times> int64) list" where
  "tick_calls cfg snaps reports crashes =
     (let corr = foldl note_report (Map.empty, Map.empty) reports;
          crash = foldl note_crash (\<lambda>_. 0, \<lambda>_. 0) crashes
      in List.map_filter (\<lambda>s. map_option (\<lambda>i. (agContestantID s, agSubmissionID s, reFinalScore (Compute cfg i)))
                                    (snap_inputs corr crash s)) snaps)"

fun upsert_all :: "('s, 'o) Store \<Rightarrow> (nat \<Rightarrow> 'o) \<Rightarrow> nat \<Rightarrow> (string \<times> string \<times> int64) list \<Rightarrow> 's \<Rightarrow> 's" where
  "upsert_all st env i [] s = s"
| "upsert_all st env i ((c, b, v) # calls) s = upsert_all st env (Suc i) calls (fst (stUpsertSubmission st (env i) c b v s))"

record ('o) tick_env =
  teSnaps :: "string + AggSnapshot list"
  teReports :: "string + ValReport list"
  teCrashes :: "string + CrashReport list"
  teStore :: "nat \<Rightarrow> 'o"
  teTop :: 'o
  teMillis :: int64
  teClients :: "client list"

type_synonym payload = "Entry list \<times> int64"

text \<open>The new store and hub and the error, if any; \<open>None\<close> is a panic of the broadcast.\<close>

definition Tick :: "SConfig \<Rightarrow> ('s, 'o) Store \<Rightarrow> int \<Rightarrow> 'o tick_env \<Rightarrow> 's \<times> payload Hub \<Rightarrow> ('s \<times> payload Hub \<times> string option) option" where
  "Tick cfg st topN E sh = (case sh of (s, h) \<Rightarrow>
     case teSnaps E of Inl e \<Rightarrow> Some (s, h, Some (''fetch snapshots: '' @ e)) | Inr snaps \<Rightarrow>
     (case teReports E of Inl e \<Rightarrow> Some (s, h, Some (''fetch reports: '' @ e)) | Inr reports \<Rightarrow>
      let crashes = (case teCrashes E of Inl e \<Rightarrow> [] | Inr cs \<Rightarrow> cs);
          s1 = upsert_all st (teStore E) 0 (tick_calls cfg snaps reports crashes) s
      in case stTop st (teTop E) topN s1 of
           Inl e \<Rightarrow> Some (s1, h, Some (''store top: '' @ e))
         | Inr rows \<Rightarrow> map_option (\<lambda>h1. (s1, h1, None)) (Broadcast (teClients E) (rows, teMillis E) h)))"

section \<open>The seeder\<close>

definition maxScore :: int64 where
  "maxScore = 1000"

definition driftRange :: int where
  "driftRange = 51"

definition defaultContestants :: "(string \<times> int64) list" where
  "defaultContestants = [(''team-alpha'', 880), (''team-bravo'', 740), (''team-charlie'', 690), (''team-delta'', 610),
     (''team-echo'', 540), (''team-foxtrot'', 420)]"

text \<open>\<open>r\<close> is the result of \<open>rng.Intn(driftRange)\<close>.\<close>

definition seed_drift :: "int \<Rightarrow> int64 \<Rightarrow> int64" where
  "seed_drift r prev = (let drift = r - go_div driftRange 2; next_score = wrap64 (prev + drift)
     in if next_score < 0 then 0 else if maxScore < next_score then maxScore else next_score)"

text \<open>The loop of \<open>flush\<close>: contestants in the order of the map, one draw each.\<close>

fun seed_loop :: "('s, 'o) Store \<Rightarrow> (nat \<Rightarrow> 'o) \<Rightarrow> nat \<Rightarrow> (string \<times> int) list \<Rightarrow> (string \<rightharpoonup> int64) \<times> 's \<Rightarrow> (string \<rightharpoonup> int64) \<times> 's" where
  "seed_loop st env i [] ms = ms"
| "seed_loop st env i ((k, r) # ds) (m, s) =
     (case m k of None \<Rightarrow> seed_loop st env (Suc i) ds (m, s)
      | Some prev \<Rightarrow> let v = seed_drift r prev in seed_loop st env (Suc i) ds (m(k \<mapsto> v), fst (stUpsert st (env i) k v s)))"

definition seed_flush :: "('s, 'o) Store \<Rightarrow> int \<Rightarrow> (nat \<Rightarrow> 'o) \<Rightarrow> 'o \<Rightarrow> (string \<times> int) list \<Rightarrow> int64 \<Rightarrow> client list
     \<Rightarrow> (string \<rightharpoonup> int64) \<times> 's \<times> payload Hub \<Rightarrow> ((string \<rightharpoonup> int64) \<times> 's \<times> payload Hub) option" where
  "seed_flush st topN env topEnv draws ms cs msh = (case msh of (m, s, h) \<Rightarrow>
     case seed_loop st env 0 draws (m, s) of (m1, s1) \<Rightarrow>
       (case stTop st topEnv topN s1 of Inl e \<Rightarrow> Some (m1, s1, h)
        | Inr rows \<Rightarrow> map_option (\<lambda>h1. (m1, s1, h1)) (Broadcast cs (rows, ms) h)))"

section \<open>Handlers\<close>

definition lb_handleHealth :: "'a reply" where
  "lb_handleHealth = StatusOnly 200"

definition handleLeaderboard :: "('s, 'o) Store \<Rightarrow> 'o \<Rightarrow> string \<Rightarrow> 's \<Rightarrow> Entry list reply" where
  "handleLeaderboard st env t s = (case stTop st env (query_int 100 t) s of
     Inl e \<Rightarrow> HttpError 500 e | Inr entries \<Rightarrow> JSON entries)"

section \<open>What a tick scores\<close>

text \<open>The last report of a submission that checked a fill, and its last crash row.\<close>

definition own_verdict :: "string \<Rightarrow> ValReport list \<Rightarrow> ValReport option" where
  "own_verdict b reports = find (\<lambda>r. vrSubmissionID r = b \<and> 0 < vrTotalChecked r) (rev reports)"

definition own_crashes :: "string \<Rightarrow> CrashReport list \<Rightarrow> int64" where
  "own_crashes b crashes = (case find (\<lambda>c. crSubmissionID c = b) (rev crashes) of None \<Rightarrow> 0 | Some c \<Rightarrow> crCrashes c)"

lemma note_reports_own:
  "b \<noteq> '''' \<Longrightarrow> fst (foldl note_report (Map.empty, Map.empty) reports) b = map_option vrCorrectness (own_verdict b reports)"
  by (induction reports rule: rev_induct) (auto simp: own_verdict_def note_report_def split: prod.splits)

lemma note_crashes_own:
  "b \<noteq> '''' \<Longrightarrow> fst (foldl note_crash (\<lambda>_. 0, \<lambda>_. 0) crashes) b = own_crashes b crashes"
  by (induction crashes rule: rev_induct) (auto simp: own_crashes_def note_crash_def split: prod.splits)

definition own_inputs :: "AggSnapshot \<Rightarrow> ValReport \<Rightarrow> int64 \<Rightarrow> Inputs" where
  "own_inputs s r crashes = \<lparr>inP99Ns = agP99Ns s, inTPS = agTPS s, inCorrectness = vrCorrectness r, inCrashes = crashes,
     inTimeouts = agTimeouts s\<rparr>"

lemma tick_calls_Cons:
  "tick_calls cfg (s # snaps) reports crashes = tick_calls cfg [s] reports crashes @ tick_calls cfg snaps reports crashes"
  by (simp add: tick_calls_def Let_def map_filter_simps split: option.splits)

lemma tick_calls_own:
  assumes "agSubmissionID s \<noteq> ''''"
  shows "tick_calls cfg [s] reports crashes = (case own_verdict (agSubmissionID s) reports of None \<Rightarrow> []
     | Some r \<Rightarrow> [(agContestantID s, agSubmissionID s, reFinalScore (Compute cfg (own_inputs s r (own_crashes (agSubmissionID s) crashes))))])"
  using assms by (simp add: tick_calls_def Let_def map_filter_simps snap_inputs_def note_reports_own note_crashes_own
      own_inputs_def split: option.splits)

lemma own_verdict_checked: "own_verdict b reports = Some r \<Longrightarrow> r \<in> set reports \<and> vrSubmissionID r = b \<and> 0 < vrTotalChecked r"
proof -
  have "find P xs = Some x \<Longrightarrow> x \<in> set xs \<and> P x" for P and x :: ValReport and xs
    by (induction xs) (auto split: if_splits)
  then show "own_verdict b reports = Some r \<Longrightarrow> r \<in> set reports \<and> vrSubmissionID r = b \<and> 0 < vrTotalChecked r"
    unfolding own_verdict_def by fastforce
qed

section \<open>The board after a tick\<close>

fun stub_events :: "(nat \<Rightarrow> string list) \<Rightarrow> nat \<Rightarrow> (string \<times> string \<times> int64) list \<Rightarrow> (string list \<times> string \<times> string \<times> int64) list" where
  "stub_events env i [] = []"
| "stub_events env i (x # xs) = (env i, x) # stub_events env (Suc i) xs"

lemma upsert_all_stub: "upsert_all stub_store env i calls s = foldl stub_step s (stub_events env i calls)"
  by (induction stub_store env i calls s rule: upsert_all.induct) (simp_all add: stub_store_def stub_step_def)

lemma stub_events_calls [simp]: "map snd (stub_events env i calls) = calls"
  by (induction env i calls rule: stub_events.induct) simp_all

text \<open>The order of the rows: falling scores, and the best rows first.\<close>

lemma range_items_ran: "enumerates ks m \<Longrightarrow> set (range_items ks m) = {(k, v). m k = Some v}"
  using range_items_iff by fast

lemma range_items_fst: "enumerates ks m \<Longrightarrow> map fst (range_items ks m) = ks"
proof -
  have "map fst (range_items ks m) = ks" if "set ks \<subseteq> dom m" for ks
    using that by (induction ks) (auto simp: range_items_def map_filter_simps)
  then show "enumerates ks m \<Longrightarrow> map fst (range_items ks m) = ks" by (simp add: enumerates_def)
qed

lemma stub_Top_rows:
  assumes "enumerates ks (ssScores s)"
  shows "sorted (map (\<lambda>e. - enScore e) (stub_Top ks n s))"
    "e \<in> set (stub_Top ks n s) \<Longrightarrow> ssScores s (enContestantID e) = Some (enScore e)"
    "length (stub_Top ks n s) = (if 0 < n then min (nat n) (card (dom (ssScores s))) else card (dom (ssScores s)))"
    "distinct (map enContestantID (stub_Top ks n s))"
    "ssScores s i = Some v \<Longrightarrow> (\<forall>e \<in> set (stub_Top ks n s). enContestantID e \<noteq> i) \<Longrightarrow> e \<in> set (stub_Top ks n s) \<Longrightarrow> v \<le> enScore e"
proof -
  let ?es = "map (\<lambda>(i, v). \<lparr>enContestantID = i, enScore = v\<rparr>) (range_items ks (ssScores s))"
  let ?srt = "sort_key (\<lambda>e. - enScore e) ?es"
  have top: "stub_Top ks n s = (if 0 < n \<and> n < int (length ?srt) then take (nat n) ?srt else ?srt)"
    by (simp add: stub_Top_def Let_def)
  have so: "sorted (map (\<lambda>e. - enScore e) ?srt)" by simp
  show "sorted (map (\<lambda>e. - enScore e) (stub_Top ks n s))"
    unfolding top using so by (auto simp: take_map [symmetric] intro: sorted_wrt_take)
  have mem: "e \<in> set ?srt \<longleftrightarrow> ssScores s (enContestantID e) = Some (enScore e)" for e
    by (cases e) (auto simp: range_items_ran [OF assms] image_iff)
  have sub: "set (stub_Top ks n s) \<subseteq> set ?srt" unfolding top by (auto dest: in_set_takeD)
  then show "e \<in> set (stub_Top ks n s) \<Longrightarrow> ssScores s (enContestantID e) = Some (enScore e)" using mem by blast
  have "length ?srt = length ks" using arg_cong [OF range_items_fst [OF assms], of length] by simp
  also have "\<dots> = card (dom (ssScores s))" using assms by (metis enumerates_def distinct_card)
  finally have len: "length ?srt = card (dom (ssScores s))" .
  then show "length (stub_Top ks n s) = (if 0 < n then min (nat n) (card (dom (ssScores s))) else card (dom (ssScores s)))"
    unfolding top by auto
  have "map enContestantID ?es = ks"
    using range_items_fst [OF assms] by (simp add: comp_def case_prod_unfold)
  then have "distinct (map enContestantID ?es)" using assms by (simp add: enumerates_def)
  moreover have "mset (map enContestantID ?srt) = mset (map enContestantID ?es)"
    by (simp only: mset_map mset_sort)
  ultimately have d: "distinct (map enContestantID ?srt)" using mset_eq_imp_distinct_iff by blast
  then show "distinct (map enContestantID (stub_Top ks n s))"
    unfolding top by (auto simp: take_map [symmetric] intro: distinct_take)
  assume i: "ssScores s i = Some v" and out: "\<forall>e \<in> set (stub_Top ks n s). enContestantID e \<noteq> i" and e: "e \<in> set (stub_Top ks n s)"
  let ?x = "\<lparr>enContestantID = i, enScore = v\<rparr>"
  have x: "?x \<in> set ?srt" using mem [of ?x] i by simp
  then have t: "stub_Top ks n s = take (nat n) ?srt" "?x \<notin> set (take (nat n) ?srt)"
    using top out by (auto split: if_splits)
  then have "?x \<in> set (drop (nat n) ?srt)" using x by (metis Un_iff append_take_drop_id set_append)
  moreover have "sorted (map (\<lambda>e. - enScore e) (take (nat n) ?srt) @ map (\<lambda>e. - enScore e) (drop (nat n) ?srt))"
    using so by (simp only: map_append [symmetric] append_take_drop_id)
  then have "\<forall>y \<in> set (take (nat n) ?srt). \<forall>z \<in> set (drop (nat n) ?srt). - enScore y \<le> - enScore z"
    unfolding sorted_append set_map by blast
  ultimately have "- enScore e \<le> - enScore ?x" using e unfolding t(1) by blast
  then show "v \<le> enScore e" by simp
qed

lemma seed_drift_bounds: "0 \<le> seed_drift r prev" "seed_drift r prev \<le> 1000"
  by (auto simp: seed_drift_def Let_def maxScore_def)

lemma seed_drift_step:
  assumes "0 \<le> r" "r < 51" "0 \<le> prev" "prev \<le> 1000"
  shows "\<bar>seed_drift r prev - prev\<bar> \<le> 25"
proof -
  have g: "go_div driftRange 2 = 25" by (simp add: driftRange_def)
  have "wrap64 (prev + (r - 25)) = prev + (r - 25)"
    using assms by (intro wrap64_id) (simp add: in_int64_def min_int64_def max_int64_def)
  then show ?thesis using assms by (auto simp: seed_drift_def g Let_def maxScore_def abs_le_iff)
qed

definition seed_inv :: "(string \<rightharpoonup> int64) \<Rightarrow> bool" where
  "seed_inv m \<longleftrightarrow> (\<forall>v \<in> ran m. 0 \<le> v \<and> v \<le> 1000)"

lemma seed_loop_bounds:
  assumes "seed_inv m" "\<forall>(k, r) \<in> set ds. 0 \<le> r \<and> r < 51" "distinct (map fst ds)"
  shows "seed_inv (fst (seed_loop st env i ds (m, s)))
     \<and> dom (fst (seed_loop st env i ds (m, s))) = dom m
     \<and> (\<forall>k v. m k = Some v \<longrightarrow> (\<exists>v'. fst (seed_loop st env i ds (m, s)) k = Some v' \<and> \<bar>v' - v\<bar> \<le> 25))"
  using assms
proof (induction st env i ds "(m, s)" arbitrary: m s rule: seed_loop.induct)
  case (2 st env i k r ds m s)
  show ?case
  proof (cases "m k")
    case None
    with 2(1) [OF None] 2(3-) show ?thesis by simp
  next
    case (Some prev)
    let ?v = "seed_drift r prev"
    have p: "0 \<le> prev" "prev \<le> 1000" using 2(3) Some by (auto simp: seed_inv_def ran_def)
    have inv: "seed_inv (m(k \<mapsto> ?v))"
      using 2(3) seed_drift_bounds by (auto simp: seed_inv_def ran_def split: if_splits)
    let ?m = "fst (seed_loop st env (Suc i) ds (m(k \<mapsto> ?v), fst (stUpsert st (env i) k ?v s)))"
    have rest: "\<forall>(k, r) \<in> set ds. 0 \<le> r \<and> r < 51" "distinct (map fst ds)" "k \<notin> fst ` set ds" using 2(4,5) by auto
    from 2(2) [OF Some refl inv rest(1,2)] have IH: "seed_inv ?m" "dom ?m = dom (m(k \<mapsto> ?v))"
      "\<forall>j v. (m(k \<mapsto> ?v)) j = Some v \<longrightarrow> (\<exists>v'. ?m j = Some v' \<and> \<bar>v' - v\<bar> \<le> 25)" by auto
    have same: "fst (seed_loop st env j ds (m0, s0)) k = m0 k" if "k \<notin> fst ` set ds" for j m0 s0
      using that by (induction st env j ds "(m0, s0)" arbitrary: m0 s0 rule: seed_loop.induct) (auto simp: Let_def split: option.splits)
    have "?m k = Some ?v" using same [OF rest(3)] by simp
    moreover have "\<bar>?v - prev\<bar> \<le> 25" using seed_drift_step p 2(4) by simp
    ultimately have "\<exists>v'. ?m j = Some v' \<and> \<bar>v' - v\<bar> \<le> 25" if "m j = Some v" for j v
      using that IH(3) Some by (cases "j = k") auto
    with IH(1,2) Some show ?thesis by (auto simp: Let_def)
  qed
qed auto

lemma tick_calls_iff:
  assumes "b \<noteq> ''''"
  shows "(c, b, v) \<in> set (tick_calls cfg snaps reports crashes) \<longleftrightarrow>
     (\<exists>s \<in> set snaps. \<exists>r. agContestantID s = c \<and> agSubmissionID s = b \<and> own_verdict b reports = Some r
        \<and> v = reFinalScore (Compute cfg (own_inputs s r (own_crashes b crashes))))"
proof (induction snaps)
  case Nil
  show ?case by (simp add: tick_calls_def map_filter_simps Let_def)
next
  case (Cons s snaps)
  have "(c, b, v) \<in> set (tick_calls cfg [s] reports crashes) \<longleftrightarrow>
     (\<exists>r. agContestantID s = c \<and> agSubmissionID s = b \<and> own_verdict b reports = Some r
        \<and> v = reFinalScore (Compute cfg (own_inputs s r (own_crashes b crashes))))"
  proof (cases "agSubmissionID s = ''''")
    case True
    then show ?thesis using assms by (auto simp: tick_calls_def Let_def map_filter_simps split: option.splits)
  next
    case False
    then show ?thesis by (cases "own_verdict (agSubmissionID s) reports") (auto simp: tick_calls_own)
  qed
  with Cons show ?case by (subst tick_calls_Cons) auto
qed

section \<open>Properties\<close>

text \<open>C12: A tick scores an attempt exactly when a snapshot of it was fetched and its own validator row checked
  at least one fill, with the correctness of its last such row and the crashes of its own last crash row,
  or none: no attempt is scored from another attempt's verdict or crashes, and none before its verdict.\<close>

theorem attempts_scored_from_own_verdict:
  assumes "b \<noteq> ''''"
  shows "(c, b, v) \<in> set (tick_calls cfg snaps reports crashes) \<longleftrightarrow>
     (\<exists>s \<in> set snaps. \<exists>r. agContestantID s = c \<and> agSubmissionID s = b \<and> own_verdict b reports = Some r
        \<and> v = reFinalScore (Compute cfg (own_inputs s r (own_crashes b crashes))))"
  using assms by (rule tick_calls_iff)

definition sample_snap :: AggSnapshot where
  "sample_snap = \<lparr>agContestantID = ''c'', agSubmissionID = ''s'', agCount = 10, agRejected = 0, agTimeouts = 0,
     agTPS = Fin 100, agP50Ns = 1, agP90Ns = 2, agP99Ns = 3\<rparr>"

definition sample_report :: ValReport where
  "sample_report = \<lparr>vrContestantID = ''c'', vrSubmissionID = ''s'', vrTotalChecked = 10, vrMismatches = 0, vrCorrectness = Fin 1\<rparr>"

theorem attempts_scored_from_own_verdict_witness:
  "(''c'', ''s'', reFinalScore (Compute DefaultConfig (own_inputs sample_snap sample_report 0)))
     \<in> set (tick_calls DefaultConfig [sample_snap] [sample_report] [])
   \<and> (\<forall>v. (''c'', ''s'', v) \<notin> set (tick_calls DefaultConfig [sample_snap] [sample_report\<lparr>vrTotalChecked := 0\<rparr>] []))"
  using attempts_scored_from_own_verdict [of "''s''" "''c''" _ DefaultConfig "[sample_snap]"]
  by (simp add: sample_snap_def sample_report_def own_verdict_def own_crashes_def)

text \<open>The in-memory store ranks a contestant by the best of the latest scores of its attempts, whatever
  the order of the calls and of the map iterations: a later, worse attempt never lowers the rank, and an
  attempt scored again counts with its new score.\<close>

theorem board_ranks_best_attempt:
  assumes "stub.usable_run NewStubStore es" "\<exists>e \<in> set es. fst (snd e) = c"
  shows "ssScores (foldl stub_step NewStubStore es) c = Some (Max (ran (stub.latest_of es c)))"
proof (rule stub.best_of_latest [OF assms(1)])
  show "stub_subs NewStubStore = (\<lambda>_. Map.empty)" by (simp add: fun_eq_iff stub_subs_def NewStubStore_def)
  from assms(2) have "filter (\<lambda>e. fst (snd e) = c) es \<noteq> []" by (auto simp: filter_empty_conv)
  then show "stub.latest_of es c \<noteq> Map.empty" by (simp add: stub.latest_of_def)
qed

theorem board_ranks_best_attempt_witness:
  "ssScores (foldl stub_step NewStubStore [([''s1''], ''c'', ''s1'', 50), ([''s2'', ''s1''], ''c'', ''s2'', 40)]) ''c'' = Some 50"
proof -
  let ?es = "[([''s1''], ''c'', ''s1'', 50), ([''s2'', ''s1''], ''c'', ''s2'', 40)]"
  have "stub.usable_run NewStubStore ?es"
    by (simp add: stub_usable_def stub_step_def stub_UpsertSubmission_def stub_subs_def NewStubStore_def enumerates_def attempt_def Let_def)
  moreover have "ran (stub.latest_of ?es ''c'') = {50, 40}"
    by (simp add: stub.latest_of_def attempt_def insert_commute)
  ultimately show ?thesis using board_ranks_best_attempt [of ?es "''c''"] by simp
qed

text \<open>The rows of \<open>Top\<close> are rows of the board, each contestant once, in falling order of score; for a
  positive limit there are as many as the limit or the board allows, and no contestant left out scores
  above one that is listed.\<close>

theorem Top_lists_the_best:
  assumes "enumerates ks (ssScores s)" "0 < n"
  shows "sorted (map (\<lambda>e. - enScore e) (stub_Top ks n s)) \<and> distinct (map enContestantID (stub_Top ks n s))
     \<and> length (stub_Top ks n s) = min (nat n) (card (dom (ssScores s)))
     \<and> (\<forall>e \<in> set (stub_Top ks n s). ssScores s (enContestantID e) = Some (enScore e)
          \<and> (\<forall>i v. ssScores s i = Some v \<longrightarrow> (\<forall>e' \<in> set (stub_Top ks n s). enContestantID e' \<noteq> i) \<longrightarrow> v \<le> enScore e))"
proof (intro conjI ballI allI impI)
  fix e i v
  assume "e \<in> set (stub_Top ks n s)"
  then show "ssScores s (enContestantID e) = Some (enScore e)" by (rule stub_Top_rows(2) [OF assms(1)])
  assume "e \<in> set (stub_Top ks n s)" "ssScores s i = Some v" "\<forall>e' \<in> set (stub_Top ks n s). enContestantID e' \<noteq> i"
  then show "v \<le> enScore e" using stub_Top_rows(5) [OF assms(1)] by blast
qed (use stub_Top_rows(1,3,4) [OF assms(1), of n] assms(2) in \<open>simp_all\<close>)

theorem Top_lists_the_best_witness:
  "length (stub_Top [''a'', ''b''] 1 (stub_Upsert ''b'' 7 (stub_Upsert ''a'' 5 NewStubStore))) = 1"
proof -
  have "enumerates [''a'', ''b''] (ssScores (stub_Upsert ''b'' 7 (stub_Upsert ''a'' 5 NewStubStore)))"
    by (auto simp: enumerates_def stub_Upsert_def NewStubStore_def)
  from Top_lists_the_best [OF this, of 1] show ?thesis by (simp add: stub_Upsert_def NewStubStore_def)
qed

text \<open>C13: The Redis store simulates the in-memory one: if both hold the same attempts and board, then after
  the script has run on one and the call on the other they hold the same again, for scores a
  \<open>float64\<close> represents exactly.\<close>

theorem redis_simulates_stub:
  assumes "redis_laws R hash zset" "mirrors hash zset key r s" "exact53 v" "\<forall>w \<in> ran (stub_subs s c). exact53 w"
    and "stub_usable s (ks, c, b, v)"
  shows "mirrors hash zset key (fst (redis_UpsertSubmission R key None c b v r)) (stub_step s (ks, c, b, v))"
proof -
  let ?m = "(stub_subs s c)(attempt b \<mapsto> v)"
  have u: "enumerates ks ?m" using assms(5) by (simp add: stub_usable_def)
  then have "finite (dom ?m)" by (metis List.finite_set enumerates_def)
  then have fin: "finite (dom (stub_subs s c))" by simp
  have "v \<in> ran ?m" by (auto simp: ran_def)
  then have "best_loop v (range_values ks ?m) = Max (ran ?m)"
    using set_range_values [OF u] by (simp add: best_loop_Max insert_absorb)
  with script_simulates [OF assms(1-4) fin, of b] show ?thesis
    by (simp add: redis_UpsertSubmission_def stub_step_def stub_UpsertSubmission_def Let_def)
qed

text \<open>A server that keeps its hashes as association lists, which the laws admit.\<close>

definition list_redis :: "((string \<Rightarrow> (string \<times> f64) list) \<times> (string \<Rightarrow> (string \<rightharpoonup> f64))) redis" where
  "list_redis = \<lparr>rHSET = (\<lambda>(hs, zs) k f v. (hs(k := (f, v) # hs k), zs)),
     rHVALS = (\<lambda>(hs, zs) k. map (map_of (hs k)) (remdups (map fst (hs k)))),
     rZADD = (\<lambda>(hs, zs) k x m. (hs, zs(k := (zs k)(m \<mapsto> x)))),
     rZREVRANGE = (\<lambda>(hs, zs) k i j. [])\<rparr>"

lemma list_redis_laws: "redis_laws list_redis (\<lambda>r k. map_of (fst r k)) snd"
proof -
  have "set (map (map_of xs) (remdups (map fst xs))) = Some ` ran (map_of xs)" for xs :: "(string \<times> f64) list"
    by (auto simp: ran_def image_iff) (metis map_of_eq_None_iff not_Some_eq image_eqI fst_conv weak_map_of_SomeI, metis fst_conv map_of_SomeD)
  then show ?thesis by (auto simp: redis_laws_def list_redis_def fun_eq_iff)
qed

theorem redis_simulates_stub_witness:
  "mirrors (\<lambda>r k. map_of (fst r k)) snd ''lb'' (fst (redis_UpsertSubmission list_redis ''lb'' None ''c'' ''s'' 700 (\<lambda>_. [], \<lambda>_. Map.empty)))
     (stub_step NewStubStore ([''s''], ''c'', ''s'', 700))"
  by (rule redis_simulates_stub [OF list_redis_laws])
     (simp_all add: mirrors_def stub_subs_def NewStubStore_def fun_eq_iff exact53_def stub_usable_def enumerates_def attempt_def ran_def)

text \<open>A tick whose snapshots or verdicts cannot be fetched reports the error and changes neither the
  store nor the hub; one whose crash source fails goes on as if no crash had been reported.\<close>

theorem Tick_on_failed_fetches:
  "Tick cfg st topN (E\<lparr>teSnaps := Inl e\<rparr>) (s, h) = Some (s, h, Some (''fetch snapshots: '' @ e))
   \<and> Tick cfg st topN (E\<lparr>teSnaps := Inr snaps, teReports := Inl e\<rparr>) (s, h) = Some (s, h, Some (''fetch reports: '' @ e))
   \<and> Tick cfg st topN (E\<lparr>teCrashes := Inl e\<rparr>) (s, h) = Tick cfg st topN (E\<lparr>teCrashes := Inr []\<rparr>) (s, h)"
  by (cases "teSnaps E"; cases "teReports E") (simp_all add: Tick_def Let_def split: sum.splits)

text \<open>The seeder keeps every demo score between 0 and 1000 and moves none by more than 25 in a flush.\<close>

theorem seeder_scores_drift_in_range:
  assumes "seed_inv m" "\<forall>(k, r) \<in> set ds. 0 \<le> r \<and> r < 51" "distinct (map fst ds)"
  shows "seed_inv (fst (seed_loop st env 0 ds (m, s)))
     \<and> (\<forall>k v. m k = Some v \<longrightarrow> (\<exists>v'. fst (seed_loop st env 0 ds (m, s)) k = Some v' \<and> \<bar>v' - v\<bar> \<le> 25))"
  using seed_loop_bounds [OF assms, of st env 0 s] by blast

theorem seeder_scores_drift_in_range_witness:
  "seed_inv (fst (seed_loop stub_store (\<lambda>_. []) 0 [(''team-alpha'', 50)] (map_of defaultContestants, NewStubStore)))"
proof -
  have "ran (map_of xs) \<subseteq> snd ` set xs" for xs :: "(string \<times> int64) list"
    by (force simp: ran_def dest: map_of_SomeD)
  moreover have "\<forall>v \<in> snd ` set defaultContestants. 0 \<le> v \<and> v \<le> 1000" by (simp add: defaultContestants_def)
  ultimately have "seed_inv (map_of defaultContestants)" unfolding seed_inv_def by blast
  from seeder_scores_drift_in_range [OF this, of "[(''team-alpha'', 50)]" stub_store "\<lambda>_. []" NewStubStore]
  show ?thesis by (simp del: seed_loop.simps)
qed

end
