(* ===== verification/MetricsApi.thy ===== *)
theory MetricsApi
  imports Leaderboard TelemetryIngest
begin

text \<open>
  What surrounds the aggregator and the validator: the consumers that feed them (\<open>internal/consumer\<close> of both
  services), the snapshot writers and the flush loop of the aggregator (\<open>internal/writer\<close>, \<open>main.go\<close>), and the
  query handlers of both services (\<open>internal/httpapi\<close>).
\<close>

section \<open>Consumers\<close>

text \<open>What \<open>FetchMessage\<close> returns, one per call: a message with its offset, the end of the context, an error.\<close>

datatype fetch = FetchMsg string int64 | FetchCancelled | FetchErr string

datatype consume_end = ConsumeReturned "string option" | ConsumeRunning

text \<open>The loop with its handler's state and the offsets it committed; \<open>unmarshal\<close> is the protobuf decoder.\<close>

fun kafka_Consume :: "(string \<Rightarrow> string + OrderEvent) \<Rightarrow> ('s \<Rightarrow> OrderEvent option \<Rightarrow> 's) \<Rightarrow> 's \<times> int64 list \<Rightarrow> fetch list \<Rightarrow> ('s \<times> int64 list) \<times> consume_end" where
  "kafka_Consume unmarshal handler sc [] = (sc, ConsumeRunning)"
| "kafka_Consume unmarshal handler sc (FetchCancelled # fs) = (sc, ConsumeReturned None)"
| "kafka_Consume unmarshal handler sc (FetchErr e # fs) = (sc, ConsumeReturned (Some (''fetch: '' @ e)))"
| "kafka_Consume unmarshal handler (s, cs) (FetchMsg v off # fs) = (case unmarshal v of
     Inl e \<Rightarrow> kafka_Consume unmarshal handler (s, cs) fs
   | Inr ev \<Rightarrow> kafka_Consume unmarshal handler (handler s (Some ev), cs @ [off]) fs)"

text \<open>The stub replays its events while the context lives (\<open>live\<close> tells how many checks pass).\<close>

fun stub_Consume :: "('s \<Rightarrow> OrderEvent option \<Rightarrow> 's) \<Rightarrow> nat \<Rightarrow> OrderEvent option list \<Rightarrow> 's \<Rightarrow> 's" where
  "stub_Consume handler live [] s = s"
| "stub_Consume handler live (e # es) s = (case live of 0 \<Rightarrow> s | Suc n \<Rightarrow> stub_Consume handler n es (handler s e))"

lemma kafka_Consume_messages:
  assumes "\<forall>(v, off) \<in> set ms. \<exists>e. unmarshal v = Inr e"
  shows "fst (kafka_Consume unmarshal handler (s, cs) (map (\<lambda>(v, off). FetchMsg v off) ms)) =
     (foldl handler s (map (\<lambda>(v, off). Some (projr (unmarshal v))) ms), cs @ map snd ms)"
  using assms by (induction ms arbitrary: s cs) auto

lemma kafka_messages_eq:
  assumes "\<forall>e \<in> set es. \<exists>d. marshal e = Inr d"
  shows "kafka_messages marshal es msgs = Inr (msgs @ map (\<lambda>e. (eContestantId e, projr (marshal e))) es)"
  using assms
proof (induction es arbitrary: msgs)
  case (Cons e es)
  then obtain d where "marshal e = Inr d" by auto
  with Cons show ?case by simp
qed simp

section \<open>Writers\<close>

record StubWriter =
  swRows :: "WSnapshot list"
  swWritten :: "64 word"

definition NewStubWriter :: StubWriter where
  "NewStubWriter = \<lparr>swRows = [], swWritten = 0\<rparr>"

definition stub_WriteSnapshots :: "WSnapshot list \<Rightarrow> StubWriter \<Rightarrow> StubWriter" where
  "stub_WriteSnapshots snaps w = w\<lparr>swRows := swRows w @ snaps, swWritten := swWritten w + of_nat (length snaps)\<rparr>"

definition Written :: "StubWriter \<Rightarrow> 64 word" where
  "Written w = swWritten w"

definition Rows :: "StubWriter \<Rightarrow> WSnapshot list" where
  "Rows w = swRows w"

datatype cell = CText string | CTime instant | CInt int64 | CFloat f64

definition snapshotColumns :: "string list" where
  "snapshotColumns = [''contestant_id'', ''submission_id'', ''window_start'', ''duration_ns'', ''count'', ''rejected'',
     ''timeouts'', ''tps'', ''p50_ns'', ''p90_ns'', ''p99_ns'', ''p999_ns'']"

definition snapshot_row :: "WSnapshot \<Rightarrow> cell list" where
  "snapshot_row s = [CText (sContestantID s), CText (sSubmissionID s), CTime (sWindowStart s), CInt (sDuration s),
     CInt (sCount s), CInt (sRejected s), CInt (sTimeouts s), CFloat (sTPS s), CInt (sP50Ns s), CInt (sP90Ns s),
     CInt (sP99Ns s), CInt (sP999Ns s)]"

text \<open>\<open>copy\<close> is the bulk insert of the database driver: the error of the columns and rows it is given.\<close>

definition timescale_WriteSnapshots :: "(string list \<Rightarrow> cell list list \<Rightarrow> string option) \<Rightarrow> WSnapshot list \<Rightarrow> string option" where
  "timescale_WriteSnapshots copy snaps = (if snaps = [] then None
     else let rows = map snapshot_row snaps
          in case copy snapshotColumns rows of None \<Rightarrow> None
             | Some e \<Rightarrow> Some (''copy '' @ show_nat (length rows) @ '' rows: '' @ e))"

text \<open>One tick of the aggregator's loop: flush, and write what was flushed; a write error is only logged.\<close>

definition tickLoop_tick :: "'h hdr \<Rightarrow> string list \<Rightarrow> instant \<Rightarrow> 'h Aggregator \<times> StubWriter \<Rightarrow> 'h Aggregator \<times> StubWriter" where
  "tickLoop_tick H ks t aw = (case aw of (a, w) \<Rightarrow> case Flush H ks t a of (a', snaps) \<Rightarrow>
     if snaps = [] then (a', w) else (a', stub_WriteSnapshots snaps w))"

section \<open>Query handlers\<close>

definition agg_handleHealth :: "'a reply" where
  "agg_handleHealth = StatusOnly 200"

definition agg_handleAll :: "string list \<Rightarrow> 'h Aggregator \<Rightarrow> WSnapshot list reply" where
  "agg_handleAll ls a = JSON (All_latest ls a)"

definition agg_handleOne :: "string list \<Rightarrow> 'h Aggregator \<Rightarrow> string \<Rightarrow> WSnapshot reply" where
  "agg_handleOne ls a i = (case Latest ls a i of None \<Rightarrow> HttpError 404 (''no data for '' @ i) | Some s \<Rightarrow> JSON s)"

definition handleMergedAll :: "'h hdr \<Rightarrow> string list \<Rightarrow> string list \<Rightarrow> 'h Aggregator \<Rightarrow> string \<Rightarrow> MergedSnapshot list reply" where
  "handleMergedAll H ids ls a v = JSON (AllMerged H ids ls a (query_int 0 v))"

definition handleMerged :: "'h hdr \<Rightarrow> string list \<Rightarrow> 'h Aggregator \<Rightarrow> string \<Rightarrow> string \<Rightarrow> MergedSnapshot reply" where
  "handleMerged H ls a i v = (case MergedRecent H ls a i (query_int 60 v) of
     None \<Rightarrow> HttpError 404 (''no history for '' @ i) | Some m \<Rightarrow> JSON m)"

definition val_handleHealth :: "'a reply" where
  "val_handleHealth = StatusOnly 200"

definition val_handleAll :: "string list \<Rightarrow> Validator \<Rightarrow> Report list reply" where
  "val_handleAll ks v = JSON (All_reports ks v)"

definition val_handleOne :: "string list \<Rightarrow> Validator \<Rightarrow> string \<Rightarrow> Report reply" where
  "val_handleOne ks v i = (case Report_of ks v i of None \<Rightarrow> HttpError 404 (''no data for '' @ i) | Some r \<Rightarrow> JSON r)"

section \<open>The rows the leaderboard reads\<close>

text \<open>The JSON of a merged snapshot and of a report, read back by the leaderboard's row types: the fields whose
  JSON names agree.\<close>

definition row_of_merged :: "MergedSnapshot \<Rightarrow> mergedRow" where
  "row_of_merged m = \<lparr>rwContestantID = mContestantID m, rwSubmissionID = mSubmissionID m, rwCount = mTotalCount m,
     rwRejected = mTotalRejected m, rwTimeouts = mTotalTimeouts m, rwAvgTPS = mAverageTPS m, rwP50Ns = mP50Ns m,
     rwP90Ns = mP90Ns m, rwP99Ns = mP99Ns m\<rparr>"

definition row_of_report :: "Report \<Rightarrow> ValReport" where
  "row_of_report r = \<lparr>vrContestantID = rContestantID r, vrSubmissionID = rSubmissionID r, vrTotalChecked = rTotalChecked r,
     vrMismatches = rMismatches r, vrCorrectness = rCorrectness r\<rparr>"

definition get_of :: "('a \<Rightarrow> 'b) \<Rightarrow> 'a list reply \<Rightarrow> 'b list http_get" where
  "get_of f r = (case r of JSON xs \<Rightarrow> GetBody (Inr (map f xs)) | HttpError n e \<Rightarrow> GetStatus n | StatusOnly n \<Rightarrow> GetStatus n)"

section \<open>Flushing in the loop\<close>

lemma flush_one_out: "snd (flush_one H now k (a, out)) = out @ (case aOpen a k of None \<Rightarrow> [] | Some ws \<Rightarrow> [snapshot_of H (aWindow a) now ws])"
  by (simp add: flush_one_def Let_def split: option.splits)

lemma flush_one_window [simp]: "aWindow (fst (flush_one H now k ao)) = aWindow (fst ao)"
  by (auto simp: flush_one_def Let_def split: prod.splits option.splits)

lemma fold_flush_out:
  "snd (fold (flush_one H now) ks (a, out)) = out @ map (snapshot_of H (aWindow a) now) (range_values ks (aOpen a))"
proof (induction ks arbitrary: a out)
  case (Cons k ks)
  obtain a' out' where f: "flush_one H now k (a, out) = (a', out')" by fastforce
  have "aOpen a' = aOpen a" "aWindow a' = aWindow a"
    using flush_one_open [of H now k "(a, out)"] flush_one_window [of H now k "(a, out)"] f by simp_all
  with Cons [of a' out'] flush_one_out [of H now k a out] f show ?case by (auto split: option.splits)
qed simp

lemma Flush_out: "snd (Flush H ks now a) = map (snapshot_of H (aWindow a) now) (range_values ks (aOpen a))"
  using fold_flush_out [of H now ks a "[]"] by (auto simp: Flush_def split: prod.splits)

section \<open>Properties\<close>

text \<open>The events a batch publishes reach the handler of a consumer in order, each once, given that the
  decoder reads back what the encoder wrote; each message is keyed by its contestant, and the offset
  of each is committed after its handler ran.\<close>

theorem published_batch_is_consumed_in_order:
  assumes "\<forall>e \<in> set batch. \<exists>d. marshal e = Inr d \<and> unmarshal d = Inr e"
    and "kafka_messages marshal batch [] = Inr msgs" "length offs = length msgs"
  shows "map fst msgs = map eContestantId batch
     \<and> fst (kafka_Consume unmarshal handler (s, cs) (map (\<lambda>(m, off). FetchMsg (snd m) off) (zip msgs offs))) =
         (foldl handler s (map Some batch), cs @ offs)"
proof -
  have "\<forall>e \<in> set batch. \<exists>d. marshal e = Inr d" using assms(1) by blast
  then have m: "msgs = map (\<lambda>e. (eContestantId e, projr (marshal e))) batch"
    using assms(2) kafka_messages_eq [where es = batch and msgs = "[]" and marshal = marshal] by simp
  have u: "\<forall>e \<in> set batch. unmarshal (projr (marshal e)) = Inr e" using assms(1) by fastforce
  have l: "length offs = length batch" using assms(3) m by simp
  have z: "map (\<lambda>(m, off). FetchMsg (snd m) off) (zip msgs offs) = map (\<lambda>(v, off). FetchMsg v off) (zip (map (projr \<circ> marshal) batch) offs)"
    by (simp add: m zip_map1 case_prod_unfold comp_def)
  have "\<forall>(v, off) \<in> set (zip (map (projr \<circ> marshal) batch) offs). \<exists>e. unmarshal v = Inr e"
    using u by (auto dest!: set_zip_leftD)
  from kafka_Consume_messages [OF this, of handler s cs]
  have "fst (kafka_Consume unmarshal handler (s, cs) (map (\<lambda>(m, off). FetchMsg (snd m) off) (zip msgs offs))) =
      (foldl handler s (map (\<lambda>(v, off). Some (projr (unmarshal v))) (zip (map (projr \<circ> marshal) batch) offs)), cs @ map snd (zip (map (projr \<circ> marshal) batch) offs))"
    unfolding z .
  moreover have "map (\<lambda>(v, off). Some (projr (unmarshal v))) (zip (map (projr \<circ> marshal) batch) offs) = map Some batch"
    using l u by (induction batch offs rule: list_induct2') auto
  ultimately show ?thesis using l m by simp
qed

theorem published_batch_is_consumed_in_order_witness:
  "fst (kafka_Consume (\<lambda>_. Inr emptyEvent) Process (NewValidator, []) [FetchMsg '''' 7, FetchMsg '''' 8]) =
     (foldl Process NewValidator [Some emptyEvent, Some emptyEvent], [7, 8])"
  using published_batch_is_consumed_in_order [of "[emptyEvent, emptyEvent]" "\<lambda>_. Inr ''''" "\<lambda>_. Inr emptyEvent"
      "[('''', ''''), ('''', '''')]" "[7, 8]" Process NewValidator "[]"]
  by (simp add: emptyEvent_def)

text \<open>A tick of the flush loop writes exactly the snapshots of the windows that were open, one row each,
  and the row has a cell for every column.\<close>

theorem tick_writes_flushed_windows:
  "swRows (snd (tickLoop_tick H ks t (a, w))) = swRows w @ map (snapshot_of H (aWindow a) t) (range_values ks (aOpen a))
   \<and> length (snapshot_row s) = length snapshotColumns"
proof -
  obtain a' snaps where f: "Flush H ks t a = (a', snaps)" by fastforce
  then have "snaps = map (snapshot_of H (aWindow a) t) (range_values ks (aOpen a))" using Flush_out [of H ks t a] by simp
  then show ?thesis by (auto simp: tickLoop_tick_def f stub_WriteSnapshots_def snapshot_row_def snapshotColumns_def)
qed

end
