(* ===== verification/TelemetryPath.thy ===== *)
theory TelemetryPath
  imports Conformance TelemetryIngest MetricsApi
begin

text \<open>
  The way of an event from a bot to its verdict: the bot's emitter, the ingester, the topic and the consumer of the
  validator. Each stage may drop events when its buffer is full or a stream breaks, and events of other runs mix in;
  the lemmas show that each stage keeps the order of what it lets through, so that a run of which
  everything arrived is judged as the bot reported it.
\<close>

section \<open>What enters and leaves each stage\<close>

text \<open>The events given to the emitter and to the ingester's buffer, in order.\<close>

fun emit_event :: "cl_op \<Rightarrow> OrderEvent list" where
  "emit_event (DoEmit e) = [e]"
| "emit_event _ = []"

fun push_event :: "ing_op \<Rightarrow> OrderEvent list" where
  "push_event (OpPush e) = [e]"
| "push_event _ = []"

definition emitted_by :: "cl_op list \<Rightarrow> OrderEvent list" where
  "emitted_by ops = concat (map emit_event ops)"

definition pushed_by :: "ing_op list \<Rightarrow> OrderEvent list" where
  "pushed_by ops = concat (map push_event ops)"

text \<open>The events a consumer hands to its handler: those that decode, up to the end of the reader.\<close>

fun decoded_of :: "(string \<Rightarrow> string + OrderEvent) \<Rightarrow> fetch list \<Rightarrow> OrderEvent list" where
  "decoded_of unmarshal [] = []"
| "decoded_of unmarshal (FetchCancelled # fs) = []"
| "decoded_of unmarshal (FetchErr e # fs) = []"
| "decoded_of unmarshal (FetchMsg v off # fs) = (case unmarshal v of Inl e \<Rightarrow> decoded_of unmarshal fs | Inr ev \<Rightarrow> ev # decoded_of unmarshal fs)"

lemma Consume_decoded:
  "fst (fst (kafka_Consume unmarshal handler (s, cs) fs)) = foldl handler s (map Some (decoded_of unmarshal fs))"
  by (induction unmarshal handler "(s, cs)" fs arbitrary: s cs rule: kafka_Consume.induct) (auto split: sum.splits)

lemma accepted_were_emitted: "subseq (emAccepted (foldl em_step (new_emitter n) ops)) (emitted_by ops)"
proof (induction ops rule: rev_induct)
  case Nil
  show ?case by (simp add: new_emitter_def)
next
  case (snoc op ops)
  let ?s = "foldl em_step (new_emitter n) ops"
  have em: "emitted_by (ops @ [op]) = emitted_by ops @ emit_event op" by (simp add: emitted_by_def)
  show ?case
  proof (cases op)
    case (DoEmit e)
    obtain c ok where q: "emit (emClient ?s) e = (c, ok)" by fastforce
    show ?thesis using snoc em
      by (cases ok) (simp_all add: DoEmit q subseq_append_left)
  next
    case (DoTurn t)
    then show ?thesis using snoc em by (simp split: prod.splits)
  next
    case DoClose
    then show ?thesis using snoc em by simp
  qed
qed

lemma accepted_were_pushed: "subseq (igAccepted (foldl (ing_step batchSize) (new_ingester cap) ops)) (pushed_by ops)"
proof (induction ops rule: rev_induct)
  case Nil
  show ?case by (simp add: new_ingester_def)
next
  case (snoc op ops)
  let ?s = "foldl (ing_step batchSize) (new_ingester cap) ops"
  have pu: "pushed_by (ops @ [op]) = pushed_by ops @ push_event op" by (simp add: pushed_by_def)
  show ?case
  proof (cases op)
    case (OpPush e)
    obtain b ok where q: "push (igBuf ?s) e = (b, ok)" by fastforce
    show ?thesis using snoc pu
      by (cases ok) (simp_all add: OpPush q subseq_append_left)
  qed (use snoc pu in \<open>simp_all split: prod.splits option.splits\<close>)
qed

text \<open>The events of one run among those of a subsequence are a subsequence of the run's.\<close>

lemma run_events_subseq:
  assumes "subseq xs ys"
  shows "subseq (run_events key (map Some xs)) (run_events key (map Some ys))"
proof -
  have f: "run_events key (map Some zs) = filter (\<lambda>e. event_key (Some e) = Some key) zs" for zs
    by (induction zs) (simp_all add: run_events_def)
  show ?thesis using subseq_filter [OF assms] by (simp add: f)
qed

lemma published_were_pushed:
  assumes "1 \<le> batchSize"
  shows "subseq (concat (drPublished (igDrain (foldl (ing_step batchSize) (new_ingester cap) ops)))) (pushed_by ops)"
proof -
  let ?s = "foldl (ing_step batchSize) (new_ingester cap) ops"
  have "igAccepted ?s = concat (drPublished (igDrain ?s)) @ drPending (igDrain ?s) @ chBuf (buCh (igBuf ?s))"
    using ing_run_inv [OF assms, of cap ops] by (simp add: ingest_inv_def)
  then have "subseq (concat (drPublished (igDrain ?s))) (igAccepted ?s)" by (simp add: subseq_append_left)
  then show ?thesis using accepted_were_pushed subseq_order.trans by blast
qed

lemma sent_were_emitted: "subseq (snSent (emSender (foldl em_step (new_emitter n) ops))) (emitted_by ops)"
proof -
  let ?s = "foldl em_step (new_emitter n) ops"
  obtain gone where "subseq (snSent (emSender ?s)) gone" "emAccepted ?s = gone @ chBuf (gcQueue (emClient ?s))"
    using em_run_inv [of n ops] by (auto simp: em_inv_def)
  then have "subseq (snSent (emSender ?s)) (emAccepted ?s)" by (simp add: subseq_append_left)
  then show ?thesis using accepted_were_emitted subseq_order.trans by blast
qed

text \<open>
  What the consumer handles of a run is a subsequence of what the bot emitted. The hypotheses on the transports: a gRPC
  stream delivers in order what was sent on it, and a topic hands the messages of one key on in order, each at most once.
\<close>

lemma consumed_were_emitted:
  assumes "1 \<le> batchSize" "run_events key (map Some (emitted_by eops)) = emitted_by eops"
    and "subseq (run_events key (map Some (pushed_by iops))) (snSent (emSender (foldl em_step (new_emitter n) eops)))"
    and "subseq (run_events key (map Some (decoded_of unmarshal fetches)))
      (run_events key (map Some (concat (drPublished (igDrain (foldl (ing_step batchSize) (new_ingester cap) iops))))))"
  shows "subseq (run_events key (map Some (decoded_of unmarshal fetches))) (emitted_by eops)"
  using assms(3,4) run_events_subseq [OF published_were_pushed [OF assms(1)], of key cap iops] sent_were_emitted [of n eops]
    subseq_order.trans by meson

section \<open>Properties\<close>


section \<open>A path that loses nothing\<close>

definition smooth_emits :: "OrderEvent list \<Rightarrow> cl_op list" where
  "smooth_emits es = concat (map (\<lambda>e. [DoEmit e, DoTurn (TurnEvent \<lparr>ocOpens = True, ocSends = True, ocShutdown = False\<rparr>)]) es)"

definition smooth_pushes :: "OrderEvent list \<Rightarrow> ing_op list" where
  "smooth_pushes es = concat (map (\<lambda>e. [OpPush e, OpRecv]) es)"

text \<open>The topic as the list of its messages: a message of \<open>k\<close> bytes is the event \<open>k\<close>.\<close>

definition nth_decoder :: "OrderEvent list \<Rightarrow> string \<Rightarrow> string + OrderEvent" where
  "nth_decoder es v = Inr (es ! length v)"

definition smooth_fetches :: "OrderEvent list \<Rightarrow> fetch list" where
  "smooth_fetches es = map (\<lambda>k. FetchMsg (replicate k (CHR ''x'')) (int k)) [0..<length es]"

lemma smooth_emitter:
  "let s = foldl em_step (new_emitter 16) (smooth_emits es) in
     snSent (emSender s) = es \<and> snRunning (emSender s) \<and> \<not> gcClosed (emClient s)
     \<and> chBuf (gcQueue (emClient s)) = [] \<and> chCap (gcQueue (emClient s)) = 16 \<and> \<not> chClosed (gcQueue (emClient s))"
proof (induction es rule: rev_induct)
  case Nil
  show ?case by (simp add: smooth_emits_def new_emitter_def new_sender_def DialClient_def make_chan_def)
next
  case (snoc e es)
  then show ?case
    by (auto simp: smooth_emits_def Let_def emit_def Emit_def try_send_def run_step_def chan_recv_def send_one_def)
qed

lemma smooth_ingester:
  "let s = foldl (ing_step 1) (new_ingester 16) (smooth_pushes es) in
     concat (drPublished (igDrain s)) = es \<and> drPending (igDrain s) = [] \<and> drMode (igDrain s) = Running
     \<and> \<not> buClosed (igBuf s) \<and> chBuf (buCh (igBuf s)) = [] \<and> chCap (buCh (igBuf s)) = 16 \<and> \<not> chClosed (buCh (igBuf s))"
proof (induction es rule: rev_induct)
  case Nil
  show ?case by (simp add: smooth_pushes_def new_ingester_def NewBuffer_def make_chan_def)
next
  case (snoc e es)
  then show ?case
    by (auto simp: smooth_pushes_def Let_def push_def Push_def push_send_def try_send_def drain_recv_def chan_recv_def drain_add_def drain_flush_def)
qed

lemma smooth_events [simp]: "emitted_by (smooth_emits es) = es" "pushed_by (smooth_pushes es) = es"
  by (induction es) (simp_all add: emitted_by_def smooth_emits_def pushed_by_def smooth_pushes_def)

lemma smooth_consumer: "decoded_of (nth_decoder es) (smooth_fetches es) = es"
proof -
  have "decoded_of (nth_decoder es) (map (\<lambda>k. FetchMsg (replicate k (CHR ''x'')) (int k)) ks) = map (\<lambda>k. es ! k) ks" for ks
    by (induction ks) (simp_all add: nth_decoder_def)
  then show ?thesis by (simp add: smooth_fetches_def map_nth)
qed


end
