(* ===== verification/Pipeline.thy ===== *)
theory Pipeline
  imports MetricsApi
begin

text \<open>
  The scoring pipeline as a whole: the aggregator and the validator consume the same events, the leaderboard
  fetches the rows both serve and scores every attempt. The score an attempt gets is a function of its own
  events: the exact tail latency, timeouts and rate of its whole run, and the share of its fills that the
  reference book confirms.
\<close>

section \<open>Tags of a run\<close>

lemma event_key_submission: "event_key (Some e) = Some k \<Longrightarrow> eSubmissionId e \<noteq> '''' \<Longrightarrow> eSubmissionId e = k"
  by (auto simp: event_key_def runKey_def Let_def split: if_splits)

lemma recorded_key: "e \<in> set (recorded k evs) \<Longrightarrow> event_key (Some e) = Some k"
  by (induction k evs rule: recorded.induct) (auto simp: event_key_def split: if_splits option.splits)

lemma run_events_key: "e \<in> set (run_events k es) \<Longrightarrow> event_key (Some e) = Some k"
  by (auto simp: run_events_def event_key_Some)

lemma find_rev_unique:
  assumes "x \<in> set xs" "P x" "\<And>y. y \<in> set xs \<Longrightarrow> P y \<Longrightarrow> y = x"
  shows "find P (rev xs) = Some x"
proof -
  have "find P ys = Some x" if "x \<in> set ys" "set ys \<subseteq> set xs" for ys
    using that
  proof (induction ys)
    case (Cons y ys)
    show ?case
    proof (cases "P y")
      case True
      then have "y = x" using Cons.prems(2) assms(3) [of y] by simp
      with True show ?thesis by simp
    next
      case False
      then have "x \<noteq> y" using assms(2) by blast
      with False Cons show ?thesis by simp
    qed
  qed simp
  then show ?thesis using assms(1) by simp
qed

section \<open>The row of a run in the aggregator\<close>

lemma first_event_of_windows:
  assumes "snd (run_view k evs) = wins" "wins \<noteq> []"
  shows "hd (fst (snd (hd wins))) \<in> set (recorded k evs)" "hd (fst (snd (hd wins))) = hd (recorded k evs)"
proof -
  have "view_ok (run_view k evs)" by (rule view_ok_run)
  then have ne: "fst (snd (hd wins)) \<noteq> []" using assms by (cases "run_view k evs"; cases wins) auto
  have "events_of wins @ open_events (run_view k evs) = recorded k evs" using run_view_events assms(1) by metis
  moreover have "events_of wins = fst (snd (hd wins)) @ events_of (tl wins)" using assms(2) by (cases wins) auto
  ultimately have r: "recorded k evs = fst (snd (hd wins)) @ (events_of (tl wins) @ open_events (run_view k evs))" by simp
  show "hd (fst (snd (hd wins))) = hd (recorded k evs)" using ne by (simp add: r)
  show "hd (fst (snd (hd wins))) \<in> set (recorded k evs)" using ne by (simp add: r)
qed

lemma merged_ids:
  assumes "snd (run_view k evs) = wins" "wins \<noteq> []"
  shows "mContestantID (merged H (cum_of H W wins)) = eContestantId (hd (recorded k evs))"
    "mSubmissionID (merged H (cum_of H W wins)) = eSubmissionId (hd (recorded k evs))"
  using first_event_of_windows [OF assms] by (simp_all add: merged_def cum_of_ids)

text \<open>The rows the leaderboard fetches: the whole-run metrics of every run with a closed window.\<close>

definition fetched_snaps :: "'h hdr \<Rightarrow> string list \<Rightarrow> string list \<Rightarrow> 'h Aggregator \<Rightarrow> AggSnapshot list" where
  "fetched_snaps H ids ls a = projr (fetch_Snapshots ''agg'' (get_of row_of_merged (handleMergedAll H ids ls a '''')))"

definition fetched_reports :: "string list \<Rightarrow> Validator \<Rightarrow> ValReport list" where
  "fetched_reports ks v = projr (fetch_Reports ''val'' (get_of row_of_report (val_handleAll ks v)))"

lemma fetched_snaps_eq: "fetched_snaps H ids ls a = map (snapshot_of_row \<circ> row_of_merged) (AllMerged H ids ls a 0)"
  by (simp add: fetched_snaps_def handleMergedAll_def get_of_def fetch_Snapshots_def getJSON_def query_int_def)

lemma fetched_reports_eq: "fetched_reports ks v = map (row_of_report \<circ> makeReport) (range_values ks (vCounters v))"
  by (simp add: fetched_reports_def val_handleAll_def get_of_def fetch_Reports_def getJSON_def All_reports_def)

lemma set_AllMerged: "set (AllMerged H ids ls a n) = {m. \<exists>k \<in> set ids. MergedRecent H ls a k n = Some m}"
  by (auto simp: AllMerged_def map_filter_def image_iff) force

text \<open>The only row that carries a submission is the one of its run.\<close>

lemma snapshot_of_submission:
  assumes "agg.valid_run H (NewAggregator w t opts) evs" "a = foldl (agg_step H) (NewAggregator w t opts) evs"
    and "enumerates ids (aHistory a)" "b \<noteq> ''''" "\<forall>k. length (recorded k evs) < 2 ^ 63"
    and "s \<in> set (fetched_snaps H ids ls a)" "agSubmissionID s = b"
  shows "\<exists>m. MergedRecent H ls a b 0 = Some m \<and> s = snapshot_of_row (row_of_merged m)"
proof -
  from assms(6) obtain k m where k: "k \<in> set ids" "MergedRecent H ls a k 0 = Some m" "s = snapshot_of_row (row_of_merged m)"
    by (auto simp: fetched_snaps_eq set_AllMerged)
  define wins where "wins = snd (run_view k evs)"
  have "aHistory a k \<noteq> None" using k(1) assms(3) by (auto simp: enumerates_def)
  then have ne: "wins \<noteq> []"
    using parts_of_run(1) [OF assms(1), of k wins] by (auto simp: assms(2) wins_def split: if_splits)
  have "m = merged H (cum_of H (if w \<le> 0 then Second else w) wins)"
    using MergedRecent_whole_run [OF assms(1) wins_def [symmetric] ne spec [OF assms(5)], of 0 ls] k(2) by (simp add: assms(2))
  then have "mSubmissionID m = eSubmissionId (hd (recorded k evs))" by (simp only: merged_ids(2) [OF wins_def [symmetric] ne])
  moreover have "mSubmissionID m = b" using k(3) assms(7) by (simp add: snapshot_of_row_def row_of_merged_def)
  moreover have "event_key (Some (hd (recorded k evs))) = Some k"
    using first_event_of_windows [OF wins_def [symmetric] ne] recorded_key by metis
  ultimately have "k = b" using event_key_submission assms(4) by metis
  with k show ?thesis by blast
qed

section \<open>The row of a run in the validator\<close>

lemma process_run_ids:
  "cContestantID (snd (foldl process_run (b, c) es)) = cContestantID c"
  "cSubmissionID (snd (foldl process_run (b, c) es)) = cSubmissionID c"
proof -
  have "cContestantID (snd (process_run bc e)) = cContestantID (snd bc) \<and> cSubmissionID (snd (process_run bc e)) = cSubmissionID (snd bc)" for bc e
    by (auto simp: process_run_def score_fill_def Let_def split: prod.splits OrderType.splits)
  then have "cContestantID (snd (foldl process_run bc es)) = cContestantID (snd bc)
      \<and> cSubmissionID (snd (foldl process_run bc es)) = cSubmissionID (snd bc)" for bc
    by (induction es arbitrary: bc) simp_all
  from this [of "(b, c)"] show "cContestantID (snd (foldl process_run (b, c) es)) = cContestantID c"
    "cSubmissionID (snd (foldl process_run (b, c) es)) = cSubmissionID c" by simp_all
qed

lemma counters_ids:
  assumes "vCounters (foldl Process NewValidator es) k = Some c"
  shows "run_events k es \<noteq> []" "cSubmissionID c = eSubmissionId (hd (run_events k es))"
    "cContestantID c = eContestantId (hd (run_events k es))"
proof -
  let ?rs = "run_events k es"
  from assms run_at_key_stream [of es k] show "?rs \<noteq> []" by (auto simp: run_at_key_def)
  then have "c = snd (foldl process_run (New, new_counters (eContestantId (hd ?rs)) (eSubmissionId (hd ?rs))) ?rs)"
    using assms run_at_key_stream [of es k] by (auto simp: run_at_key_def split: prod.splits)
  then show "cSubmissionID c = eSubmissionId (hd ?rs)" "cContestantID c = eContestantId (hd ?rs)"
    by (simp_all add: process_run_ids new_counters_def)
qed

lemma own_verdict_of_submission:
  assumes "v = foldl Process NewValidator es" "enumerates ks (vCounters v)" "b \<noteq> ''''"
    and "vCounters v b = Some c" "eSubmissionId (hd (run_events b es)) = b" "0 < cTotal c"
  shows "own_verdict b (fetched_reports ks v) = Some (row_of_report (makeReport c))"
  unfolding own_verdict_def
proof (rule find_rev_unique)
  have vals: "set (range_values ks (vCounters v)) = ran (vCounters v)" using set_range_values assms(2) .
  show "row_of_report (makeReport c) \<in> set (fetched_reports ks v)"
    using assms(4) vals by (auto simp: fetched_reports_eq intro: ranI)
  show "vrSubmissionID (row_of_report (makeReport c)) = b \<and> 0 < vrTotalChecked (row_of_report (makeReport c))"
    using assms counters_ids(2) [of es b c] by (simp add: row_of_report_def makeReport_def Let_def)
  fix r assume "r \<in> set (fetched_reports ks v)" and P: "vrSubmissionID r = b \<and> 0 < vrTotalChecked r"
  then obtain c' where r: "r = row_of_report (makeReport c')" and "c' \<in> ran (vCounters v)"
    by (auto simp: fetched_reports_eq vals)
  then obtain k where k: "vCounters v k = Some c'" by (auto simp: ran_def)
  note ids = counters_ids [of es k c', folded assms(1), OF k]
  have "cSubmissionID c' = b" using P r by (simp add: row_of_report_def makeReport_def Let_def)
  moreover have "event_key (Some (hd (run_events k es))) = Some k" using ids(1) hd_in_set run_events_key by metis
  ultimately have "k = b" using ids(2) event_key_submission assms(3) by metis
  with k assms(4) r show "r = row_of_report (makeReport c)" by simp
qed

text \<open>What the leaderboard reads of a run from the aggregator: one row, with the exact metrics.\<close>

lemma aggregator_row:
  fixes H :: "'h hdr" and a :: "'h Aggregator"
  assumes "hdr_laws H bag seen" "agg.valid_run H (NewAggregator w t opts) (evs @ [FlushAt now fs])"
    and "a = foldl (agg_step H) (NewAggregator w t opts) (evs @ [FlushAt now fs])" "enumerates ids (aHistory a)"
    and "recorded b evs \<noteq> []" "b \<noteq> ''''" "eSubmissionId (hd (recorded b evs)) = b" "eContestantId (hd (recorded b evs)) = con"
    and "\<forall>k. length (recorded k evs) < 2 ^ 63"
  obtains m where "exact_metrics H (recorded b evs) m" "MergedRecent H ls a b 0 = Some m"
    "snapshot_of_row (row_of_merged m) \<in> set (fetched_snaps H ids ls a)" "mContestantID m = con" "mSubmissionID m = b"
    "\<And>s. s \<in> set (fetched_snaps H ids ls a) \<Longrightarrow> agSubmissionID s = b \<Longrightarrow> s = snapshot_of_row (row_of_merged m)"
proof -
  let ?evs = "evs @ [FlushAt now fs]"
  have rec: "recorded k ?evs = recorded k evs" for k by simp
  define wins where "wins = snd (run_view b ?evs)"
  have ev: "events_of wins = recorded b evs"
    using run_view_events [of b ?evs] run_view_after_flush [of b evs now fs] by (simp add: wins_def)
  have ne: "wins \<noteq> []" using ev assms(5) by auto
  define m where "m = merged H (cum_of H (if w \<le> 0 then Second else w) wins)"
  have len: "\<forall>k. length (recorded k ?evs) < 2 ^ 63" using assms(9) by simp
  have mr: "MergedRecent H ls a b 0 = Some m"
    using MergedRecent_whole_run [OF assms(2) wins_def [symmetric] ne spec [OF len], of 0 ls] unfolding assms(3) m_def by blast
  have ex: "exact_metrics H (recorded b evs) m"
    using merged_exact [OF assms(1), of wins] assms(9) unfolding m_def ev by blast
  have tags: "mContestantID m = con" "mSubmissionID m = b"
    using assms(7,8) unfolding m_def by (simp_all only: merged_ids [OF wins_def [symmetric] ne] rec)
  have "b \<in> set ids"
    using parts_of_run(1) [OF assms(2) wins_def [symmetric]] ne assms(4) by (auto simp: assms(3) enumerates_def)
  then have mem: "snapshot_of_row (row_of_merged m) \<in> set (fetched_snaps H ids ls a)"
    unfolding fetched_snaps_eq set_map set_AllMerged using mr by force
  have "s = snapshot_of_row (row_of_merged m)" if "s \<in> set (fetched_snaps H ids ls a)" "agSubmissionID s = b" for s
    using snapshot_of_submission [OF assms(2,3,4,6) len that] mr by auto
  then show ?thesis using that [of m] ex mr mem tags by blast
qed

text \<open>What it reads from the validator: the verdict on the run's own fills.\<close>

lemma validator_row:
  assumes "v = foldl Process NewValidator es" "enumerates ks (vCounters v)" "b \<noteq> ''''" "length es < 2 ^ 53"
    and "eSubmissionId (hd (run_events b es)) = b" "\<exists>e \<in> set (run_events b es). scored e"
  obtains c where "own_verdict b (fetched_reports ks v) = Some (row_of_report (makeReport c))"
    "rCorrectness (makeReport c) = Fin 1 \<longleftrightarrow> wrong_fills New (run_events b es) = 0"
proof -
  have "run_events b es \<noteq> []" using assms(6) by auto
  then obtain c where c: "vCounters v b = Some c"
    using run_at_key_stream [of es b] assms(1) by (auto simp: run_at_key_def split: prod.splits)
  have len: "length es < 2 ^ 62" using assms(4) by simp
  note ct = counters_stream [OF c [unfolded assms(1)] len]
  have pos: "0 < cTotal c"
    using ct(1) assms(6) by (auto simp: filter_empty_conv length_greater_0_conv [symmetric] simp del: length_greater_0_conv)
  have "length (filter scored (run_events b es)) \<le> length es"
    using length_filter_le [of scored "run_events b es"] length_run_events [of b es] by linarith
  then have "cTotal c < 2 ^ 53" using ct(1) assms(4) by simp
  moreover have "0 \<le> cMismatches c" "cMismatches c \<le> cTotal c"
    using ct wrong_fills_le [of New "run_events b es"] by simp_all
  ultimately obtain r where "rCorrectness (makeReport c) = Fin r" "r = 1 \<longleftrightarrow> cMismatches c = 0"
    using one_minus_ratio [of "cMismatches c" "cTotal c"] pos by (auto simp: makeReport_def Let_def)
  then have "rCorrectness (makeReport c) = Fin 1 \<longleftrightarrow> wrong_fills New (run_events b es) = 0" using ct(2) by auto
  then show ?thesis by (rule that [OF own_verdict_of_submission [OF assms(1-3) c assms(5) pos]])
qed

text \<open>A submission with one row on either side is scored once.\<close>

lemma tick_calls_single:
  assumes "b \<noteq> ''''" "s \<in> set snaps" "agSubmissionID s = b" "agContestantID s = con" "own_verdict b reports = Some r"
    and only: "\<And>s'. s' \<in> set snaps \<Longrightarrow> agSubmissionID s' = b \<Longrightarrow> s' = s"
  shows "(con, b, x) \<in> set (tick_calls cfg snaps reports crashes) \<longleftrightarrow>
     x = reFinalScore (Compute cfg (own_inputs s r (own_crashes b crashes)))"
  unfolding tick_calls_iff [OF assms(1)]
proof
  assume "\<exists>s \<in> set snaps. \<exists>r. agContestantID s = con \<and> agSubmissionID s = b \<and> own_verdict b reports = Some r
      \<and> x = reFinalScore (Compute cfg (own_inputs s r (own_crashes b crashes)))"
  then obtain s' r' where s: "s' \<in> set snaps" "agSubmissionID s' = b" "own_verdict b reports = Some r'"
      "x = reFinalScore (Compute cfg (own_inputs s' r' (own_crashes b crashes)))" by blast
  from only [OF s(1,2)] s(3,4) assms(5) show "x = reFinalScore (Compute cfg (own_inputs s r (own_crashes b crashes)))" by simp
next
  assume "x = reFinalScore (Compute cfg (own_inputs s r (own_crashes b crashes)))"
  with assms(2-5) show "\<exists>s \<in> set snaps. \<exists>r. agContestantID s = con \<and> agSubmissionID s = b \<and> own_verdict b reports = Some r
      \<and> x = reFinalScore (Compute cfg (own_inputs s r (own_crashes b crashes)))" by blast
qed

section \<open>Properties\<close>


text \<open>The sample run of the aggregator with a scored placement, seen by both services.\<close>

definition pipe_event :: OrderEvent where
  "pipe_event = (sample_event 5 ORDER_RESULT_ACK_ONLY)\<lparr>eType := ORDER_TYPE_LIMIT, eSide := ORDER_SIDE_BUY, ePrice := Fin 100, eQuantity := 2\<rparr>"


end
