(* ===== verification/Gateway.thy ===== *)
theory Gateway
  imports GoTime GoStrings
begin

text \<open>
  The API gateway: the token-bucket limiter (\<open>api-gateway/internal/ratelimit\<close>), the bearer tokens
  (\<open>internal/auth\<close>), the request-id middleware (\<open>internal/httpx\<close>) and the handler that composes them (\<open>main.go\<close>).
  The lemmas show that a bucket never exceeds its burst, that a client's allowance depends on its own
  requests only, that evicting idle clients is invisible, that a forged forwarding header cannot change
  the limiter's key, and that only requests with a valid token reach the submission service, under the
  contestant of the token.
\<close>

section \<open>Token buckets\<close>

record tokenBucket =
  tbTokens :: f64
  tbLast :: instant
  tbRps :: f64
  tbBurst :: f64

definition newBucket :: "f64 \<Rightarrow> f64 \<Rightarrow> instant \<Rightarrow> tokenBucket" where
  "newBucket rps burst now = \<lparr>tbTokens = burst, tbLast = now, tbRps = rps, tbBurst = burst\<rparr>"

definition bucket_allow :: "instant \<Rightarrow> tokenBucket \<Rightarrow> tokenBucket \<times> bool" where
  "bucket_allow now b =
     (let t1 = fadd (tbTokens b) (fmul (dur_Seconds (time_Sub now (tbLast b))) (tbRps b));
          t2 = (if flt (tbBurst b) t1 then tbBurst b else t1);
          b1 = b\<lparr>tbTokens := t2, tbLast := now\<rparr>
      in if fle (Fin 1) t2 then (b1\<lparr>tbTokens := fsub t2 (Fin 1)\<rparr>, True) else (b1, False))"

section \<open>The limiter\<close>

record clientEntry =
  ceBkt :: tokenBucket
  ceSeen :: instant

record IPLimiter =
  ilClients :: "string \<rightharpoonup> clientEntry"
  ilRps :: f64
  ilBurst :: f64
  ilTrustedHops :: int

definition NewLimiter :: "f64 \<Rightarrow> f64 \<Rightarrow> int \<Rightarrow> IPLimiter" where
  "NewLimiter rps burst hops = \<lparr>ilClients = Map.empty, ilRps = rps, ilBurst = burst, ilTrustedHops = hops\<rparr>"

text \<open>The clock is read for a new bucket, for the entry and in the bucket; the three readings are arguments.\<close>

record reads =
  rdNew :: instant
  rdSeen :: instant
  rdAllow :: instant

definition Allow :: "reads \<Rightarrow> string \<Rightarrow> IPLimiter \<Rightarrow> IPLimiter \<times> bool" where
  "Allow r ip il =
     (let e = (case ilClients il ip of Some e \<Rightarrow> e
               | None \<Rightarrow> \<lparr>ceBkt = newBucket (ilRps il) (ilBurst il) (rdNew r), ceSeen = rdSeen r\<rparr>);
          (b, ok) = bucket_allow (rdAllow r) (ceBkt e)
      in (il\<lparr>ilClients := (ilClients il)(ip \<mapsto> \<lparr>ceBkt = b, ceSeen = rdSeen r\<rparr>)\<rparr>, ok))"

text \<open>One tick of \<open>evict\<close>: entries idle for more than five minutes go.\<close>

definition evict_tick :: "instant \<Rightarrow> IPLimiter \<Rightarrow> IPLimiter" where
  "evict_tick now il = il\<lparr>ilClients := (\<lambda>ip. case ilClients il ip of None \<Rightarrow> None
     | Some e \<Rightarrow> if 300 * Second < time_Sub now (ceSeen e) then None else Some e)\<rparr>"

section \<open>The limiter's key\<close>

fun last_index :: "char \<Rightarrow> string \<Rightarrow> nat option" where
  "last_index c [] = None"
| "last_index c (d # s) = (case last_index c s of Some i \<Rightarrow> Some (Suc i) | None \<Rightarrow> if d = c then Some 0 else None)"

fun first_index :: "char \<Rightarrow> string \<Rightarrow> nat option" where
  "first_index c [] = None"
| "first_index c (d # s) = (if d = c then Some 0 else map_option Suc (first_index c s))"

text \<open>The host of \<open>net.SplitHostPort\<close>; \<open>None\<close> is an error.\<close>

definition SplitHostPort :: "string \<Rightarrow> string option" where
  "SplitHostPort a = (case last_index (CHR '':'') a of None \<Rightarrow> None | Some i \<Rightarrow>
     if HasPrefix a ''['' then
       (case first_index (CHR '']'') a of None \<Rightarrow> None | Some e \<Rightarrow>
          if e + 1 \<noteq> i then None
          else if CHR ''['' \<in> set (drop 1 a) \<or> CHR '']'' \<in> set (drop (e + 1) a) then None
          else Some (take (e - 1) (drop 1 a)))
     else if CHR '':'' \<in> set (take i a) then None
     else if CHR ''['' \<in> set a \<or> CHR '']'' \<in> set a then None
     else Some (take i a))"

definition host_of :: "string \<Rightarrow> string" where
  "host_of addr = (case SplitHostPort addr of Some h \<Rightarrow> h | None \<Rightarrow> addr)"

definition clientIP :: "string \<Rightarrow> string \<Rightarrow> int \<Rightarrow> string" where
  "clientIP remoteAddr xff trustedHops =
     (if trustedHops \<le> 0 then host_of remoteAddr
      else if xff = '''' then host_of remoteAddr
      else let parts = split_on (CHR '','') xff; idx = int (length parts) - trustedHops
           in if idx < 0 \<or> int (length parts) \<le> idx then host_of remoteAddr
              else TrimSpace (parts ! nat idx))"

section \<open>Tokens\<close>

record Claims =
  clContestantID :: string
  clExpiresAt :: int64
  clIssuedAt :: int64

datatype auth_error = ErrInvalid | ErrExpired

text \<open>
  The primitives the tokens are made of: HMAC-SHA256 of a message under a secret, the unpadded URL-safe
  base64 of bytes, and the JSON of the claims. \<open>base64_laws\<close> names what is relied on of the encoding: it
  has no dots and decodes to what was encoded.
\<close>

record token_prims =
  tpMac :: "string \<Rightarrow> string \<Rightarrow> string"
  tpEnc :: "string \<Rightarrow> string"
  tpDec :: "string \<Rightarrow> string option"
  tpMarshal :: "Claims \<Rightarrow> string"
  tpUnmarshal :: "string \<Rightarrow> Claims option"

definition base64_laws :: "token_prims \<Rightarrow> bool" where
  "base64_laws P \<longleftrightarrow> (\<forall>x. CHR ''.'' \<notin> set (tpEnc P x)) \<and> (\<forall>x. tpDec P (tpEnc P x) = Some x)"

definition jwtHeader :: "token_prims \<Rightarrow> string" where
  "jwtHeader P = tpEnc P ''{\"alg\":\"HS256\",\"typ\":\"JWT\"}''"

definition sign :: "token_prims \<Rightarrow> string \<Rightarrow> string \<Rightarrow> string" where
  "sign P msg secret = tpEnc P (tpMac P msg secret)"

text \<open>\<open>Unix\<close>: the seconds of an instant.\<close>

definition unix :: "instant \<Rightarrow> int64" where
  "unix t = t div Second"

definition Issue :: "token_prims \<Rightarrow> instant \<Rightarrow> string \<Rightarrow> string \<Rightarrow> duration \<Rightarrow> string" where
  "Issue P now contestantID secret ttl =
     (let payload = tpMarshal P \<lparr>clContestantID = contestantID, clExpiresAt = unix (now + ttl), clIssuedAt = unix now\<rparr>;
          msg = jwtHeader P @ ''.'' @ tpEnc P payload
      in msg @ ''.'' @ sign P msg secret)"

definition Validate :: "token_prims \<Rightarrow> instant \<Rightarrow> string \<Rightarrow> string \<Rightarrow> auth_error + Claims" where
  "Validate P now token secret = (case split_on (CHR ''.'') token of
     [h, p, sg] \<Rightarrow>
       let msg = h @ ''.'' @ p
       in if sign P msg secret \<noteq> sg then Inl ErrInvalid
          else (case tpDec P p of None \<Rightarrow> Inl ErrInvalid
            | Some raw \<Rightarrow> (case tpUnmarshal P raw of None \<Rightarrow> Inl ErrInvalid
                | Some c \<Rightarrow> if clExpiresAt c < unix now then Inl ErrExpired else Inr c))
   | _ \<Rightarrow> Inl ErrInvalid)"

section \<open>The handler\<close>

datatype route = RtHealth | RtToken | RtSubmissions | RtNotFound

record gw_request =
  gqRemoteAddr :: string
  gqXFF :: string
  gqAuthorization :: string
  gqContestantHeader :: string
  gqRequestID :: string
  gqInternalToken :: string
  gqRoute :: route
  gqTokenBody :: "string option"

text \<open>What a request gets: the proxied request is given with the contestant header it is forwarded with.\<close>

datatype gw_response = GwStatus nat | GwError nat string | GwToken string int | GwForward gw_request

record gw_config =
  gfJWTSecret :: string
  gfTokenTTL :: duration
  gfRateRPS :: f64
  gfRateBurst :: f64
  gfTrustedHops :: int

definition loadConfig :: "(string \<Rightarrow> string) \<Rightarrow> gw_config" where
  "loadConfig env = \<lparr>gfJWTSecret = envOr env ''JWT_SECRET'' ''change-me-in-prod'', gfTokenTTL = 900 * Second,
     gfRateRPS = Fin 20, gfRateBurst = Fin 50, gfTrustedHops = envInt env ''TRUSTED_PROXY_HOPS'' 0\<rparr>"

definition auth_Middleware :: "token_prims \<Rightarrow> instant \<Rightarrow> string \<Rightarrow> (gw_request \<Rightarrow> gw_response) \<Rightarrow> gw_request \<Rightarrow> gw_response" where
  "auth_Middleware P now secret next_h r =
     (case Validate P now (TrimPrefix (gqAuthorization r) ''Bearer '') secret of
        Inl e \<Rightarrow> GwError 401 ''unauthorized''
      | Inr c \<Rightarrow> next_h (r\<lparr>gqContestantHeader := clContestantID c\<rparr>))"

definition handleToken :: "token_prims \<Rightarrow> instant \<Rightarrow> gw_config \<Rightarrow> gw_request \<Rightarrow> gw_response" where
  "handleToken P now cfg r = (case gqTokenBody r of None \<Rightarrow> GwError 400 ''contestant_id required''
     | Some cid \<Rightarrow> if cid = '''' then GwError 400 ''contestant_id required''
         else GwToken (Issue P now cid (gfJWTSecret cfg) (gfTokenTTL cfg)) (go_div (gfTokenTTL cfg) Second))"

definition gw_mux :: "token_prims \<Rightarrow> instant \<Rightarrow> gw_config \<Rightarrow> gw_request \<Rightarrow> gw_response" where
  "gw_mux P now cfg r = (case gqRoute r of
     RtHealth \<Rightarrow> GwStatus 200
   | RtToken \<Rightarrow> handleToken P now cfg r
   | RtSubmissions \<Rightarrow> auth_Middleware P now (gfJWTSecret cfg) GwForward r
   | RtNotFound \<Rightarrow> GwError 404 ''404 page not found'')"

definition rl_Middleware :: "reads \<Rightarrow> (gw_request \<Rightarrow> gw_response) \<Rightarrow> gw_request \<Rightarrow> IPLimiter \<Rightarrow> IPLimiter \<times> gw_response" where
  "rl_Middleware rd next_h r il =
     (case Allow rd (clientIP (gqRemoteAddr r) (gqXFF r) (ilTrustedHops il)) il of
        (il', ok) \<Rightarrow> (il', if ok then next_h r else GwError 429 ''rate limit exceeded''))"

text \<open>\<open>RequestID\<close> answers with the id of the request or a fresh one (\<open>fresh\<close>, the hex of eight random bytes).\<close>

definition RequestID :: "string \<Rightarrow> gw_request \<Rightarrow> string" where
  "RequestID fresh r = (if gqRequestID r = '''' then fresh else gqRequestID r)"

definition gw_handle :: "token_prims \<Rightarrow> gw_config \<Rightarrow> reads \<Rightarrow> instant \<Rightarrow> string \<Rightarrow> gw_request \<Rightarrow> IPLimiter \<Rightarrow> IPLimiter \<times> string \<times> gw_response" where
  "gw_handle P cfg rd now fresh r il = (case rl_Middleware rd (gw_mux P now cfg) r il of
     (il', resp) \<Rightarrow> (il', RequestID fresh r, resp))"

section \<open>Buckets stay within their burst\<close>

definition bucket_ok :: "tokenBucket \<Rightarrow> bool" where
  "bucket_ok b \<longleftrightarrow> (\<exists>t r u. tbTokens b = Fin t \<and> tbRps b = Fin r \<and> tbBurst b = Fin u \<and> 0 \<le> t \<and> t \<le> u \<and> 0 \<le> r
     \<and> f64_of_rat u = Fin u)"

text \<open>A duration that is not negative is a finite number of seconds, at least its whole ones.\<close>

lemma dur_Seconds_bounds:
  assumes "0 \<le> d" "in_int64 d"
  obtains x where "dur_Seconds d = Fin x" "0 \<le> x" "\<And>n. 0 \<le> n \<Longrightarrow> n < 2 ^ 53 \<Longrightarrow> n \<le> d div Second \<Longrightarrow> of_int n \<le> x"
proof -
  let ?q = "d div Second" and ?r = "d mod Second"
  have "d \<le> 2 ^ 63 - 1" using assms(2) by (simp add: in_int64_def max_int64_def)
  then have q: "0 \<le> ?q" "?q \<le> 2 ^ 34" using assms(1) by auto
  have r: "0 \<le> ?r" "?r \<le> Second" by (auto intro: less_imp_le)
  have iq: "f64_of_int ?q = Fin (of_int ?q)" "f64_of_int ?r = Fin (of_int ?r)"
    using q r by (auto intro!: f64_of_int_exact)
  have "rat_of_int ?r \<le> rat_of_int Second" using r(2) by (simp only: of_int_le_iff)
  then have "0 \<le> rat_of_int ?r / 1000000000" "rat_of_int ?r / 1000000000 \<le> 1"
    using r(1) by (auto simp: divide_le_eq)
  then obtain f where f: "f64_of_rat (of_int ?r / 1000000000) = Fin f" "0 \<le> f" "f \<le> 1" using f64_of_rat_unit by blast
  have big: "f64_of_rat (2 ^ 35) = Fin (2 ^ 35)" using f64_of_int_exact [of "2 ^ 35"] by (simp add: f64_of_int_def)
  have "rat_of_int ?q \<le> of_int (2 ^ 34)" using q(2) by (simp only: of_int_le_iff)
  then have up: "of_int ?q + f \<le> 2 ^ 35" using f(3) by simp
  obtain x where x: "f64_of_rat (of_int ?q + f) = Fin x" "0 \<le> x" "x \<le> 2 ^ 35"
    by (rule f64_of_rat_upto [OF big _ up]) (use q f in auto)
  have d: "dur_Seconds d = Fin x" using assms(1) by (simp add: dur_Seconds_def iq f(1) x(1))
  have "of_int n \<le> x" if "0 \<le> n" "n < 2 ^ 53" "n \<le> ?q" for n
  proof -
    have "f64_of_rat (of_int n) \<le> f64_of_rat (of_int ?q + f)"
      using that(3) f(2) by (intro f64_of_rat_mono) (metis add_increasing2 of_int_le_iff)
    moreover have "f64_of_rat (of_int n) = Fin (of_int n)" using f64_of_int_exact [of n] that by (simp add: f64_of_int_def)
    ultimately show ?thesis by (simp add: x(1))
  qed
  with that d x(2) show ?thesis by blast
qed

lemma bucket_refill:
  assumes "bucket_ok b" "0 \<le> time_Sub now (tbLast b)" "tbBurst b = Fin u"
  shows "\<exists>t. (let t1 = fadd (tbTokens b) (fmul (dur_Seconds (time_Sub now (tbLast b))) (tbRps b))
      in if flt (tbBurst b) t1 then tbBurst b else t1) = Fin t \<and> 0 \<le> t \<and> t \<le> u"
proof -
  obtain t r where b: "tbTokens b = Fin t" "tbRps b = Fin r" "0 \<le> t" "t \<le> u" "0 \<le> r"
    using assms(1,3) by (auto simp: bucket_ok_def)
  obtain x where x: "dur_Seconds (time_Sub now (tbLast b)) = Fin x" "0 \<le> x"
    by (rule dur_Seconds_bounds [OF assms(2)]) simp_all
  have z: "Fin 0 \<le> f64_of_rat y" if "0 \<le> y" for y using f64_of_rat_mono [OF that] by simp
  have "Fin 0 \<le> f64_of_rat (x * r)" using x(2) b(5) by (intro z) simp
  then have "Fin 0 \<le> fadd (Fin t) (f64_of_rat (x * r)) \<and> fadd (Fin t) (f64_of_rat (x * r)) \<noteq> NaN"
    using b(3) z by (cases "f64_of_rat (x * r)") auto
  then show ?thesis using b x(1) assms(3) by (cases "fadd (Fin t) (f64_of_rat (x * r))") (auto simp: Let_def)
qed

lemma bucket_allow_ok:
  assumes "bucket_ok b" "0 \<le> time_Sub now (tbLast b)"
  shows "bucket_ok (fst (bucket_allow now b))"
proof -
  obtain u r where u: "tbBurst b = Fin u" "f64_of_rat u = Fin u" "tbRps b = Fin r" "0 \<le> r" using assms(1) by (auto simp: bucket_ok_def)
  obtain t where t: "(let t1 = fadd (tbTokens b) (fmul (dur_Seconds (time_Sub now (tbLast b))) (tbRps b))
      in if flt (tbBurst b) t1 then tbBurst b else t1) = Fin t" "0 \<le> t" "t \<le> u"
    using bucket_refill [OF assms u(1)] by blast
  have a: "bucket_allow now b = (let b1 = b\<lparr>tbTokens := Fin t, tbLast := now\<rparr>
      in if fle (Fin 1) (Fin t) then (b1\<lparr>tbTokens := fsub (Fin t) (Fin 1)\<rparr>, True) else (b1, False))"
    using t(1) by (simp add: bucket_allow_def Let_def)
  show ?thesis
  proof (cases "1 \<le> t")
    case True
    obtain s where "f64_of_rat (t - 1) = Fin s" "0 \<le> s" "s \<le> u"
      by (rule f64_of_rat_upto [OF u(2), of "t - 1"]) (use True t in auto)
    then show ?thesis using True u by (simp add: a Let_def bucket_ok_def fsub_def)
  next
    case False
    then show ?thesis using t u by (simp add: a Let_def bucket_ok_def)
  qed
qed

section \<open>Clients are limited one by one\<close>

text \<open>Requests and eviction ticks, interleaved; the verdicts are not part of the state.\<close>

datatype lim_event = AllowAt reads string | EvictAt instant

fun lim_step :: "IPLimiter \<Rightarrow> lim_event \<Rightarrow> IPLimiter" where
  "lim_step il (AllowAt r ip) = fst (Allow r ip il)"
| "lim_step il (EvictAt now) = evict_tick now il"

definition client_at :: "IPLimiter \<Rightarrow> string \<Rightarrow> f64 \<times> f64 \<times> clientEntry option" where
  "client_at il ip = (ilRps il, ilBurst il, ilClients il ip)"

fun client_step :: "string \<Rightarrow> f64 \<times> f64 \<times> clientEntry option \<Rightarrow> lim_event \<Rightarrow> f64 \<times> f64 \<times> clientEntry option" where
  "client_step k (rps, burst, eo) (AllowAt r ip) = (rps, burst, if ip = k
     then Some \<lparr>ceBkt = fst (bucket_allow (rdAllow r) (case eo of Some e \<Rightarrow> ceBkt e | None \<Rightarrow> newBucket rps burst (rdNew r))), ceSeen = rdSeen r\<rparr>
     else eo)"
| "client_step k (rps, burst, eo) (EvictAt now) = (rps, burst, case eo of None \<Rightarrow> None
     | Some e \<Rightarrow> if 300 * Second < time_Sub now (ceSeen e) then None else Some e)"

lemma Allow_eq:
  "Allow r ip il =
     (il\<lparr>ilClients := (ilClients il)(ip \<mapsto> \<lparr>ceBkt = fst (bucket_allow (rdAllow r) (case ilClients il ip of Some e \<Rightarrow> ceBkt e
          | None \<Rightarrow> newBucket (ilRps il) (ilBurst il) (rdNew r))), ceSeen = rdSeen r\<rparr>)\<rparr>,
      snd (bucket_allow (rdAllow r) (case ilClients il ip of Some e \<Rightarrow> ceBkt e | None \<Rightarrow> newBucket (ilRps il) (ilBurst il) (rdNew r))))"
  by (simp add: Allow_def Let_def split: prod.splits option.splits)

interpretation lim: pointwise_state lim_step client_at client_step "\<lambda>_ _. True"
proof
  fix s e k
  show "client_at (lim_step s e) k = client_step k (client_at s k) e"
    by (cases e) (auto simp: client_at_def Allow_eq evict_tick_def split: option.splits)
qed

lemma lim_valid_run [simp]: "lim.valid_run s es"
  by (induction es arbitrary: s) simp_all

text \<open>Events of other clients do not touch a client's entry.\<close>

lemma client_step_other: "client_step k p (AllowAt r ip) = p" if "ip \<noteq> k"
  using that by (cases p) auto

definition own_lim_event :: "string \<Rightarrow> lim_event \<Rightarrow> bool" where
  "own_lim_event k e = (case e of AllowAt r ip \<Rightarrow> ip = k | EvictAt now \<Rightarrow> True)"

lemma client_run_own: "foldl (client_step k) p es = foldl (client_step k) p (filter (own_lim_event k) es)"
proof (induction es arbitrary: p)
  case (Cons e es)
  then show ?case by (cases e) (auto simp: own_lim_event_def client_step_other)
qed simp

section \<open>Eviction\<close>

lemma int_f64: "n < 2 ^ 53 \<Longrightarrow> 0 \<le> n \<Longrightarrow> f64_of_rat (of_int n) = Fin (of_int n)"
  using f64_of_int_exact [of n] by (simp add: f64_of_int_def)

text \<open>A bucket of the default policy that was idle for more than five minutes is full again.\<close>

lemma idle_bucket_is_full:
  assumes "bucket_ok b" "tbRps b = Fin 20" "tbBurst b = Fin 50" "300 * Second < time_Sub now (tbLast b)"
  shows "bucket_allow now b = bucket_allow now (newBucket (Fin 20) (Fin 50) now)"
proof -
  obtain t where t: "tbTokens b = Fin t" "0 \<le> t" using assms(1) by (auto simp: bucket_ok_def)
  let ?d = "time_Sub now (tbLast b)"
  have d0: "0 \<le> ?d" using assms(4) by simp
  obtain x where x: "dur_Seconds ?d = Fin x" "0 \<le> x" "\<And>n. 0 \<le> n \<Longrightarrow> n < 2 ^ 53 \<Longrightarrow> n \<le> ?d div Second \<Longrightarrow> of_int n \<le> x"
    using dur_Seconds_bounds [OF d0 time_Sub_in_int64] by metis
  have "300 \<le> ?d div Second" using assms(4) by (simp add: zdiv_mono1 [of "300 * Second" ?d Second, simplified])
  then have "300 \<le> x" using x(3) [of 300] by simp
  then have "f64_of_rat 6000 \<le> f64_of_rat (x * 20)" by (intro f64_of_rat_mono) simp
  then have six: "Fin 6000 \<le> f64_of_rat (x * 20)" using int_f64 [of 6000] by simp
  have "Fin 50 < fadd (Fin t) (f64_of_rat (x * 20))"
  proof (cases "f64_of_rat (x * 20)")
    case (Fin y)
    then have "f64_of_rat 6000 \<le> f64_of_rat (t + y)" using six t(2) by (intro f64_of_rat_mono) simp
    then have "Fin 6000 \<le> f64_of_rat (t + y)" using int_f64 [of 6000] by simp
    then have "Fin 50 < f64_of_rat (t + y)" by (rule less_le_trans [rotated]) simp
    with Fin show ?thesis by simp
  qed (use six in auto)
  moreover have "fadd (Fin t) (f64_of_rat (x * 20)) \<noteq> NaN" using six by (cases "f64_of_rat (x * 20)") auto
  ultimately have l: "(if flt (tbBurst b) (fadd (tbTokens b) (fmul (dur_Seconds ?d) (tbRps b))) then tbBurst b
      else fadd (tbTokens b) (fmul (dur_Seconds ?d) (tbRps b))) = Fin 50"
    by (simp add: assms t(1) x(1))
  have "dur_Seconds (time_Sub now now) = Fin 0" by (simp add: dur_Seconds_def f64_of_int_def)
  then have f: "fadd (Fin 50) (fmul (dur_Seconds (time_Sub now now)) (Fin 20)) = Fin 50" using int_f64 [of 50] by simp
  have "bucket_allow now b = (let b1 = b\<lparr>tbTokens := Fin 50, tbLast := now\<rparr> in
      if fle (Fin 1) (Fin 50) then (b1\<lparr>tbTokens := fsub (Fin 50) (Fin 1)\<rparr>, True) else (b1, False))"
    using l by (simp add: bucket_allow_def Let_def)
  moreover have "bucket_allow now (newBucket (Fin 20) (Fin 50) now) = (let b1 = (newBucket (Fin 20) (Fin 50) now)\<lparr>tbTokens := Fin 50, tbLast := now\<rparr> in
      if fle (Fin 1) (Fin 50) then (b1\<lparr>tbTokens := fsub (Fin 50) (Fin 1)\<rparr>, True) else (b1, False))"
    using f by (simp add: bucket_allow_def Let_def newBucket_def)
  ultimately show ?thesis using assms(2,3) by (simp add: newBucket_def Let_def)
qed

section \<open>A burst at one instant\<close>

fun burst_calls :: "instant \<Rightarrow> nat \<Rightarrow> tokenBucket \<Rightarrow> bool list" where
  "burst_calls now 0 b = []"
| "burst_calls now (Suc n) b = (case bucket_allow now b of (b', ok) \<Rightarrow> ok # burst_calls now n b')"

lemma burst_calls_at:
  assumes "tbTokens b = Fin (of_nat k)" "tbRps b = Fin r" "tbBurst b = Fin (of_nat m)" "k \<le> m" "m < 2 ^ 53" "tbLast b = now"
  shows "burst_calls now n b = map (\<lambda>i. i < k) [0..<n]"
  using assms
proof (induction n arbitrary: b k)
  case (Suc n)
  have z: "dur_Seconds (time_Sub now now) = Fin 0" by (simp add: dur_Seconds_def f64_of_int_def)
  have e: "f64_of_rat (of_nat j) = Fin (of_nat j)" if "j \<le> m" for j
    using int_f64 [of "int j"] that Suc.prems(5) by simp
  have full: "fadd (tbTokens b) (fmul (dur_Seconds (time_Sub now (tbLast b))) (tbRps b)) = Fin (of_nat k)"
    using Suc.prems z e by simp
  have a: "bucket_allow now b = (if 1 \<le> k then (b\<lparr>tbTokens := Fin (of_nat (k - 1)), tbLast := now\<rparr>, True)
      else (b\<lparr>tbTokens := Fin (of_nat k), tbLast := now\<rparr>, False))"
  proof -
    have "fsub (Fin (of_nat k)) (Fin 1) = Fin (of_nat (k - 1))" if "1 \<le> k"
      using that e [of "k - 1"] Suc.prems(4) by (simp add: fsub_def of_nat_diff)
    then show ?thesis using full Suc.prems(3,4) by (auto simp: bucket_allow_def Let_def)
  qed
  have sh: "map (\<lambda>i. i < k) [0..<Suc n] = (0 < k) # map (\<lambda>i. i < k - 1) [0..<n]"
    by (auto simp: upt_conv_Cons map_Suc_upt [symmetric] simp del: upt_Suc)
  show ?case
  proof (cases "1 \<le> k")
    case True
    then show ?thesis using Suc.IH [of "b\<lparr>tbTokens := Fin (of_nat (k - 1)), tbLast := now\<rparr>" "k - 1"] Suc.prems a sh by simp
  next
    case False
    then show ?thesis using Suc.IH [of "b\<lparr>tbTokens := Fin (of_nat k), tbLast := now\<rparr>" k] Suc.prems a sh by simp
  qed
qed simp

section \<open>Tokens\<close>

lemma split_token:
  assumes "CHR ''.'' \<notin> set h" "CHR ''.'' \<notin> set p" "CHR ''.'' \<notin> set sg"
  shows "split_on (CHR ''.'') ((h @ ''.'' @ p) @ ''.'' @ sg) = [h, p, sg]"
  using assms split_on_append [of "CHR ''.''" h "p @ ''.'' @ sg"] split_on_append [of "CHR ''.''" p sg]
  by (simp add: split_on_no_sep_id)

lemma Validate_Issue:
  assumes "base64_laws P" "c = \<lparr>clContestantID = cid, clExpiresAt = unix (now + ttl), clIssuedAt = unix now\<rparr>"
    and "tpUnmarshal P (tpMarshal P c) = Some c"
  shows "Validate P later (Issue P now cid secret ttl) secret' =
     (let msg = jwtHeader P @ ''.'' @ tpEnc P (tpMarshal P c)
      in if sign P msg secret' \<noteq> sign P msg secret then Inl ErrInvalid
         else if clExpiresAt c < unix later then Inl ErrExpired else Inr c)"
proof -
  let ?h = "jwtHeader P" and ?p = "tpEnc P (tpMarshal P c)"
  have n: "CHR ''.'' \<notin> set (tpEnc P x)" and dec: "tpDec P (tpEnc P x) = Some x" for x
    using assms(1) by (simp_all add: base64_laws_def)
  have tok: "Issue P now cid secret ttl = (?h @ ''.'' @ ?p) @ ''.'' @ sign P (?h @ ''.'' @ ?p) secret"
    by (simp add: Issue_def Let_def assms(2))
  have "split_on (CHR ''.'') (Issue P now cid secret ttl) = [?h, ?p, sign P (?h @ ''.'' @ ?p) secret]"
    unfolding tok by (rule split_token) (simp_all add: n jwtHeader_def sign_def)
  then show ?thesis using dec assms(3) by (auto simp: Validate_def Let_def)
qed

lemma Validate_Inr:
  assumes "Validate P now token secret = Inr c"
  shows "\<exists>h p raw. split_on (CHR ''.'') token = [h, p, sign P (h @ ''.'' @ p) secret] \<and> tpDec P p = Some raw
     \<and> tpUnmarshal P raw = Some c \<and> unix now \<le> clExpiresAt c"
  using assms by (auto simp: Validate_def Let_def split: list.splits if_splits option.splits)

section \<open>Properties\<close>

text \<open>A bucket that starts full stays a number between zero and its burst under any sequence of calls on
  a clock that does not run backwards.\<close>

theorem bucket_never_exceeds_burst:
  assumes "sorted (t0 # ts)" "\<forall>t \<in> set ts. t - t0 \<le> max_int64" "0 \<le> r" "0 \<le> u" "f64_of_rat u = Fin u"
  shows "\<exists>t. tbTokens (foldl (\<lambda>b now. fst (bucket_allow now b)) (newBucket (Fin r) (Fin u) t0) ts) = Fin t \<and> 0 \<le> t \<and> t \<le> u"
proof -
  have keep: "tbBurst (fst (bucket_allow now b)) = tbBurst b" "tbLast (fst (bucket_allow now b)) = now" for now b
    by (simp_all add: bucket_allow_def Let_def)
  have "bucket_ok (foldl (\<lambda>b now. fst (bucket_allow now b)) b ts) \<and> tbBurst (foldl (\<lambda>b now. fst (bucket_allow now b)) b ts) = tbBurst b"
    if "bucket_ok b" "sorted (tbLast b # ts)" for b
    using that
  proof (induction ts arbitrary: b)
    case (Cons now ts)
    have "0 \<le> time_Sub now (tbLast b)" using Cons.prems(2) by (simp add: time_Sub_def min_int64_def max_int64_def)
    then have "bucket_ok (fst (bucket_allow now b))" using bucket_allow_ok Cons.prems(1) by blast
    then show ?case using Cons.IH [of "fst (bucket_allow now b)"] Cons.prems(2) by (simp add: keep)
  qed simp
  moreover have "bucket_ok (newBucket (Fin r) (Fin u) t0)" using assms by (simp add: bucket_ok_def newBucket_def)
  ultimately show ?thesis using assms(1) by (fastforce simp: bucket_ok_def newBucket_def)
qed

theorem bucket_never_exceeds_burst_witness:
  "\<exists>t. tbTokens (foldl (\<lambda>b now. fst (bucket_allow now b)) (newBucket (Fin 20) (Fin 50) 0) [5, 5, 9]) = Fin t \<and> 0 \<le> t \<and> t \<le> 50"
  using bucket_never_exceeds_burst [of 0 "[5, 5, 9]" 20 50] int_f64 [of 50] by (simp add: max_int64_def)

text \<open>Of the requests a client makes at one instant on a full bucket, the first \<open>burst\<close> are let through and
  every later one is refused.\<close>

theorem burst_at_one_instant:
  assumes "m < 2 ^ 53"
  shows "burst_calls now n (newBucket (Fin r) (Fin (of_nat m)) now) = map (\<lambda>i. i < m) [0..<n]"
  by (rule burst_calls_at [where m = m]) (use assms in \<open>simp_all add: newBucket_def\<close>)

theorem burst_at_one_instant_witness:
  "burst_calls 7 4 (newBucket (Fin 20) (Fin (of_nat 2)) 7) = [True, True, False, False]"
  using burst_at_one_instant [of 2 7 4 20] by (simp add: upt_conv_Cons)

text \<open>What the limiter keeps for a client depends on the requests of that client and the eviction ticks
  only, however other clients' requests are interleaved.\<close>

theorem clients_are_limited_apart:
  "client_at (foldl lim_step il es) k = client_at (foldl lim_step il (filter (own_lim_event k) es)) k"
  using lim.run_pointwise [of il es k] lim.run_pointwise [of il "filter (own_lim_event k) es" k] client_run_own [of k "client_at il k" es]
  by simp

text \<open>Evicting a client that was idle for more than five minutes is invisible under the gateway's policy:
  its next request gets the same answer and leaves the same bucket as if the entry had been kept.\<close>

theorem eviction_is_invisible:
  assumes "ilRps il = Fin 20" "ilBurst il = Fin 50" "ilClients il ip = Some e" "bucket_ok (ceBkt e)"
    and "tbRps (ceBkt e) = Fin 20" "tbBurst (ceBkt e) = Fin 50"
    and "300 * Second < time_Sub now (ceSeen e)" "300 * Second < time_Sub (rdAllow r) (tbLast (ceBkt e))" "rdNew r = rdAllow r"
  shows "ilClients (evict_tick now il) ip = None
     \<and> snd (Allow r ip (evict_tick now il)) = snd (Allow r ip il)
     \<and> client_at (fst (Allow r ip (evict_tick now il))) ip = client_at (fst (Allow r ip il)) ip"
  using assms idle_bucket_is_full [OF assms(4-6,8)]
  by (simp add: Allow_eq evict_tick_def client_at_def)

definition idle_limiter :: IPLimiter where
  "idle_limiter = (NewLimiter (Fin 20) (Fin 50) 0)\<lparr>ilClients := [''1.2.3.4'' \<mapsto>
     \<lparr>ceBkt = (newBucket (Fin 20) (Fin 50) 0)\<lparr>tbTokens := Fin 3\<rparr>, ceSeen = 0\<rparr>]\<rparr>"

theorem eviction_is_invisible_witness:
  "snd (Allow \<lparr>rdNew = 400 * Second, rdSeen = 400 * Second, rdAllow = 400 * Second\<rparr> ''1.2.3.4'' (evict_tick (390 * Second) idle_limiter)) =
   snd (Allow \<lparr>rdNew = 400 * Second, rdSeen = 400 * Second, rdAllow = 400 * Second\<rparr> ''1.2.3.4'' idle_limiter)"
  using eviction_is_invisible [of idle_limiter "''1.2.3.4''" "\<lparr>ceBkt = (newBucket (Fin 20) (Fin 50) 0)\<lparr>tbTokens := Fin 3\<rparr>, ceSeen = 0\<rparr>"
      "390 * Second" "\<lparr>rdNew = 400 * Second, rdSeen = 400 * Second, rdAllow = 400 * Second\<rparr>"] int_f64 [of 50]
  by (simp add: idle_limiter_def NewLimiter_def newBucket_def bucket_ok_def time_Sub_def min_int64_def max_int64_def)

text \<open>Behind \<open>n\<close> trusted proxies the limiter's key is the address the outermost of them saw: whatever a
  client put into the forwarding header before the proxies appended their entries changes nothing.\<close>

theorem forged_header_cannot_change_key:
  assumes "entries \<noteq> []" "\<forall>e \<in> set entries. CHR '','' \<notin> set e"
  shows "clientIP remote (forged @ '','' @ join_on (CHR '','') entries) (int (length entries)) = TrimSpace (hd entries)"
proof -
  have "split_on (CHR '','') (join_on (CHR '','') entries) = entries" using assms by (rule split_join)
  then have s: "split_on (CHR '','') (forged @ '','' @ join_on (CHR '','') entries) = split_on (CHR '','') forged @ entries"
    using split_on_append [of "CHR '',''" forged "join_on (CHR '','') entries"] by simp
  have "forged @ '','' @ join_on (CHR '','') entries \<noteq> ''''" by simp
  then show ?thesis using assms(1) s by (simp add: clientIP_def Let_def nth_append hd_conv_nth)
qed

theorem forged_header_cannot_change_key_witness:
  "clientIP ''10.0.0.1:80'' (''6.6.6.6'' @ '','' @ '' 1.2.3.4'') 1 = ''1.2.3.4''"
proof -
  have "TrimSpace '' 1.2.3.4'' = ''1.2.3.4''" by code_simp
  then show ?thesis using forged_header_cannot_change_key [of "['' 1.2.3.4'']" "''10.0.0.1:80''" "''6.6.6.6''"] by simp
qed

text \<open>C26: A token is accepted with the claims it was issued with until its expiry second has passed, and is
  expired afterwards; under another secret that signs its message differently it is invalid.\<close>

theorem issued_token_round_trip:
  assumes "base64_laws P" "c = \<lparr>clContestantID = cid, clExpiresAt = unix (now + ttl), clIssuedAt = unix now\<rparr>"
    and "tpUnmarshal P (tpMarshal P c) = Some c"
  shows "Validate P later (Issue P now cid secret ttl) secret = (if unix (now + ttl) < unix later then Inl ErrExpired else Inr c)
   \<and> (sign P (jwtHeader P @ ''.'' @ tpEnc P (tpMarshal P c)) secret' \<noteq> sign P (jwtHeader P @ ''.'' @ tpEnc P (tpMarshal P c)) secret
      \<longrightarrow> Validate P later (Issue P now cid secret ttl) secret' = Inl ErrInvalid)"
  using Validate_Issue [OF assms] assms(2) by (simp add: Let_def)

text \<open>An encoding without dots, for the examples.\<close>

fun esc :: "string \<Rightarrow> string" where
  "esc [] = []"
| "esc (x # s) = (if x = CHR ''.'' then ''_a'' @ esc s else if x = CHR ''_'' then ''_b'' @ esc s else x # esc s)"

fun unesc :: "string \<Rightarrow> string option" where
  "unesc [] = Some []"
| "unesc (x # s) = (if x = CHR ''_'' then
     (case s of [] \<Rightarrow> None | y # s' \<Rightarrow> map_option (\<lambda>t. (if y = CHR ''a'' then CHR ''.'' else CHR ''_'') # t) (unesc s'))
     else map_option (\<lambda>t. x # t) (unesc s))"

definition esc_prims :: token_prims where
  "esc_prims = \<lparr>tpMac = (\<lambda>msg secret. msg @ secret), tpEnc = esc, tpDec = unesc, tpMarshal = clContestantID,
     tpUnmarshal = (\<lambda>s. Some \<lparr>clContestantID = s, clExpiresAt = 900, clIssuedAt = 0\<rparr>)\<rparr>"

lemma unesc_esc: "unesc (esc s) = Some s"
  by (induction s) auto

lemma esc_prims_laws: "base64_laws esc_prims"
proof -
  have "CHR ''.'' \<notin> set (esc s)" for s by (induction s) auto
  then show ?thesis by (simp add: base64_laws_def esc_prims_def unesc_esc)
qed

theorem issued_token_round_trip_witness:
  "Validate esc_prims (60 * Second) (Issue esc_prims 0 ''alice'' ''k1'' (900 * Second)) ''k1'' =
     Inr \<lparr>clContestantID = ''alice'', clExpiresAt = 900, clIssuedAt = 0\<rparr>
   \<and> Validate esc_prims (60 * Second) (Issue esc_prims 0 ''alice'' ''k1'' (900 * Second)) ''k2'' = Inl ErrInvalid"
  using issued_token_round_trip [OF esc_prims_laws, of "\<lparr>clContestantID = ''alice'', clExpiresAt = 900, clIssuedAt = 0\<rparr>"
      "''alice''" 0 "900 * Second" "60 * Second" "''k1''" "''k2''"]
  by (simp add: unix_def esc_prims_def sign_def jwtHeader_def)

text \<open>C25: A request reaches the submission service only if the limiter let it through and its token carries a
  signature of the gateway's secret and has not expired; it is forwarded under the contestant of the
  token, whatever contestant header it came with.\<close>

theorem only_authenticated_requests_are_forwarded:
  assumes "gw_handle P cfg rd now fresh r il = (il', rid, GwForward r')"
  shows "snd (Allow rd (clientIP (gqRemoteAddr r) (gqXFF r) (ilTrustedHops il)) il)
     \<and> (\<exists>c h p raw. split_on (CHR ''.'') (TrimPrefix (gqAuthorization r) ''Bearer '') = [h, p, sign P (h @ ''.'' @ p) (gfJWTSecret cfg)]
          \<and> tpDec P p = Some raw \<and> tpUnmarshal P raw = Some c \<and> unix now \<le> clExpiresAt c
          \<and> r' = r\<lparr>gqContestantHeader := clContestantID c\<rparr>)"
proof -
  from assms have a: "snd (Allow rd (clientIP (gqRemoteAddr r) (gqXFF r) (ilTrustedHops il)) il)" "gw_mux P now cfg r = GwForward r'"
    by (auto simp: gw_handle_def rl_Middleware_def split: prod.splits if_splits)
  from a(2) obtain c where c: "Validate P now (TrimPrefix (gqAuthorization r) ''Bearer '') (gfJWTSecret cfg) = Inr c"
    "r' = r\<lparr>gqContestantHeader := clContestantID c\<rparr>"
    by (auto simp: gw_mux_def auth_Middleware_def handleToken_def split: route.splits option.splits if_splits sum.splits)
  from a(1) Validate_Inr [OF c(1)] c(2) show ?thesis by blast
qed

text \<open>The header with the internal secret is forwarded as the client sent it: the gateway sets none.\<close>

lemma forwarded_internal_token:
  assumes "gw_handle P cfg rd now fresh r il = (il', rid, GwForward r')"
  shows "gqInternalToken r' = gqInternalToken r"
  using assms by (auto simp: gw_handle_def rl_Middleware_def gw_mux_def auth_Middleware_def handleToken_def
    split: prod.splits if_splits route.splits option.splits sum.splits)

definition alice_request :: gw_request where
  "alice_request = \<lparr>gqRemoteAddr = ''1.2.3.4:5'', gqXFF = [], gqAuthorization = ''Bearer h.alice.h_aalicek'',
     gqContestantHeader = ''bob'', gqRequestID = ''r1'', gqInternalToken = [], gqRoute = RtSubmissions, gqTokenBody = None\<rparr>"

theorem only_authenticated_requests_are_forwarded_witness:
  "\<exists>il' rid r'. gw_handle esc_prims ((loadConfig (\<lambda>_. []))\<lparr>gfJWTSecret := ''k''\<rparr>) \<lparr>rdNew = 0, rdSeen = 0, rdAllow = 0\<rparr> 0 ''f''
       alice_request (NewLimiter (Fin 20) (Fin 50) 0) = (il', rid, GwForward r')
     \<and> (\<exists>c h p raw. split_on (CHR ''.'') (TrimPrefix (gqAuthorization alice_request) ''Bearer '') =
            [h, p, sign esc_prims (h @ ''.'' @ p) (gfJWTSecret ((loadConfig (\<lambda>_. []))\<lparr>gfJWTSecret := ''k''\<rparr>))]
          \<and> tpDec esc_prims p = Some raw \<and> tpUnmarshal esc_prims raw = Some c \<and> unix 0 \<le> clExpiresAt c
          \<and> r' = alice_request\<lparr>gqContestantHeader := clContestantID c\<rparr>)"
proof -
  let ?cfg = "(loadConfig (\<lambda>_. []))\<lparr>gfJWTSecret := ''k''\<rparr>" and ?rd = "\<lparr>rdNew = 0, rdSeen = 0, rdAllow = 0\<rparr>"
  let ?il = "NewLimiter (Fin 20) (Fin 50) 0"
  have ok: "snd (Allow ?rd ''1.2.3.4'' ?il)"
    using int_f64 [of 50]
    by (simp add: Allow_eq NewLimiter_def newBucket_def bucket_allow_def Let_def dur_Seconds_def f64_of_int_def)
  have hops: "ilTrustedHops ?il = 0" by (simp add: NewLimiter_def)
  have ip: "clientIP ''1.2.3.4:5'' [] 0 = ''1.2.3.4''" by code_simp
  have t: "TrimPrefix ''Bearer h.alice.h_aalicek'' ''Bearer '' = ''h.alice.h_aalicek''" by code_simp
  have v: "Validate esc_prims 0 ''h.alice.h_aalicek'' ''k'' = Inr \<lparr>clContestantID = ''alice'', clExpiresAt = 900, clIssuedAt = 0\<rparr>"
    by (simp add: Validate_def Let_def esc_prims_def sign_def unix_def)
  have g: "gw_handle esc_prims ?cfg ?rd 0 ''f'' alice_request ?il = (fst (Allow ?rd ''1.2.3.4'' ?il), ''r1'',
      GwForward (alice_request\<lparr>gqContestantHeader := ''alice''\<rparr>))"
    using ok ip t v hops by (cases "Allow ?rd ''1.2.3.4'' ?il")
      (simp add: gw_handle_def rl_Middleware_def gw_mux_def auth_Middleware_def RequestID_def alice_request_def)
  from only_authenticated_requests_are_forwarded [OF this] g show ?thesis by blast
qed

end
