(* ===== verification/Coordinator.thy ===== *)
theory Coordinator
  imports GoTime GoStrings
begin

text \<open>
  The bot coordinator: the benchmark service (\<open>bot-coordinator/internal/server\<close>) over a spawner of jobs
  (\<open>internal/spawn\<close>), which is kept in memory or creates Kubernetes jobs. The interface \<open>JobSpawner\<close> is a
  locale; the lemmas about the service are proved in it once.
\<close>

section \<open>Spawners\<close>

record BenchmarkSpec =
  bsSubmissionID :: string
  bsContestantID :: string
  bsTargetURL :: string
  bsNumWorkers :: int
  bsOrdersPerSecond :: f64
  bsProtocol :: string
  bsArrivalMode :: string
  bsDurationSeconds :: int
  bsProfiles :: "string list"

record JobStatus =
  jsActive :: int
  jsSucceeded :: int
  jsFailed :: int
  jsPhase :: string

text \<open>The interface: every operation acts on the state of the spawner, and may fail with a text.\<close>

record 's JobSpawner =
  spStart :: "string \<Rightarrow> BenchmarkSpec \<Rightarrow> 's \<Rightarrow> string option \<times> 's"
  spStop :: "string \<Rightarrow> 's \<Rightarrow> string option \<times> 's"
  spStatus :: "string \<Rightarrow> 's \<Rightarrow> (string + JobStatus) \<times> 's"

subsection \<open>In memory\<close>

record StubSpawner =
  ssJobs :: "string \<rightharpoonup> BenchmarkSpec"

definition NewStubSpawner :: StubSpawner where
  "NewStubSpawner = \<lparr>ssJobs = Map.empty\<rparr>"

definition ss_Start :: "string \<Rightarrow> BenchmarkSpec \<Rightarrow> StubSpawner \<Rightarrow> string option \<times> StubSpawner" where
  "ss_Start benchmarkID spec s =
     (if benchmarkID \<in> dom (ssJobs s) then (Some (''benchmark already running: '' @ benchmarkID), s)
      else (None, s\<lparr>ssJobs := (ssJobs s)(benchmarkID \<mapsto> spec)\<rparr>))"

definition ss_Stop :: "string \<Rightarrow> StubSpawner \<Rightarrow> string option \<times> StubSpawner" where
  "ss_Stop benchmarkID s =
     (if benchmarkID \<notin> dom (ssJobs s) then (Some (''benchmark not found: '' @ benchmarkID), s)
      else (None, s\<lparr>ssJobs := (ssJobs s)(benchmarkID := None)\<rparr>))"

definition ss_Status :: "string \<Rightarrow> StubSpawner \<Rightarrow> (string + JobStatus) \<times> StubSpawner" where
  "ss_Status benchmarkID s = (case ssJobs s benchmarkID of
     None \<Rightarrow> (Inl (''benchmark not found: '' @ benchmarkID), s)
   | Some spec \<Rightarrow> (Inr \<lparr>jsActive = wrap32 (bsNumWorkers spec), jsSucceeded = 0, jsFailed = 0, jsPhase = ''running''\<rparr>, s))"

text \<open>\<open>Active\<close> ranges over the jobs in the order \<open>ks\<close>.\<close>

definition ss_Active :: "string list \<Rightarrow> StubSpawner \<Rightarrow> string list" where
  "ss_Active ks s = filter (\<lambda>k. k \<in> dom (ssJobs s)) ks"

definition stub_spawner :: "StubSpawner JobSpawner" where
  "stub_spawner = \<lparr>spStart = ss_Start, spStop = ss_Stop, spStatus = ss_Status\<rparr>"

subsection \<open>Kubernetes jobs\<close>

text \<open>The value of an environment variable: a text, or a field of the pod.\<close>

datatype env_value = EnvText string | EnvField string

record job_security =
  jcRunAsNonRoot :: bool
  jcRunAsUser :: int64
  jcRunAsGroup :: int64
  jcFSGroup :: int64
  jcSeccompProfile :: string
  jcAllowPrivilegeEscalation :: bool
  jcReadOnlyRootFilesystem :: bool
  jcDropCapabilities :: "string list"

record Job =
  jbName :: string
  jbNamespace :: string
  jbLabels :: "string \<rightharpoonup> string"
  jbParallelism :: int
  jbCompletions :: int
  jbTTLSecondsAfterFinished :: int
  jbIndexed :: bool
  jbActiveDeadlineSeconds :: "int64 option"
  jbTemplateLabels :: "string \<rightharpoonup> string"
  jbRestartPolicy :: string
  jbContainerName :: string
  jbImage :: string
  jbEnv :: "(string \<times> env_value) list"
  jbRequests :: "string \<times> string"
  jbLimits :: "string \<times> string"
  jbSecurity :: job_security
  jbTmpMount :: string

record K8sSpawner =
  ksNamespace :: string
  ksImage :: string

definition jobName :: "string \<Rightarrow> string" where
  "jobName benchmarkID = ''bot-'' @ benchmarkID"

text \<open>\<open>show_rate\<close> is the format \<open>%.0f\<close> of a float.\<close>

definition job_env :: "(f64 \<Rightarrow> string) \<Rightarrow> BenchmarkSpec \<Rightarrow> (string \<times> env_value) list" where
  "job_env show_rate spec =
     [(''TARGET_URL'', EnvText (bsTargetURL spec)),
      (''ORDERS_PER_SECOND'', EnvText (show_rate (bsOrdersPerSecond spec))),
      (''PROTOCOL'', EnvText (bsProtocol spec)),
      (''ARRIVAL_MODE'', EnvText (bsArrivalMode spec)),
      (''NUM_WORKERS'', EnvText ''1''),
      (''CONTESTANT_ID'', EnvText (bsContestantID spec)),
      (''SUBMISSION_ID'', EnvText (bsSubmissionID spec))]
     @ (if 0 < bsDurationSeconds spec then [(''DURATION'', EnvText (show_int (bsDurationSeconds spec)))] else [])
     @ (if bsProfiles spec \<noteq> [] then
          [(''BOT_PROFILES'', EnvText (join_on (CHR '','') (bsProfiles spec))),
           (''JOB_COMPLETION_INDEX'', EnvField (''metadata.annotations['' @ [CHR 0x27] @ ''batch.kubernetes.io/job-completion-index'' @ [CHR 0x27] @ '']''))]
        else [])"

definition buildJob :: "(f64 \<Rightarrow> string) \<Rightarrow> K8sSpawner \<Rightarrow> string \<Rightarrow> BenchmarkSpec \<Rightarrow> Job" where
  "buildJob show_rate ks benchmarkID spec =
     (let workers = max (wrap32 (bsNumWorkers spec)) 1 in
      \<lparr>jbName = jobName benchmarkID,
       jbNamespace = ksNamespace ks,
       jbLabels = [''app'' \<mapsto> ''bot-worker'', ''benchmark-id'' \<mapsto> benchmarkID, ''submission-id'' \<mapsto> bsSubmissionID spec],
       jbParallelism = workers,
       jbCompletions = workers,
       jbTTLSecondsAfterFinished = 300,
       jbIndexed = (bsProfiles spec \<noteq> []),
       jbActiveDeadlineSeconds = (if 0 < bsDurationSeconds spec then Some (wrap64 (bsDurationSeconds spec + 60)) else None),
       jbTemplateLabels = [''app'' \<mapsto> ''bot-worker'', ''benchmark-id'' \<mapsto> benchmarkID],
       jbRestartPolicy = ''Never'',
       jbContainerName = ''bot-worker'',
       jbImage = ksImage ks,
       jbEnv = job_env show_rate spec,
       jbRequests = (''100m'', ''64Mi''),
       jbLimits = (''500m'', ''256Mi''),
       jbSecurity = \<lparr>jcRunAsNonRoot = True, jcRunAsUser = 65532, jcRunAsGroup = 65532, jcFSGroup = 65532,
         jcSeccompProfile = ''RuntimeDefault'', jcAllowPrivilegeEscalation = False, jcReadOnlyRootFilesystem = True,
         jcDropCapabilities = [''ALL'']\<rparr>,
       jbTmpMount = ''/tmp''\<rparr>)"

text \<open>The batch API on a cluster state \<open>'w\<close>: creation, deletion, and the counts of a job.\<close>

record 'w batch_api =
  baCreate :: "string \<Rightarrow> Job \<Rightarrow> 'w \<Rightarrow> string option \<times> 'w"
  baDelete :: "string \<Rightarrow> string \<Rightarrow> 'w \<Rightarrow> string option \<times> 'w"
  baGet :: "string \<Rightarrow> string \<Rightarrow> 'w \<Rightarrow> (string + int \<times> int \<times> int) \<times> 'w"

definition k8s_Start :: "'w batch_api \<Rightarrow> (f64 \<Rightarrow> string) \<Rightarrow> K8sSpawner \<Rightarrow> string \<Rightarrow> BenchmarkSpec \<Rightarrow> 'w \<Rightarrow> string option \<times> 'w" where
  "k8s_Start api show_rate ks benchmarkID spec w =
     (case baCreate api (ksNamespace ks) (buildJob show_rate ks benchmarkID spec) w of
        (Some e, w') \<Rightarrow> (Some (''create job '' @ benchmarkID @ '': '' @ e), w') | (None, w') \<Rightarrow> (None, w'))"

definition k8s_Stop :: "'w batch_api \<Rightarrow> K8sSpawner \<Rightarrow> string \<Rightarrow> 'w \<Rightarrow> string option \<times> 'w" where
  "k8s_Stop api ks benchmarkID w = (case baDelete api (ksNamespace ks) (jobName benchmarkID) w of
     (Some e, w') \<Rightarrow> (Some (''delete job '' @ benchmarkID @ '': '' @ e), w') | (None, w') \<Rightarrow> (None, w'))"

definition job_phase :: "int \<Rightarrow> int \<Rightarrow> int \<Rightarrow> string" where
  "job_phase active succeeded failed =
     (if active = 0 \<and> 0 < succeeded then ''succeeded'' else if 0 < failed then ''failed'' else ''running'')"

definition k8s_Status :: "'w batch_api \<Rightarrow> K8sSpawner \<Rightarrow> string \<Rightarrow> 'w \<Rightarrow> (string + JobStatus) \<times> 'w" where
  "k8s_Status api ks benchmarkID w = (case baGet api (ksNamespace ks) (jobName benchmarkID) w of
     (Inl e, w') \<Rightarrow> (Inl (''get job '' @ benchmarkID @ '': '' @ e), w')
   | (Inr (active, succeeded, failed), w') \<Rightarrow>
       (Inr \<lparr>jsActive = active, jsSucceeded = succeeded, jsFailed = failed, jsPhase = job_phase active succeeded failed\<rparr>, w'))"

definition k8s_spawner :: "'w batch_api \<Rightarrow> (f64 \<Rightarrow> string) \<Rightarrow> K8sSpawner \<Rightarrow> 'w JobSpawner" where
  "k8s_spawner api show_rate ks = \<lparr>spStart = k8s_Start api show_rate ks, spStop = k8s_Stop api ks, spStatus = k8s_Status api ks\<rparr>"

section \<open>The service\<close>

datatype coord_reply = Healthy | Started string | Status_is JobStatus | NoContent | CoordError nat string

record startReq =
  stSpec :: BenchmarkSpec
  stBenchmarkID :: string

definition handle_Health :: coord_reply where
  "handle_Health = Healthy"

text \<open>\<open>strings.ContainsAny (id, " /\t\n")\<close>.\<close>

definition bad_id :: "string \<Rightarrow> bool" where
  "bad_id i = list_ex (\<lambda>c. of_char c \<in> {32, 47, 9, 10 :: nat}) i"

definition with_defaults :: "BenchmarkSpec \<Rightarrow> BenchmarkSpec" where
  "with_defaults spec =
     (let s1 = (if bsNumWorkers spec \<le> 0 then spec\<lparr>bsNumWorkers := 1\<rparr> else spec);
          s2 = (if bsProtocol s1 = '''' then s1\<lparr>bsProtocol := ''rest''\<rparr> else s1)
      in if bsArrivalMode s2 = '''' then s2\<lparr>bsArrivalMode := ''poisson''\<rparr> else s2)"

text \<open>The body is \<open>None\<close> when it does not decode.\<close>

definition handleStart :: "'s JobSpawner \<Rightarrow> startReq option \<Rightarrow> 's \<Rightarrow> coord_reply \<times> 's" where
  "handleStart sp body s = (case body of None \<Rightarrow> (CoordError 400 ''invalid request body'', s)
   | Some req \<Rightarrow>
       if stBenchmarkID req = '''' \<or> bad_id (stBenchmarkID req)
       then (CoordError 400 ''benchmark_id required (no spaces or slashes)'', s)
       else if bsTargetURL (stSpec req) = '''' then (CoordError 400 ''target_url required'', s)
       else case spStart sp (stBenchmarkID req) (with_defaults (stSpec req)) s of
         (Some e, s') \<Rightarrow> (CoordError 409 e, s')
       | (None, s') \<Rightarrow> (Started (stBenchmarkID req), s'))"

definition handleStatus :: "'s JobSpawner \<Rightarrow> string \<Rightarrow> 's \<Rightarrow> coord_reply \<times> 's" where
  "handleStatus sp i s = (case spStatus sp i s of
     (Inl e, s') \<Rightarrow> (CoordError 404 e, s') | (Inr st, s') \<Rightarrow> (Status_is st, s'))"

definition handleStop :: "'s JobSpawner \<Rightarrow> string \<Rightarrow> 's \<Rightarrow> coord_reply \<times> 's" where
  "handleStop sp i s = (case spStop sp i s of
     (Some e, s') \<Rightarrow> (CoordError 404 e, s') | (None, s') \<Rightarrow> (NoContent, s'))"

datatype coord_request = ReqHealth | ReqStart "startReq option" | ReqStatus string | ReqStop string

definition coord_serve :: "'s JobSpawner \<Rightarrow> coord_request \<Rightarrow> 's \<Rightarrow> coord_reply \<times> 's" where
  "coord_serve sp req s = (case req of ReqHealth \<Rightarrow> (handle_Health, s) | ReqStart body \<Rightarrow> handleStart sp body s
     | ReqStatus i \<Rightarrow> handleStatus sp i s | ReqStop i \<Rightarrow> handleStop sp i s)"

section \<open>The contract of a spawner\<close>

text \<open>What the service is for: a set of running benchmarks, and the status code of each request.\<close>

definition reply_code :: "coord_reply \<Rightarrow> nat" where
  "reply_code r = (case r of Healthy \<Rightarrow> 200 | Started i \<Rightarrow> 201 | Status_is st \<Rightarrow> 200 | NoContent \<Rightarrow> 204 | CoordError n e \<Rightarrow> n)"

definition spec_serve :: "coord_request \<Rightarrow> string set \<Rightarrow> nat \<times> string set" where
  "spec_serve req R = (case req of ReqHealth \<Rightarrow> (200, R)
     | ReqStart None \<Rightarrow> (400, R)
     | ReqStart (Some r) \<Rightarrow>
         if stBenchmarkID r = [] \<or> bad_id (stBenchmarkID r) \<or> bsTargetURL (stSpec r) = [] then (400, R)
         else if stBenchmarkID r \<in> R then (409, R) else (201, insert (stBenchmarkID r) R)
     | ReqStatus i \<Rightarrow> (if i \<in> R then 200 else 404, R)
     | ReqStop i \<Rightarrow> if i \<in> R then (204, R - {i}) else (404, R))"

fun serve_all :: "('r \<Rightarrow> 's \<Rightarrow> 'a \<times> 's) \<Rightarrow> 'r list \<Rightarrow> 's \<Rightarrow> 'a list \<times> 's" where
  "serve_all f [] s = ([], s)"
| "serve_all f (r # rs) s = (case f r s of (a, s') \<Rightarrow> case serve_all f rs s' of (as, s'') \<Rightarrow> (a # as, s''))"

locale job_spawner =
  fixes sp :: "'s JobSpawner"
    and running :: "'s \<Rightarrow> string set"
  assumes start_ok: "i \<notin> running s \<Longrightarrow> fst (spStart sp i spec s) = None \<and> running (snd (spStart sp i spec s)) = insert i (running s)"
    and start_dup: "i \<in> running s \<Longrightarrow> fst (spStart sp i spec s) \<noteq> None \<and> running (snd (spStart sp i spec s)) = running s"
    and stop_ok: "i \<in> running s \<Longrightarrow> fst (spStop sp i s) = None \<and> running (snd (spStop sp i s)) = running s - {i}"
    and stop_missing: "i \<notin> running s \<Longrightarrow> fst (spStop sp i s) \<noteq> None \<and> running (snd (spStop sp i s)) = running s"
    and status: "isl (fst (spStatus sp i s)) = (i \<notin> running s) \<and> running (snd (spStatus sp i s)) = running s"
begin

lemma serve_start:
  "reply_code (fst (handleStart sp body s)) = fst (spec_serve (ReqStart body) (running s))
   \<and> running (snd (handleStart sp body s)) = snd (spec_serve (ReqStart body) (running s))"
proof (cases body)
  case (Some r)
  let ?i = "stBenchmarkID r" and ?spec = "with_defaults (stSpec r)"
  show ?thesis
    using Some start_ok [of ?i s ?spec] start_dup [of ?i s ?spec]
    by (cases "?i \<in> running s"; cases "spStart sp ?i ?spec s")
      (auto simp: handleStart_def spec_serve_def reply_code_def split: option.splits)
qed (simp add: handleStart_def spec_serve_def reply_code_def)

lemma serve_stop:
  "reply_code (fst (handleStop sp i s)) = fst (spec_serve (ReqStop i) (running s))
   \<and> running (snd (handleStop sp i s)) = snd (spec_serve (ReqStop i) (running s))"
  using stop_ok [of i s] stop_missing [of i s]
  by (cases "i \<in> running s"; cases "spStop sp i s") (auto simp: handleStop_def spec_serve_def reply_code_def split: option.splits)

lemma serve_status:
  "reply_code (fst (handleStatus sp i s)) = fst (spec_serve (ReqStatus i) (running s))
   \<and> running (snd (handleStatus sp i s)) = snd (spec_serve (ReqStatus i) (running s))"
  using status [of i s]
  by (cases "spStatus sp i s"; cases "fst (spStatus sp i s)") (auto simp: handleStatus_def spec_serve_def reply_code_def)

lemma serve_refines:
  "reply_code (fst (coord_serve sp r s)) = fst (spec_serve r (running s))
   \<and> running (snd (coord_serve sp r s)) = snd (spec_serve r (running s))"
proof (cases r)
  case ReqHealth
  then show ?thesis by (simp add: coord_serve_def spec_serve_def handle_Health_def reply_code_def)
qed (use serve_start serve_stop serve_status in \<open>auto simp: coord_serve_def\<close>)

lemma service_refines:
  "map reply_code (fst (serve_all (coord_serve sp) rs s)) = fst (serve_all spec_serve rs (running s))
   \<and> running (snd (serve_all (coord_serve sp) rs s)) = snd (serve_all spec_serve rs (running s))"
proof (induction rs arbitrary: s)
  case (Cons r rs)
  show ?case using serve_refines [of r s] Cons.IH [of "snd (coord_serve sp r s)"]
    by (cases "coord_serve sp r s"; cases "spec_serve r (running s)") (auto split: prod.splits)
qed simp

end

interpretation stub: job_spawner stub_spawner "\<lambda>s. dom (ssJobs s)"
proof
  fix i :: string and s :: StubSpawner
  show "isl (fst (spStatus stub_spawner i s)) = (i \<notin> dom (ssJobs s)) \<and> dom (ssJobs (snd (spStatus stub_spawner i s))) = dom (ssJobs s)"
    by (auto simp: stub_spawner_def ss_Status_def split: option.splits)
qed (auto simp: stub_spawner_def ss_Start_def ss_Stop_def)

text \<open>What is relied on of the batch API: jobs are kept by name, a name is taken once, and only a job that exists is deleted or read.\<close>

definition batch_laws :: "'w batch_api \<Rightarrow> ('w \<Rightarrow> (string \<times> string) set) \<Rightarrow> bool" where
  "batch_laws api names \<longleftrightarrow>
     (\<forall>ns job w. (fst (baCreate api ns job w) = None) = ((ns, jbName job) \<notin> names w)
        \<and> names (snd (baCreate api ns job w)) = insert (ns, jbName job) (names w))
   \<and> (\<forall>ns n w. (fst (baDelete api ns n w) = None) = ((ns, n) \<in> names w) \<and> names (snd (baDelete api ns n w)) = names w - {(ns, n)})
   \<and> (\<forall>ns n w. isl (fst (baGet api ns n w)) = ((ns, n) \<notin> names w) \<and> names (snd (baGet api ns n w)) = names w)"

lemma jobName_inject [simp]: "jobName a = jobName b \<longleftrightarrow> a = b"
  by (simp add: jobName_def)

definition k8s_running :: "K8sSpawner \<Rightarrow> ('w \<Rightarrow> (string \<times> string) set) \<Rightarrow> 'w \<Rightarrow> string set" where
  "k8s_running ks names w = {i. (ksNamespace ks, jobName i) \<in> names w}"

lemma k8s_Start_proj:
  "(fst (k8s_Start api show_rate ks i spec w) = None) = (fst (baCreate api (ksNamespace ks) (buildJob show_rate ks i spec) w) = None)"
  "snd (k8s_Start api show_rate ks i spec w) = snd (baCreate api (ksNamespace ks) (buildJob show_rate ks i spec) w)"
  by (simp_all add: k8s_Start_def split: prod.splits option.splits)

lemma k8s_Stop_proj:
  "(fst (k8s_Stop api ks i w) = None) = (fst (baDelete api (ksNamespace ks) (jobName i) w) = None)"
  "snd (k8s_Stop api ks i w) = snd (baDelete api (ksNamespace ks) (jobName i) w)"
  by (simp_all add: k8s_Stop_def split: prod.splits option.splits)

lemma k8s_Status_proj:
  "isl (fst (k8s_Status api ks i w)) = isl (fst (baGet api (ksNamespace ks) (jobName i) w))"
  "snd (k8s_Status api ks i w) = snd (baGet api (ksNamespace ks) (jobName i) w)"
  by (simp_all add: k8s_Status_def split: prod.splits sum.splits)

lemma k8s_is_spawner:
  assumes "batch_laws api names"
  shows "job_spawner (k8s_spawner api show_rate ks) (k8s_running ks names)"
proof -
  have n: "jbName (buildJob show_rate ks i spec) = jobName i" for i spec by (simp add: buildJob_def Let_def)
  note laws = assms [unfolded batch_laws_def]
  note c = laws [THEN conjunct1, THEN spec, THEN spec, THEN spec]
  note d = laws [THEN conjunct2, THEN conjunct1, THEN spec, THEN spec, THEN spec]
  note g = laws [THEN conjunct2, THEN conjunct2, THEN spec, THEN spec, THEN spec]
  note facts = k8s_spawner_def k8s_running_def k8s_Start_proj k8s_Stop_proj k8s_Status_proj n
    c [THEN conjunct1] c [THEN conjunct2] d [THEN conjunct1] d [THEN conjunct2] g [THEN conjunct1] g [THEN conjunct2]
  show ?thesis by unfold_locales (auto simp: facts simp del: not_None_eq)
qed

section \<open>Properties\<close>


definition set_api :: "(string \<times> string) set batch_api" where
  "set_api = \<lparr>baCreate = (\<lambda>ns job w. (if (ns, jbName job) \<in> w then Some ''exists'' else None, insert (ns, jbName job) w)),
     baDelete = (\<lambda>ns n w. (if (ns, n) \<in> w then None else Some ''missing'', w - {(ns, n)})),
     baGet = (\<lambda>ns n w. (if (ns, n) \<in> w then Inr (1, 0, 0) else Inl ''missing'', w))\<rparr>"

definition sample_start :: startReq where
  "sample_start = \<lparr>stSpec = \<lparr>bsSubmissionID = ''s1'', bsContestantID = ''alice'', bsTargetURL = ''http://x'', bsNumWorkers = 0,
     bsOrdersPerSecond = Fin 10, bsProtocol = [], bsArrivalMode = [], bsDurationSeconds = 0, bsProfiles = []\<rparr>, stBenchmarkID = ''b1''\<rparr>"


end
