(* ===== verification/BotFleet.thy ===== *)
theory BotFleet
  imports BotWorker Coordinator
begin

text \<open>
  The configuration of a bot (\<open>bot-worker/main.go\<close>: \<open>loadConfig\<close>, \<open>resolveProfile\<close>, the generator it chooses, the
  transport it opens), its HTTP server, and how a bot started by the coordinator reads the benchmark it was started for:
  the job's environment variables are written by the coordinator and read here.
\<close>

section \<open>Configuration\<close>

record bot_config =
  bcHttpAddr :: string
  bcTargetURL :: string
  bcOrdersPerSecond :: f64
  bcNumWorkers :: int
  bcMidPrice :: f64
  bcPriceSigma :: f64
  bcCancelRatio :: f64
  bcMarketRatio :: f64
  bcWorkerID :: string
  bcProtocol :: string
  bcWsPath :: string
  bcFixHost :: string
  bcFixPort :: int
  bcArrivalMode :: string
  bcJitterMs :: int
  bcBurstEnabled :: bool
  bcBurstMultiplier :: int
  bcBurstEveryS :: int
  bcBurstDurationMs :: int
  bcTelemetryAddr :: string
  bcTelemetryBuffer :: int
  bcContestantID :: string
  bcSubmissionID :: string
  bcBotProfile :: string

text \<open>\<open>parse_float\<close> is \<open>strconv.ParseFloat\<close>.\<close>

definition envFloat :: "(string \<Rightarrow> f64 option) \<Rightarrow> (string \<Rightarrow> string) \<Rightarrow> string \<Rightarrow> f64 \<Rightarrow> f64" where
  "envFloat parse_float env key fallback =
     (if env key \<noteq> '''' then (case parse_float (env key) of Some f \<Rightarrow> f | None \<Rightarrow> fallback) else fallback)"

definition resolveProfile :: "(string \<Rightarrow> string) \<Rightarrow> string" where
  "resolveProfile env =
     (if env ''BOT_PROFILE'' \<noteq> '''' then env ''BOT_PROFILE''
      else if env ''BOT_PROFILES'' = '''' \<or> env ''JOB_COMPLETION_INDEX'' = '''' then ''''
      else let parts = split_on (CHR '','') (env ''BOT_PROFILES'')
           in if parts = [] then ''''
              else case Atoi (env ''JOB_COMPLETION_INDEX'') of
                None \<Rightarrow> hd parts
              | Some idx \<Rightarrow> if idx < 0 then hd parts
                  else TrimSpace (parts ! nat (go_mod idx (int (length parts)))))"

definition bot_loadConfig :: "(string \<Rightarrow> f64 option) \<Rightarrow> (string \<Rightarrow> string) \<Rightarrow> bot_config" where
  "bot_loadConfig parse_float env =
     \<lparr>bcHttpAddr = envOr env ''HTTP_ADDR'' '':9090'',
      bcTargetURL = envOr env ''TARGET_URL'' ''http://localhost:8082'',
      bcOrdersPerSecond = envFloat parse_float env ''ORDERS_PER_SECOND'' (Fin 10),
      bcNumWorkers = envInt env ''NUM_WORKERS'' 1,
      bcMidPrice = envFloat parse_float env ''MID_PRICE'' (Fin 100),
      bcPriceSigma = envFloat parse_float env ''PRICE_SIGMA'' (Fin 1),
      bcCancelRatio = envFloat parse_float env ''CANCEL_RATIO'' (f64_of_rat (70 / 100)),
      bcMarketRatio = envFloat parse_float env ''MARKET_RATIO'' (f64_of_rat (10 / 100)),
      bcWorkerID = envOr env ''WORKER_ID'' ''bot-0'',
      bcProtocol = envOr env ''PROTOCOL'' ''rest'',
      bcWsPath = envOr env ''WS_PATH'' ''/ws'',
      bcFixHost = envOr env ''FIX_HOST'' ''localhost'',
      bcFixPort = envInt env ''FIX_PORT'' 5001,
      bcArrivalMode = envOr env ''ARRIVAL_MODE'' ''uniform'',
      bcJitterMs = envInt env ''JITTER_MS'' 0,
      bcBurstEnabled = (envOr env ''BURST_ENABLED'' ''false'' = ''true''),
      bcBurstMultiplier = envInt env ''BURST_MULTIPLIER'' 10,
      bcBurstEveryS = envInt env ''BURST_EVERY_S'' 30,
      bcBurstDurationMs = envInt env ''BURST_DURATION_MS'' 100,
      bcTelemetryAddr = envOr env ''TELEMETRY_ADDR'' '''',
      bcTelemetryBuffer = envInt env ''TELEMETRY_BUFFER'' 1024,
      bcContestantID = envOr env ''CONTESTANT_ID'' ''unknown'',
      bcSubmissionID = envOr env ''SUBMISSION_ID'' '''',
      bcBotProfile = resolveProfile env\<rparr>"

text \<open>The generator a bot runs with: the preset of its profile, or the values of its environment.\<close>

definition choose_gen :: "bot_config \<Rightarrow> profile_error + GConfig" where
  "choose_gen cfg =
     (if bcBotProfile cfg \<noteq> '''' then PresetConfig (bcBotProfile cfg) (bcMidPrice cfg) (bcPriceSigma cfg)
      else Inr \<lparr>gcMidPrice = bcMidPrice cfg, gcPriceSigma = bcPriceSigma cfg, gcMinQty = 0, gcMaxQty = 0,
        gcCancelRatio = bcCancelRatio cfg, gcMarketRatio = bcMarketRatio cfg\<rparr>)"

text \<open>The transport: REST and FIX share a client among the workers, WebSocket dials one for each.\<close>

datatype transport = SharedREST string | DialWS_each string | SharedFIX string int string

definition makeWorkerFactory :: "(transport \<Rightarrow> bool) \<Rightarrow> bot_config \<Rightarrow> string + transport" where
  "makeWorkerFactory connects cfg =
     (let p = map to_lower (bcProtocol cfg) in
      if p = ''rest'' \<or> p = '''' then Inr (SharedREST (bcTargetURL cfg))
      else if p = ''ws'' then Inr (DialWS_each (bcTargetURL cfg @ bcWsPath cfg))
      else if p = ''fix'' then
        (let t = SharedFIX (bcFixHost cfg) (bcFixPort cfg) (bcWorkerID cfg)
         in if connects t then Inr t else Inl ''FIX connect'')
      else Inl ''unknown PROTOCOL'')"

datatype bot_reply = BotHealthy | BotMetrics RSnapshot | BotTime int64

datatype bot_route = GetHealthz | GetMetrics | GetTime

definition bot_serve :: "f64 \<Rightarrow> Recorder \<Rightarrow> instant \<Rightarrow> bot_route \<Rightarrow> bot_reply option" where
  "bot_serve elapsed rec now r = (case r of GetHealthz \<Rightarrow> Some BotHealthy
     | GetMetrics \<Rightarrow> map_option BotMetrics (recorder_Snapshot elapsed rec) | GetTime \<Rightarrow> Some (BotTime (wrap64 now)))"

section \<open>The environment of a bot's pod\<close>

text \<open>
  What Kubernetes gives a container: the variables of its specification, of which the last of a name
  counts, over the image's own environment \<open>base\<close>; a field reference is resolved by \<open>field\<close>.
\<close>

definition pod_env :: "(string \<Rightarrow> string) \<Rightarrow> (string \<Rightarrow> string) \<Rightarrow> (string \<times> env_value) list \<Rightarrow> string \<Rightarrow> string" where
  "pod_env base field vars name = (case map_of (rev vars) name of
     None \<Rightarrow> base name | Some (EnvText v) \<Rightarrow> v | Some (EnvField f) \<Rightarrow> field f)"

abbreviation completion_index_path :: string where
  "completion_index_path \<equiv> ''metadata.annotations['' @ [CHR 0x27] @ ''batch.kubernetes.io/job-completion-index'' @ [CHR 0x27] @ '']''"

lemma job_env_lookup:
  "pod_env base field (job_env show_rate spec) ''TARGET_URL'' = bsTargetURL spec"
  "pod_env base field (job_env show_rate spec) ''PROTOCOL'' = bsProtocol spec"
  "pod_env base field (job_env show_rate spec) ''ARRIVAL_MODE'' = bsArrivalMode spec"
  "pod_env base field (job_env show_rate spec) ''NUM_WORKERS'' = ''1''"
  "pod_env base field (job_env show_rate spec) ''CONTESTANT_ID'' = bsContestantID spec"
  "pod_env base field (job_env show_rate spec) ''SUBMISSION_ID'' = bsSubmissionID spec"
  by (simp_all add: pod_env_def job_env_def)

lemma job_env_profiles:
  "pod_env base field (job_env show_rate spec) ''BOT_PROFILE'' = base ''BOT_PROFILE''"
  "pod_env base field (job_env show_rate spec) ''BOT_PROFILES'' =
     (if bsProfiles spec = [] then base ''BOT_PROFILES'' else join_on (CHR '','') (bsProfiles spec))"
  "bsProfiles spec \<noteq> [] \<Longrightarrow> pod_env base field (job_env show_rate spec) ''JOB_COMPLETION_INDEX'' = field completion_index_path"
  by (simp_all add: pod_env_def job_env_def)

lemma show_int_nonempty: "show_int n \<noteq> []"
  using show_nat_is_digits(1) by (simp add: show_int_def)

lemma resolveProfile_indexed:
  assumes "bsProfiles spec \<noteq> []" "\<forall>p \<in> set (bsProfiles spec). CHR '','' \<notin> set p \<and> TrimSpace p = p"
    and "0 \<le> i" "in_int64 i" "field completion_index_path = show_int i" "base ''BOT_PROFILE'' = []"
  shows "resolveProfile (pod_env base field (job_env show_rate spec)) = bsProfiles spec ! nat (i mod int (length (bsProfiles spec)))"
proof -
  let ?ps = "bsProfiles spec" and ?env = "pod_env base field (job_env show_rate spec)"
  let ?k = "nat (i mod int (length ?ps))"
  have split: "split_on (CHR '','') (join_on (CHR '','') ?ps) = ?ps" using assms(1,2) by (intro split_join) auto
  have k: "?k < length ?ps" using assms(1) by (simp add: nat_less_iff)
  show ?thesis
  proof (cases "join_on (CHR '','') ?ps = []")
    case True
    then have "?ps = [[]]" using split by simp
    then show ?thesis using True assms(1,6) k by (simp add: resolveProfile_def job_env_profiles)
  next
    case False
    then show ?thesis using assms split k nth_mem [OF k]
      by (simp add: resolveProfile_def job_env_profiles show_int_nonempty Let_def go_mod_nonneg)
  qed
qed

section \<open>Properties\<close>



text \<open>Without profiles a bot runs with the ratios of its environment, not with those of the profile \<open>noise\<close>.\<close>

lemma no_profile_uses_environment:
  "bcBotProfile cfg = [] \<Longrightarrow> choose_gen cfg = Inr \<lparr>gcMidPrice = bcMidPrice cfg, gcPriceSigma = bcPriceSigma cfg, gcMinQty = 0,
     gcMaxQty = 0, gcCancelRatio = bcCancelRatio cfg, gcMarketRatio = bcMarketRatio cfg\<rparr>"
  by (simp add: choose_gen_def)

section \<open>What main sets up\<close>

text \<open>The telemetry client: the stub drops every event.\<close>

datatype tele_client = TeleStub | TeleStream string int

definition main_telemetry :: "(string \<Rightarrow> bool) \<Rightarrow> bot_config \<Rightarrow> tele_client" where
  "main_telemetry dials cfg =
     (if bcTelemetryAddr cfg \<noteq> '''' \<and> dials (bcTelemetryAddr cfg)
      then TeleStream (bcTelemetryAddr cfg) (bcTelemetryBuffer cfg) else TeleStub)"

text \<open>
  The arrivals shared by the workers. \<open>StartBurst\<close> starts a ticker, which panics in its own goroutine, and so
  ends the process, when its period is not positive.
\<close>

definition main_arrivals :: "bot_config \<Rightarrow> Arrivals \<times> bool" where
  "main_arrivals cfg =
     (let a = NewArrivals (bcArrivalMode cfg) (bcOrdersPerSecond cfg);
          a1 = (if 0 < bcJitterMs cfg then WithJitter (wrap64 (bcJitterMs cfg * Millisecond)) a else a)
      in if bcBurstEnabled cfg
         then (StartBurst (bcBurstMultiplier cfg) a1, 1 < bcBurstMultiplier cfg \<and> wrap64 (bcBurstEveryS cfg * Second) \<le> 0)
         else (a1, False))"

record bot_setup =
  btGen :: GConfig
  btArrivals :: Arrivals
  btTransport :: transport
  btTelemetry :: tele_client
  btWorkers :: int

datatype bot_exit = BadProfile profile_error | NoFactory string | TickerPanic

definition bot_main :: "(transport \<Rightarrow> bool) \<Rightarrow> (string \<Rightarrow> bool) \<Rightarrow> bot_config \<Rightarrow> bot_exit + bot_setup" where
  "bot_main connects dials cfg =
     (case choose_gen cfg of
        Inl e \<Rightarrow> Inl (BadProfile e)
      | Inr g \<Rightarrow> (case main_arrivals cfg of (a, panics) \<Rightarrow>
          if panics then Inl TickerPanic
          else (case makeWorkerFactory connects cfg of
             Inl e \<Rightarrow> Inl (NoFactory e)
           | Inr t \<Rightarrow> Inr \<lparr>btGen = g, btArrivals = a, btTransport = t, btTelemetry = main_telemetry dials cfg,
               btWorkers = bcNumWorkers cfg\<rparr>)))"

text \<open>No variable of the job names the ingester: unless the image does, the bots of a benchmark emit to the stub.\<close>

lemma benchmark_bots_emit_nothing:
  assumes "base ''TELEMETRY_ADDR'' = []"
    and "bot_main connects dials (bot_loadConfig parse_float (pod_env base field (jbEnv (buildJob show_rate ks bid spec)))) = Inr st"
  shows "btTelemetry st = TeleStub"
proof -
  have "pod_env base field (jbEnv (buildJob show_rate ks bid spec)) ''TELEMETRY_ADDR'' = []"
    using assms(1) by (simp add: pod_env_def buildJob_def Let_def job_env_def)
  then have "bcTelemetryAddr (bot_loadConfig parse_float (pod_env base field (jbEnv (buildJob show_rate ks bid spec)))) = []"
    by (simp add: bot_loadConfig_def envOr_def)
  then show ?thesis using assms(2)
    by (auto simp: bot_main_def main_telemetry_def split: sum.splits prod.splits if_splits)
qed

text \<open>The duration of a benchmark is not read by the bot: two environments that differ in it only configure the same bot.\<close>

lemma env_upd_other:
  assumes "key \<noteq> k"
  shows "envOr (env(k := d)) key x = envOr env key x" "envInt (env(k := d)) key i = envInt env key i"
    "envFloat parse_float (env(k := d)) key f = envFloat parse_float env key f"
  using assms by (simp_all add: envOr_def envInt_def envFloat_def)

lemma duration_is_not_read:
  "bot_loadConfig parse_float (env(''DURATION'' := d)) = bot_loadConfig parse_float env"
proof -
  have "resolveProfile (env(''DURATION'' := d)) = resolveProfile env" by (simp add: resolveProfile_def)
  then show ?thesis unfolding bot_loadConfig_def by (simp only: env_upd_other list.inject char.inject list.distinct simp_thms)
qed

end
