(* ===== verification/BotEvents.thy ===== *)
theory BotEvents
  imports BotWorker
begin

text \<open>
  What a bot reports (\<open>bot-worker/main.go\<close>, \<open>runWorker\<close>), for any order client: every telemetry event is well
  formed, its result agrees with its fill, and the cancels go out in the order in which the limit orders they
  name were acknowledged. The WebSocket client (\<open>internal/client/ws.go\<close>) completes the transports.
\<close>

section \<open>Well-formed events\<close>

text \<open>The result an event carries agrees with its fill; an order that failed has neither a fill nor an id.\<close>

definition result_agrees :: "OrderEvent \<Rightarrow> bool" where
  "result_agrees e \<longleftrightarrow> (case eResult e of
     ORDER_RESULT_FILLED \<Rightarrow> eQuantity e \<le> eFilledQuantity e
   | ORDER_RESULT_PARTIAL \<Rightarrow> 0 < eFilledQuantity e \<and> eFilledQuantity e < eQuantity e
   | ORDER_RESULT_ACK_ONLY \<Rightarrow> eFilledQuantity e \<le> 0
   | ORDER_RESULT_UNSPECIFIED \<Rightarrow> eFilledQuantity e = 0
   | ORDER_RESULT_REJECTED \<Rightarrow> eFilledQuantity e = 0 \<and> eOrderId e = '''' \<and> eAckTsNs e = 0 \<and> eLatencyNs e = 0
   | ORDER_RESULT_TIMEOUT \<Rightarrow> eFilledQuantity e = 0 \<and> eOrderId e = '''' \<and> eAckTsNs e = 0 \<and> eLatencyNs e = 0)"

definition event_failed :: "OrderEvent \<Rightarrow> bool" where
  "event_failed e \<longleftrightarrow> eResult e = ORDER_RESULT_REJECTED \<or> eResult e = ORDER_RESULT_TIMEOUT"

definition well_formed_event :: "identity \<Rightarrow> OrderEvent \<Rightarrow> bool" where
  "well_formed_event i e \<longleftrightarrow>
     eContestantId e = idContestant i \<and> eSubmissionId e = idSubmission i \<and> eBotId e = idBot i
     \<and> (\<not> event_failed e \<longrightarrow> eAckTsNs e = wrap64 (eSentTsNs e + eLatencyNs e))
     \<and> (case eType e of
          ORDER_TYPE_CANCEL \<Rightarrow> (eResult e = ORDER_RESULT_ACK_ONLY \<or> event_failed e) \<and> eFilledQuantity e = 0
        | ORDER_TYPE_UNSPECIFIED \<Rightarrow> False
        | _ \<Rightarrow> eSide e \<noteq> ORDER_SIDE_UNSPECIFIED \<and> result_agrees e)"

text \<open>The ids of the limit orders that were acknowledged and of the cancels that were tried, in order.\<close>

definition resting_ids :: "OrderEvent list \<Rightarrow> string list" where
  "resting_ids es = map eOrderId (filter (\<lambda>e. eType e = ORDER_TYPE_LIMIT \<and> \<not> event_failed e) es)"

definition cancelled_ids :: "OrderEvent list \<Rightarrow> string list" where
  "cancelled_ids es = map eOrderId (filter (\<lambda>e. eType e = ORDER_TYPE_CANCEL) es)"

lemma ids_append [simp]:
  "resting_ids (es @ es') = resting_ids es @ resting_ids es'" "cancelled_ids (es @ es') = cancelled_ids es @ cancelled_ids es'"
  by (simp_all add: resting_ids_def cancelled_ids_def)

lemma ids_Nil [simp]: "resting_ids [] = []" "cancelled_ids [] = []"
  by (simp_all add: resting_ids_def cancelled_ids_def)

section \<open>The invariant of the loop\<close>

text \<open>
  The ids waiting to be cancelled are what remains of those acknowledged once the tried ones are taken off
  the front; a worker stopped by a cancel that met the shutdown has dropped the one it had picked.
\<close>

definition worker_inv :: "identity \<Rightarrow> 'c worker \<Rightarrow> bool" where
  "worker_inv i w \<longleftrightarrow> list_all (well_formed_event i) (wkEmitted w)
     \<and> (\<exists>dropped. resting_ids (wkEmitted w) = cancelled_ids (wkEmitted w) @ dropped @ wkLive w \<and> (\<not> wkStopped w \<longrightarrow> dropped = []))"

lemma failed_result [simp]: "event_failed (e\<lparr>eResult := resultForErr err\<rparr>)"
  by (simp add: event_failed_def resultForErr_def)

lemma tagged_fields [simp]:
  "eContestantId (tagged i) = idContestant i" "eSubmissionId (tagged i) = idSubmission i" "eBotId (tagged i) = idBot i"
  "eOrderId (tagged i) = []" "eAckTsNs (tagged i) = 0" "eLatencyNs (tagged i) = 0" "eFilledQuantity (tagged i) = 0"
  by (simp_all add: tagged_def emptyEvent_def)

lemma sideEnum_given [simp]: "sideEnum s \<noteq> ORDER_SIDE_UNSPECIFIED"
  by (simp add: sideEnum_def)

lemma classify_agrees:
  assumes "classify_fill res qty = (result, filled)" "eResult e = result" "eFilledQuantity e = filled" "eQuantity e = qty"
  shows "result_agrees e" "\<not> event_failed e"
  using assms by (auto simp: classify_fill_def result_agrees_def event_failed_def split: if_splits)

lemma cancel_turn_inv:
  assumes "worker_inv i w" "\<not> wkStopped w"
  shows "worker_inv i (cancel_turn cl i cfg a w)"
proof (cases "wkLive w")
  case Nil
  then show ?thesis using assms(1) by (simp add: cancel_turn_def)
next
  case (Cons pick rest)
  have live: "resting_ids (wkEmitted w) = cancelled_ids (wkEmitted w) @ pick # rest"
    using assms Cons by (auto simp: worker_inv_def)
  obtain c' latNs err where call: "clCancelOrder cl (wkClient w) pick = (c', latNs, err)" by (metis prod_cases3)
  have failed: "eResult e = resultForErr x \<Longrightarrow> event_failed e" for e x by (simp add: event_failed_def resultForErr_def)
  show ?thesis
  proof (cases "ShouldCancel cfg (arCancelDraw a)")
    case False
    then show ?thesis using assms(1) by (simp add: cancel_turn_def Cons)
  next
    case True
    show ?thesis
    proof (cases err)
      case None
      then show ?thesis using True assms(1) live
        by (simp add: cancel_turn_def Cons call Let_def emit_def worker_inv_def well_formed_event_def resting_ids_def cancelled_ids_def event_failed_def)
    next
      case (Some x)
      then show ?thesis using True assms(1) live
        by (auto simp: cancel_turn_def Cons call Let_def emit_def worker_inv_def well_formed_event_def resting_ids_def cancelled_ids_def failed)
    qed
  qed
qed

lemma place_turn_inv:
  assumes "worker_inv i w" "\<not> wkStopped w"
  shows "worker_inv i (place_turn cl i cfg a w)"
proof -
  let ?ord = "gen_Next cfg (arDraws a)"
  obtain c' res err where call: "(if goKind ?ord = Market then clPlaceMarketOrder cl (wkClient w) (goSide ?ord) (goQty ?ord)
      else clPlaceOrder cl (wkClient w) (goSide ?ord) (goPrice ?ord) (goQty ?ord)) = (c', res, err)" by (metis prod_cases3)
  obtain result filled where cf: "classify_fill res (goQty ?ord) = (result, filled)" by fastforce
  have live: "resting_ids (wkEmitted w) = cancelled_ids (wkEmitted w) @ wkLive w"
    using assms by (auto simp: worker_inv_def)
  have failed: "eResult e = resultForErr x \<Longrightarrow> event_failed e" for e x by (simp add: event_failed_def resultForErr_def)
  have failed_agrees: "result_agrees e" if "eResult e = resultForErr x" "eFilledQuantity e = 0" "eOrderId e = []" "eAckTsNs e = 0" "eLatencyNs e = 0" for e x
    using that by (auto simp: result_agrees_def resultForErr_def)
  show ?thesis
  proof (cases err)
    case None
    have ok: "result_agrees e" "\<not> event_failed e" if "eResult e = result" "eFilledQuantity e = filled" "eQuantity e = goQty ?ord" for e
      using classify_agrees [OF cf that] by auto
    show ?thesis
    proof (cases "goKind ?ord")
      case Limit
      with call have "clPlaceOrder cl (wkClient w) (goSide ?ord) (goPrice ?ord) (goQty ?ord) = (c', res, None)" by (simp add: None)
      with Limit assms live show ?thesis
        by (simp add: place_turn_def cf Let_def emit_def worker_inv_def well_formed_event_def ok resting_ids_def cancelled_ids_def)
    next
      case Market
      with call have "clPlaceMarketOrder cl (wkClient w) (goSide ?ord) (goQty ?ord) = (c', res, None)" by (simp add: None)
      with Market assms live show ?thesis
        by (simp add: place_turn_def cf Let_def emit_def worker_inv_def well_formed_event_def ok resting_ids_def cancelled_ids_def)
    qed
  next
    case (Some x)
    show ?thesis
    proof (cases "goKind ?ord")
      case Limit
      with call have "clPlaceOrder cl (wkClient w) (goSide ?ord) (goPrice ?ord) (goQty ?ord) = (c', res, Some x)" by (simp add: Some)
      with Limit assms live show ?thesis
        by (auto simp: place_turn_def Let_def emit_def worker_inv_def well_formed_event_def failed failed_agrees resting_ids_def cancelled_ids_def)
    next
      case Market
      with call have "clPlaceMarketOrder cl (wkClient w) (goSide ?ord) (goQty ?ord) = (c', res, Some x)" by (simp add: Some)
      with Market assms live show ?thesis
        by (auto simp: place_turn_def Let_def emit_def worker_inv_def well_formed_event_def failed failed_agrees resting_ids_def cancelled_ids_def)
    qed
  qed
qed

lemma worker_tick_inv: "worker_inv i w \<Longrightarrow> worker_inv i (worker_tick cl i cfg w a)"
  by (simp add: worker_tick_def Let_def cancel_turn_inv place_turn_inv)

lemma runWorker_inv: "worker_inv i (runWorker cl i cfg c as)"
proof -
  have "worker_inv i (foldl (worker_tick cl i cfg) w as)" if "worker_inv i w" for w
    using that by (induction as arbitrary: w) (simp_all add: worker_tick_inv)
  then show ?thesis by (simp add: runWorker_def worker_inv_def)
qed

section \<open>Properties\<close>

text \<open>C28: Whatever client a bot drives and whatever the contestant answers, every event it reports is tagged with its
  contestant, submission and bot, has a result that agrees with its fill, and carries the acknowledgement time its
  latency gives; and the cancels it reports name the acknowledged limit orders in the order of their
  acknowledgement, each once.\<close>

theorem reported_events_are_well_formed:
  "list_all (well_formed_event i) (wkEmitted (runWorker cl i cfg c as))
   \<and> (\<exists>left. resting_ids (wkEmitted (runWorker cl i cfg c as)) = cancelled_ids (wkEmitted (runWorker cl i cfg c as)) @ left)"
  using runWorker_inv [of i cl cfg c as] by (auto simp: worker_inv_def)

section \<open>The WebSocket client\<close>

record wsReq =
  wqAction :: string
  wqSide :: string
  wqKind :: string
  wqPrice :: f64
  wqQty :: int64
  wqID :: string

text \<open>\<open>strings.Replace\<close> of the first occurrence of a text that is not empty, and the address a WebSocket is dialled at.\<close>

fun replace_first :: "string \<Rightarrow> string \<Rightarrow> string \<Rightarrow> string" where
  "replace_first [] old new = []"
| "replace_first (c # s) old new = (if take (length old) (c # s) = old then new @ drop (length old) (c # s)
     else c # replace_first s old new)"

definition ws_url :: "string \<Rightarrow> string" where
  "ws_url rawURL = replace_first (replace_first rawURL ''https://'' ''wss://'') ''http://'' ''ws://''"

text \<open>\<open>dial\<close> opens a connection; \<open>send\<close> is one exchange on it with the latency it took. A price that is not
  finite does not marshal, and nothing is sent.\<close>

definition DialWS :: "(string \<Rightarrow> go_error + 'c) \<Rightarrow> string \<Rightarrow> go_error + 'c" where
  "DialWS dial rawURL = dial (ws_url rawURL)"

definition ws_exchange :: "('c \<Rightarrow> wsReq \<Rightarrow> 'c \<times> (go_error + wsResp option) \<times> int64) \<Rightarrow> 'c \<Rightarrow> wsReq \<Rightarrow> 'c \<times> (go_error + wsResp option) \<times> int64" where
  "ws_exchange send c req = (if \<not> finite_f64 (wqPrice req) then (c, Inl plain_error, 0) else send c req)"

definition WS_PlaceOrder :: "('c \<Rightarrow> wsReq \<Rightarrow> 'c \<times> (go_error + wsResp option) \<times> int64) \<Rightarrow> 'c \<Rightarrow> string \<Rightarrow> f64 \<Rightarrow> int64 \<Rightarrow> 'c \<times> PlaceResult \<times> go_error option" where
  "WS_PlaceOrder send c side price qty =
     (case ws_exchange send c \<lparr>wqAction = ''place'', wqSide = side, wqKind = ''limit'', wqPrice = price, wqQty = qty, wqID = ''''\<rparr> of
        (c', raw, latNs) \<Rightarrow> (c', WS_place raw latNs))"

definition WS_PlaceMarketOrder :: "('c \<Rightarrow> wsReq \<Rightarrow> 'c \<times> (go_error + wsResp option) \<times> int64) \<Rightarrow> 'c \<Rightarrow> string \<Rightarrow> int64 \<Rightarrow> 'c \<times> PlaceResult \<times> go_error option" where
  "WS_PlaceMarketOrder send c side qty =
     (case ws_exchange send c \<lparr>wqAction = ''place'', wqSide = side, wqKind = ''market'', wqPrice = Fin 0, wqQty = qty, wqID = ''''\<rparr> of
        (c', raw, latNs) \<Rightarrow> (c', WS_place raw latNs))"

definition WS_CancelOrder :: "('c \<Rightarrow> wsReq \<Rightarrow> 'c \<times> (go_error + wsResp option) \<times> int64) \<Rightarrow> 'c \<Rightarrow> string \<Rightarrow> 'c \<times> int64 \<times> go_error option" where
  "WS_CancelOrder send c i =
     (case ws_exchange send c \<lparr>wqAction = ''cancel'', wqSide = '''', wqKind = '''', wqPrice = Fin 0, wqQty = 0, wqID = i\<rparr> of
        (c', raw, latNs) \<Rightarrow> (c', latNs, case ws_roundTrip raw of Inl e \<Rightarrow> Some e | Inr resp \<Rightarrow> None))"

definition ws_client :: "('c \<Rightarrow> wsReq \<Rightarrow> 'c \<times> (go_error + wsResp option) \<times> int64) \<Rightarrow> 'c OrderClient" where
  "ws_client send = \<lparr>clPlaceOrder = WS_PlaceOrder send, clPlaceMarketOrder = WS_PlaceMarketOrder send, clCancelOrder = WS_CancelOrder send\<rparr>"

text \<open>A contestant that reports no fill over WebSocket is scored on no order: its placements are unspecified.\<close>

lemma no_reported_fill_is_unspecified:
  assumes "ws_roundTrip raw = Inr resp" "wsFilled resp = None"
  shows "snd (WS_place raw latNs) = None \<and> classify_fill (fst (WS_place raw latNs)) qty = (ORDER_RESULT_UNSPECIFIED, 0)"
  using assms by (simp add: WS_place_def classify_fill_def noResult_def)

lemma ws_url_examples:
  "ws_url ''http://host:8082/ws'' = ''ws://host:8082/ws''" "ws_url ''https://host/ws'' = ''wss://host/ws''"
  "ws_url ''ws://host/ws'' = ''ws://host/ws''"
  by code_simp+

end
