(* ===== verification/FixClient.thy ===== *)
theory FixClient
  imports BotWorker GoChan
begin

text \<open>
  The FIX 4.4 order client, \<open>bot-worker/internal/client/fix.go\<close>: one session shared by all workers, where each
  call registers a channel under a fresh id, sends its message and waits, and inbound execution reports are routed to the
  channel of the id they name. Channels are cells of a heap, so that a pending entry and the call that
  waits share one. The lemmas show, for every interleaving, that routing a report never blocks the session
  and that a call returns only what a report for its own id said.
\<close>

section \<open>Messages\<close>

record fixResult =
  frOrderID :: string
  frCumQty :: int64
  frFillKnown :: bool

text \<open>What is read of an inbound message; a field is \<open>None\<close> when it is absent or does not parse.\<close>

record fix_report =
  rpMsgType :: "string option"
  rpClOrdID :: "string option"
  rpOrderID :: "string option"
  rpCumQty :: "int option"

text \<open>An outbound message: the type in the header and the fields of the body by tag.\<close>

type_synonym fix_msg = "string \<times> (nat \<times> string) list"

abbreviation tagClOrdID :: nat where "tagClOrdID \<equiv> 11"
abbreviation tagOrigClOrdID :: nat where "tagOrigClOrdID \<equiv> 41"
abbreviation tagSymbol :: nat where "tagSymbol \<equiv> 55"
abbreviation tagSide :: nat where "tagSide \<equiv> 54"
abbreviation tagOrdType :: nat where "tagOrdType \<equiv> 40"
abbreviation tagPrice :: nat where "tagPrice \<equiv> 44"
abbreviation tagOrderQty :: nat where "tagOrderQty \<equiv> 38"
abbreviation tagTransactTime :: nat where "tagTransactTime \<equiv> 60"

definition fix_side :: "string \<Rightarrow> string" where
  "fix_side side = (if side = ''sell'' then ''2'' else ''1'')"

text \<open>A price is its text in the format \<open>%.2f\<close>; \<open>None\<close> is a market order.\<close>

definition new_order_msg :: "string \<Rightarrow> string \<Rightarrow> string \<Rightarrow> string option \<Rightarrow> int64 \<Rightarrow> string \<Rightarrow> fix_msg" where
  "new_order_msg clOrdID symbol fixSide price qty now =
     (''D'', [(tagClOrdID, clOrdID), (tagSymbol, symbol), (tagSide, fixSide),
              (tagOrdType, if price = None then ''1'' else ''2'')]
        @ (case price of None \<Rightarrow> [] | Some p \<Rightarrow> [(tagPrice, p)])
        @ [(tagOrderQty, show_int qty), (tagTransactTime, now)])"

definition buildCancel :: "string \<Rightarrow> string \<Rightarrow> string \<Rightarrow> string \<Rightarrow> string \<Rightarrow> fix_msg" where
  "buildCancel clOrdID origClOrdID side symbol now =
     (''F'', [(tagClOrdID, clOrdID), (tagOrigClOrdID, origClOrdID), (tagSymbol, symbol), (tagSide, side), (tagTransactTime, now)])"

section \<open>The client\<close>

record FIXConfig =
  fgTargetHost :: string
  fgTargetPort :: int
  fgSenderCompID :: string
  fgTargetCompID :: string
  fgSymbol :: string

definition fix_applyDefaults :: "FIXConfig \<Rightarrow> FIXConfig" where
  "fix_applyDefaults c =
     c\<lparr>fgSenderCompID := (if fgSenderCompID c = '''' then ''BOTWORKER'' else fgSenderCompID c),
       fgTargetCompID := (if fgTargetCompID c = '''' then ''EXCHANGE'' else fgTargetCompID c),
       fgSymbol := (if fgSymbol c = '''' then ''BTCUSD'' else fgSymbol c),
       fgTargetPort := (if fgTargetPort c = 0 then 5001 else fgTargetPort c)\<rparr>"

text \<open>The pending entries and channels of the application and the client's own fields, in one record; \<open>fcChans\<close> is the heap.\<close>

record FIXClient =
  fcSymbol :: string
  fcSeq :: "64 word"
  fcSides :: "string \<rightharpoonup> string"
  fcSession :: string
  fcReady :: bool
  fcPending :: "string \<rightharpoonup> nat"
  fcChans :: "fixResult chan list"

text \<open>The initiator is a parameter: \<open>init_ok\<close> says whether the settings parse and it is created.\<close>

definition NewFIX :: "(FIXConfig \<Rightarrow> bool) \<Rightarrow> FIXConfig \<Rightarrow> FIXClient option" where
  "NewFIX init_ok cfg = (let cfg = fix_applyDefaults cfg in
     if init_ok cfg then Some \<lparr>fcSymbol = fgSymbol cfg, fcSeq = 0, fcSides = Map.empty, fcSession = '''', fcReady = False,
       fcPending = Map.empty, fcChans = []\<rparr> else None)"

text \<open>\<open>readyOnce\<close> makes the second logon leave the closed channel alone.\<close>

definition OnLogon :: "string \<Rightarrow> FIXClient \<Rightarrow> FIXClient" where
  "OnLogon sessionID c = c\<lparr>fcSession := sessionID, fcReady := True\<rparr>"

definition fix_register :: "string \<Rightarrow> FIXClient \<Rightarrow> nat \<times> FIXClient" where
  "fix_register clOrdID c = (length (fcChans c),
     c\<lparr>fcChans := fcChans c @ [make_chan 1], fcPending := (fcPending c)(clOrdID \<mapsto> length (fcChans c))\<rparr>)"

definition fix_unregister :: "string \<Rightarrow> FIXClient \<Rightarrow> FIXClient" where
  "fix_unregister clOrdID c = c\<lparr>fcPending := (fcPending c)(clOrdID := None)\<rparr>"

text \<open>\<open>FromApp\<close> up to its unlock: the channel a report goes to and what is sent there.\<close>

definition report_result :: "fix_report \<Rightarrow> (string \<times> fixResult) option" where
  "report_result rep =
     (if rpMsgType rep \<noteq> Some ''8'' then None
      else case rpClOrdID rep of None \<Rightarrow> None
        | Some i \<Rightarrow> Some (i, \<lparr>frOrderID = (case rpOrderID rep of None \<Rightarrow> '''' | Some x \<Rightarrow> x),
            frCumQty = (case rpCumQty rep of None \<Rightarrow> 0 | Some n \<Rightarrow> n), frFillKnown = (rpCumQty rep \<noteq> None)\<rparr>))"

definition fix_route :: "fix_report \<Rightarrow> FIXClient \<Rightarrow> (nat \<times> fixResult) option \<times> FIXClient" where
  "fix_route rep c = (case report_result rep of None \<Rightarrow> (None, c)
     | Some (i, r) \<Rightarrow> (case fcPending c i of None \<Rightarrow> (None, c) | Some h \<Rightarrow> (Some (h, r), fix_unregister i c)))"

text \<open>The send into a channel; \<open>None\<close> when it blocks or panics.\<close>

definition fix_deliver :: "nat \<times> fixResult \<Rightarrow> FIXClient \<Rightarrow> FIXClient option" where
  "fix_deliver hr c = (case try_send (fcChans c ! fst hr) (snd hr) of
     Sent ch \<Rightarrow> Some (c\<lparr>fcChans := (fcChans c)[fst hr := ch]\<rparr>) | _ \<Rightarrow> None)"

definition FromApp :: "fix_report \<Rightarrow> FIXClient \<Rightarrow> FIXClient option" where
  "FromApp rep c = (case fix_route rep c of (None, c') \<Rightarrow> Some c' | (Some hr, c') \<Rightarrow> fix_deliver hr c')"

definition fix_take :: "nat \<Rightarrow> FIXClient \<Rightarrow> (fixResult \<times> FIXClient) option" where
  "fix_take h c = (case chan_recv (fcChans c ! h) of
     Received r ch \<Rightarrow> Some (r, c\<lparr>fcChans := (fcChans c)[h := ch]\<rparr>) | _ \<Rightarrow> None)"

section \<open>Placing and cancelling\<close>

text \<open>A call up to its send: the id, the channel it waits on and the message.\<close>

definition place_begin :: "string \<Rightarrow> string option \<Rightarrow> int64 \<Rightarrow> string \<Rightarrow> FIXClient \<Rightarrow> string \<times> nat \<times> fix_msg \<times> FIXClient" where
  "place_begin side price qty now c =
     (let n = fcSeq c + 1; clOrdID = ''bot-'' @ show_nat (unat n);
          (h, c') = fix_register clOrdID (c\<lparr>fcSeq := n\<rparr>)
      in (clOrdID, h, new_order_msg clOrdID (fcSymbol c) (fix_side side) price qty now, c'))"

definition cancel_begin :: "string \<Rightarrow> string \<Rightarrow> FIXClient \<Rightarrow> string \<times> nat \<times> fix_msg \<times> FIXClient" where
  "cancel_begin origClOrdID now c =
     (let n = fcSeq c + 1; clOrdID = ''cxl-'' @ show_nat (unat n);
          side = (case fcSides c origClOrdID of None \<Rightarrow> ''1'' | Some s \<Rightarrow> if s = '''' then ''1'' else s);
          (h, c') = fix_register clOrdID (c\<lparr>fcSeq := n, fcSides := (fcSides c)(origClOrdID := None)\<rparr>)
      in (clOrdID, h, buildCancel clOrdID origClOrdID side (fcSymbol c) now, c'))"

text \<open>
  How a call ends: the send fails, a report arrived, the context ended, or five seconds passed. A wrapped
  error is classified as the error it wraps; the one for the five seconds wraps none.
\<close>

datatype fix_outcome = SendFails go_error | GotReport | CtxDone go_error | After5s

definition fix_failure :: "fix_outcome \<Rightarrow> go_error option" where
  "fix_failure out = (case out of SendFails e \<Rightarrow> Some e | GotReport \<Rightarrow> None | CtxDone e \<Rightarrow> Some e | After5s \<Rightarrow> Some plain_error)"

text \<open>
  A whole call: \<open>others\<close> is what the rest of the system does to the client while the call waits. The result
  is \<open>None\<close> when the call still waits.
\<close>

definition sendNewOrder :: "(FIXClient \<Rightarrow> FIXClient) \<Rightarrow> fix_outcome \<Rightarrow> int64 \<Rightarrow> string \<Rightarrow> string \<Rightarrow> string option \<Rightarrow> int64 \<Rightarrow> FIXClient \<Rightarrow> (FIXClient \<times> PlaceResult \<times> go_error option) option" where
  "sendNewOrder others out latNs now side price qty c = (case place_begin side price qty now c of
     (clOrdID, h, msg, c1) \<Rightarrow> let c2 = others c1 in
       (case fix_failure out of
          Some e \<Rightarrow> Some (fix_unregister clOrdID c2, noResult, Some e)
        | None \<Rightarrow> (case fix_take h c2 of None \<Rightarrow> None
            | Some (r, c3) \<Rightarrow> Some (c3\<lparr>fcSides := (fcSides c3)(clOrdID \<mapsto> fix_side side)\<rparr>,
                \<lparr>plID = clOrdID, plFilled = frCumQty r, plFillKnown = frFillKnown r, plLatencyNs = latNs\<rparr>, None))))"

definition FIX_PlaceOrder :: "(f64 \<Rightarrow> string) \<Rightarrow> (FIXClient \<Rightarrow> FIXClient) \<Rightarrow> fix_outcome \<Rightarrow> int64 \<Rightarrow> string \<Rightarrow> string \<Rightarrow> f64 \<Rightarrow> int64 \<Rightarrow> FIXClient \<Rightarrow> (FIXClient \<times> PlaceResult \<times> go_error option) option" where
  "FIX_PlaceOrder show_price others out latNs now side price qty c = sendNewOrder others out latNs now side (Some (show_price price)) qty c"

definition FIX_PlaceMarketOrder :: "(FIXClient \<Rightarrow> FIXClient) \<Rightarrow> fix_outcome \<Rightarrow> int64 \<Rightarrow> string \<Rightarrow> string \<Rightarrow> int64 \<Rightarrow> FIXClient \<Rightarrow> (FIXClient \<times> PlaceResult \<times> go_error option) option" where
  "FIX_PlaceMarketOrder others out latNs now side qty c = sendNewOrder others out latNs now side None qty c"

definition FIX_CancelOrder :: "(FIXClient \<Rightarrow> FIXClient) \<Rightarrow> fix_outcome \<Rightarrow> int64 \<Rightarrow> string \<Rightarrow> string \<Rightarrow> FIXClient \<Rightarrow> (FIXClient \<times> int64 \<times> go_error option) option" where
  "FIX_CancelOrder others out latNs now origClOrdID c = (case cancel_begin origClOrdID now c of
     (clOrdID, h, msg, c1) \<Rightarrow> let c2 = others c1 in
       (case fix_failure out of
          Some e \<Rightarrow> Some (fix_unregister clOrdID c2, 0, Some e)
        | None \<Rightarrow> (case fix_take h c2 of None \<Rightarrow> None | Some (r, c3) \<Rightarrow> Some (c3, latNs, None))))"

section \<open>Interleavings\<close>

text \<open>
  The calls of all workers, the routed reports not yet delivered, and the reports that arrived. The \<open>n\<close>-th
  call waits on the \<open>n\<close>-th channel.
\<close>

datatype call_state = Waiting | Returned fixResult | Failed

record fix_call =
  fkId :: string
  fkSide :: "string option"
  fkState :: call_state

record fix_sys =
  fsClient :: FIXClient
  fsCalls :: "fix_call list"
  fsFlight :: "(nat \<times> fixResult) list"
  fsHist :: "fix_report list"

inductive fix_step :: "fix_sys \<Rightarrow> fix_sys \<Rightarrow> bool" where
  logon: "fix_step s (s\<lparr>fsClient := OnLogon sid (fsClient s)\<rparr>)"
| place: "place_begin side price qty now (fsClient s) = (i, h, msg, c') \<Longrightarrow>
    fix_step s (s\<lparr>fsClient := c', fsCalls := fsCalls s @ [\<lparr>fkId = i, fkSide = Some (fix_side side), fkState = Waiting\<rparr>]\<rparr>)"
| cancel: "cancel_begin orig now (fsClient s) = (i, h, msg, c') \<Longrightarrow>
    fix_step s (s\<lparr>fsClient := c', fsCalls := fsCalls s @ [\<lparr>fkId = i, fkSide = None, fkState = Waiting\<rparr>]\<rparr>)"
| route: "fix_route rep (fsClient s) = (hr, c') \<Longrightarrow>
    fix_step s (s\<lparr>fsClient := c', fsFlight := fsFlight s @ (case hr of None \<Rightarrow> [] | Some x \<Rightarrow> [x]), fsHist := fsHist s @ [rep]\<rparr>)"
| deliver: "fsFlight s = pre @ hr # post \<Longrightarrow> fix_deliver hr (fsClient s) = Some c' \<Longrightarrow>
    fix_step s (s\<lparr>fsClient := c', fsFlight := pre @ post\<rparr>)"
| return: "h < length (fsCalls s) \<Longrightarrow> fkState (fsCalls s ! h) = Waiting \<Longrightarrow> fix_take h (fsClient s) = Some (r, c') \<Longrightarrow>
    fix_step s (s\<lparr>fsClient := (case fkSide (fsCalls s ! h) of None \<Rightarrow> c' | Some d \<Rightarrow> c'\<lparr>fcSides := (fcSides c')(fkId (fsCalls s ! h) \<mapsto> d)\<rparr>),
        fsCalls := (fsCalls s)[h := (fsCalls s ! h)\<lparr>fkState := Returned r\<rparr>]\<rparr>)"
| fail: "h < length (fsCalls s) \<Longrightarrow> fkState (fsCalls s ! h) = Waiting \<Longrightarrow>
    fix_step s (s\<lparr>fsClient := fix_unregister (fkId (fsCalls s ! h)) (fsClient s),
        fsCalls := (fsCalls s)[h := (fsCalls s ! h)\<lparr>fkState := Failed\<rparr>]\<rparr>)"

definition fix_start :: "FIXClient \<Rightarrow> fix_sys" where
  "fix_start c = \<lparr>fsClient = c, fsCalls = [], fsFlight = [], fsHist = []\<rparr>"

inductive fix_reach :: "FIXClient \<Rightarrow> fix_sys \<Rightarrow> bool" for c0 where
  start: "fix_reach c0 (fix_start c0)"
| step: "fix_reach c0 s \<Longrightarrow> fix_step s s' \<Longrightarrow> fix_reach c0 s'"

section \<open>The routing invariant\<close>

definition reported :: "fix_report list \<Rightarrow> string \<Rightarrow> fixResult \<Rightarrow> bool" where
  "reported hist i r \<longleftrightarrow> (\<exists>rep \<in> set hist. report_result rep = Some (i, r))"

text \<open>
  Every call has a channel of one place. A pending channel is empty and not about to be delivered to,
  it belongs to the call with that id, and what a channel holds, is sent or was returned came from a report for that id.
\<close>

definition fix_inv :: "fix_sys \<Rightarrow> bool" where
  "fix_inv s \<longleftrightarrow>
     (let c = fsClient s; calls = fsCalls s; chans = fcChans c in
      length calls = length chans
    \<and> (\<forall>h < length chans. chCap (chans ! h) = 1 \<and> \<not> chClosed (chans ! h)
         \<and> (\<forall>r \<in> set (chBuf (chans ! h)). reported (fsHist s) (fkId (calls ! h)) r)
         \<and> (\<forall>r. fkState (calls ! h) = Returned r \<longrightarrow> reported (fsHist s) (fkId (calls ! h)) r))
    \<and> (\<forall>i h. fcPending c i = Some h \<longrightarrow> h < length chans \<and> fkId (calls ! h) = i \<and> chBuf (chans ! h) = [] \<and> h \<notin> fst ` set (fsFlight s))
    \<and> (\<forall>h r. (h, r) \<in> set (fsFlight s) \<longrightarrow> h < length chans \<and> chBuf (chans ! h) = [] \<and> reported (fsHist s) (fkId (calls ! h)) r)
    \<and> distinct (map fst (fsFlight s)))"

lemma fix_inv_pending:
  "fix_inv s \<Longrightarrow> fcPending (fsClient s) i = Some h \<Longrightarrow>
     h < length (fcChans (fsClient s)) \<and> fkId (fsCalls s ! h) = i \<and> chBuf (fcChans (fsClient s) ! h) = [] \<and> h \<notin> fst ` set (fsFlight s)"
  by (simp add: fix_inv_def Let_def)

lemma fix_inv_flight:
  "fix_inv s \<Longrightarrow> (h, r) \<in> set (fsFlight s) \<Longrightarrow>
     h < length (fcChans (fsClient s)) \<and> chBuf (fcChans (fsClient s) ! h) = [] \<and> reported (fsHist s) (fkId (fsCalls s ! h)) r"
  by (simp add: fix_inv_def Let_def)

lemma fix_inv_chan:
  "fix_inv s \<Longrightarrow> h < length (fcChans (fsClient s)) \<Longrightarrow>
     chCap (fcChans (fsClient s) ! h) = 1 \<and> \<not> chClosed (fcChans (fsClient s) ! h)
     \<and> (\<forall>r \<in> set (chBuf (fcChans (fsClient s) ! h)). reported (fsHist s) (fkId (fsCalls s ! h)) r)
     \<and> (\<forall>r. fkState (fsCalls s ! h) = Returned r \<longrightarrow> reported (fsHist s) (fkId (fsCalls s ! h)) r)"
  by (simp add: fix_inv_def Let_def)

lemma fix_inv_shape: "fix_inv s \<Longrightarrow> length (fsCalls s) = length (fcChans (fsClient s)) \<and> distinct (map fst (fsFlight s))"
  by (simp add: fix_inv_def Let_def)

lemma fix_invI:
  assumes "length (fsCalls s) = length (fcChans (fsClient s))" "distinct (map fst (fsFlight s))"
    and "\<And>h. h < length (fcChans (fsClient s)) \<Longrightarrow> chCap (fcChans (fsClient s) ! h) = 1 \<and> \<not> chClosed (fcChans (fsClient s) ! h)
       \<and> (\<forall>r \<in> set (chBuf (fcChans (fsClient s) ! h)). reported (fsHist s) (fkId (fsCalls s ! h)) r)
       \<and> (\<forall>r. fkState (fsCalls s ! h) = Returned r \<longrightarrow> reported (fsHist s) (fkId (fsCalls s ! h)) r)"
    and "\<And>i h. fcPending (fsClient s) i = Some h \<Longrightarrow>
       h < length (fcChans (fsClient s)) \<and> fkId (fsCalls s ! h) = i \<and> chBuf (fcChans (fsClient s) ! h) = [] \<and> h \<notin> fst ` set (fsFlight s)"
    and "\<And>h r. (h, r) \<in> set (fsFlight s) \<Longrightarrow>
       h < length (fcChans (fsClient s)) \<and> chBuf (fcChans (fsClient s) ! h) = [] \<and> reported (fsHist s) (fkId (fsCalls s ! h)) r"
  shows "fix_inv s"
  using assms unfolding fix_inv_def Let_def by blast

lemma fix_inv_start: "NewFIX init_ok cfg = Some c0 \<Longrightarrow> fix_inv (fix_start c0)"
  by (auto simp: NewFIX_def fix_start_def fix_inv_def Let_def split: if_splits)

lemma reported_append [simp]: "reported hist i r \<Longrightarrow> reported (hist @ [rep]) i r"
  by (auto simp: reported_def)

lemma fix_inv_call:
  assumes "fix_inv s" "fcChans c' = fcChans (fsClient s) @ [make_chan 1]"
    and "fcPending c' = (fcPending (fsClient s))(i \<mapsto> length (fcChans (fsClient s)))"
  shows "fix_inv (s\<lparr>fsClient := c', fsCalls := fsCalls s @ [\<lparr>fkId = i, fkSide = d, fkState = Waiting\<rparr>]\<rparr>)"
  using assms by (fastforce simp: fix_inv_def Let_def nth_append make_chan_def less_Suc_eq)

lemma fix_inv_route:
  assumes "fix_inv s" "fix_route rep (fsClient s) = (hr, c')"
  shows "fix_inv (s\<lparr>fsClient := c', fsFlight := fsFlight s @ (case hr of None \<Rightarrow> [] | Some x \<Rightarrow> [x]), fsHist := fsHist s @ [rep]\<rparr>)"
proof (cases hr)
  case None
  then have "c' = fsClient s" using assms(2) by (auto simp: fix_route_def split: option.splits prod.splits)
  with None assms(1) show ?thesis by (auto simp: fix_inv_def Let_def)
next
  case (Some x)
  then obtain i h r where r: "report_result rep = Some (i, r)" "fcPending (fsClient s) i = Some h" "x = (h, r)" "c' = fix_unregister i (fsClient s)"
    using assms(2) by (auto simp: fix_route_def split: option.splits prod.splits)
  have new1: "reported (fsHist s @ [rep]) i r" using r(1) by (auto simp: reported_def)
  have new2: "i' = i" if "fcPending (fsClient s) i' = Some h" for i' using fix_inv_pending [OF assms(1) that] fix_inv_pending [OF assms(1) r(2)] by simp
  note own = fix_inv_pending [OF assms(1) r(2)]
  show ?thesis
  proof (rule fix_invI, goal_cases)
    case 1 then show ?case using fix_inv_shape [OF assms(1)] by (simp add: r fix_unregister_def)
  next
    case 2 then show ?case using fix_inv_shape [OF assms(1)] own by (simp add: Some r)
  next
    case (3 k) then show ?case using fix_inv_chan [OF assms(1), of k] by (simp add: r fix_unregister_def)
  next
    case (4 j k)
    then have "fcPending (fsClient s) j = Some k" "j \<noteq> i" by (auto simp: r fix_unregister_def split: if_splits)
    then show ?case using fix_inv_pending [OF assms(1), of j k] new2 by (auto simp: Some r fix_unregister_def)
  next
    case (5 k x) then show ?case using fix_inv_flight [OF assms(1), of k x] new1 own by (auto simp: Some r fix_unregister_def)
  qed
qed

lemma fix_deliver_eq:
  assumes "fix_inv s" "hr \<in> set (fsFlight s)"
  shows "fix_deliver hr (fsClient s) = Some ((fsClient s)\<lparr>fcChans := (fcChans (fsClient s))[fst hr :=
     (fcChans (fsClient s) ! fst hr)\<lparr>chBuf := [snd hr]\<rparr>]\<rparr>)"
  using assms by (cases hr) (auto simp: fix_inv_def Let_def fix_deliver_def try_send_def)

lemma fix_inv_deliver:
  assumes "fix_inv s" "fsFlight s = pre @ hr # post" "fix_deliver hr (fsClient s) = Some c'"
  shows "fix_inv (s\<lparr>fsClient := c', fsFlight := pre @ post\<rparr>)"
proof -
  have c': "c' = (fsClient s)\<lparr>fcChans := (fcChans (fsClient s))[fst hr := (fcChans (fsClient s) ! fst hr)\<lparr>chBuf := [snd hr]\<rparr>]\<rparr>"
    using fix_deliver_eq [OF assms(1)] assms(2,3) by auto
  have d: "fst hr \<notin> fst ` set (pre @ post)" using assms(1,2) by (auto simp: fix_inv_def Let_def)
  obtain h r where hr: "hr = (h, r)" by (cases hr)
  note fl = fix_inv_flight [OF assms(1), of h r] fix_inv_shape [OF assms(1)]
  have len: "length (fcChans c') = length (fcChans (fsClient s))" by (simp add: c')
  show ?thesis
  proof (rule fix_invI, goal_cases)
    case 1 then show ?case using fl by (simp add: len)
  next
    case 2 then show ?case using fl assms(2) by simp
  next
    case (3 k) then show ?case using fix_inv_chan [OF assms(1), of k] fl assms(2) by (auto simp: c' hr nth_list_update)
  next
    case (4 i k)
    then have "fcPending (fsClient s) i = Some k" by (simp add: c')
    from fix_inv_pending [OF assms(1) this] show ?case using assms(2) by (auto simp: c' hr)
  next
    case (5 k x)
    then have "k \<noteq> h" using d by (force simp: hr)
    with 5 fix_inv_flight [OF assms(1), of k x] assms(2) show ?case by (auto simp: c' hr)
  qed
qed

lemma fix_inv_return:
  assumes "fix_inv s" "h < length (fsCalls s)" "fix_take h (fsClient s) = Some (r, c')" "fcChans c'' = fcChans c'" "fcPending c'' = fcPending c'"
  shows "fix_inv (s\<lparr>fsClient := c'', fsCalls := (fsCalls s)[h := (fsCalls s ! h)\<lparr>fkState := Returned r\<rparr>]\<rparr>)"
proof -
  obtain rs where b: "chBuf (fcChans (fsClient s) ! h) = r # rs"
    "c' = (fsClient s)\<lparr>fcChans := (fcChans (fsClient s))[h := (fcChans (fsClient s) ! h)\<lparr>chBuf := rs\<rparr>]\<rparr>"
    using assms(3) by (auto simp: fix_take_def chan_recv_def split: list.splits recv_result.splits if_splits)
  show ?thesis using assms(1,2) b assms(4,5)
    by (fastforce simp: fix_inv_def Let_def nth_list_update split: if_splits)
qed

lemma fix_inv_fail:
  assumes "fix_inv s" "h < length (fsCalls s)"
  shows "fix_inv (s\<lparr>fsClient := fix_unregister i (fsClient s), fsCalls := (fsCalls s)[h := (fsCalls s ! h)\<lparr>fkState := Failed\<rparr>]\<rparr>)"
  using assms by (fastforce simp: fix_inv_def Let_def fix_unregister_def nth_list_update split: if_splits)

lemma fix_inv_step: "fix_step s s' \<Longrightarrow> fix_inv s \<Longrightarrow> fix_inv s'"
proof (induction rule: fix_step.induct)
  case (logon s sid)
  then show ?case by (intro fix_invI) (use fix_inv_shape [of s] fix_inv_chan [of s] fix_inv_pending [of s] fix_inv_flight [of s] in \<open>auto simp: OnLogon_def\<close>)
next
  case (place side price qty now s i h msg c')
  then show ?case by (intro fix_inv_call) (auto simp: place_begin_def fix_register_def Let_def)
next
  case (cancel orig now s i h msg c')
  then show ?case by (intro fix_inv_call) (auto simp: cancel_begin_def fix_register_def Let_def)
next
  case (route rep s hr c')
  then show ?case by (intro fix_inv_route)
next
  case (deliver s pre hr post c')
  then show ?case by (intro fix_inv_deliver)
next
  case (return h s r c')
  then show ?case by (intro fix_inv_return [where r = r and c' = c']) (auto split: option.splits)
next
  case (fail h s)
  then show ?case by (intro fix_inv_fail)
qed

lemma fix_inv_reach: "fix_reach c0 s \<Longrightarrow> NewFIX init_ok cfg = Some c0 \<Longrightarrow> fix_inv s"
  by (induction rule: fix_reach.induct) (auto intro: fix_inv_start fix_inv_step)

lemma FromApp_pending:
  assumes "fix_inv s" "fcPending (fsClient s) i = Some h" "report_result rep = Some (i, r)"
  shows "\<exists>c' c''. FromApp rep (fsClient s) = Some c' \<and> fix_take h c' = Some (r, c'') \<and> fcPending c' i = None"
proof -
  note p = fix_inv_pending [OF assms(1,2)]
  note c = fix_inv_chan [OF assms(1) p [THEN conjunct1]]
  let ?ch = "(fcChans (fsClient s) ! h)\<lparr>chBuf := [r]\<rparr>"
  have "FromApp rep (fsClient s) = Some ((fix_unregister i (fsClient s))\<lparr>fcChans := (fcChans (fsClient s))[h := ?ch]\<rparr>)"
    using assms(2,3) p c by (simp add: FromApp_def fix_route_def fix_deliver_def try_send_def fix_unregister_def)
  then show ?thesis using p by (simp add: fix_take_def chan_recv_def fix_unregister_def)
qed

lemma FromApp_other:
  assumes "\<forall>i r. report_result rep = Some (i, r) \<longrightarrow> fcPending c i = None"
  shows "FromApp rep c = Some c"
  using assms by (auto simp: FromApp_def fix_route_def split: option.splits prod.splits)

section \<open>Properties\<close>

text \<open>C21: Under every interleaving of calls, reports and timeouts the session is never blocked by a report:
  every routed report can be delivered and every arriving one can be taken. A report for the id of a waiting
  call makes that call return it, and a call returns only what a report for its own id said.\<close>

theorem fix_reports_never_block_and_reach_their_call:
  assumes "NewFIX init_ok cfg = Some c0" "fix_reach c0 s"
  shows "(\<forall>hr \<in> set (fsFlight s). fix_deliver hr (fsClient s) \<noteq> None)
     \<and> (\<forall>rep. FromApp rep (fsClient s) \<noteq> None)
     \<and> (\<forall>i h rep r. fcPending (fsClient s) i = Some h \<longrightarrow> report_result rep = Some (i, r) \<longrightarrow>
          fkId (fsCalls s ! h) = i \<and> (\<exists>c' c''. FromApp rep (fsClient s) = Some c' \<and> fix_take h c' = Some (r, c'')))
     \<and> (\<forall>call \<in> set (fsCalls s). \<forall>r. fkState call = Returned r \<longrightarrow> (\<exists>rep \<in> set (fsHist s). report_result rep = Some (fkId call, r)))"
proof -
  have inv: "fix_inv s" using fix_inv_reach [OF assms(2,1)] .
  have "FromApp rep (fsClient s) \<noteq> None" for rep
  proof (cases "\<forall>i r. report_result rep = Some (i, r) \<longrightarrow> fcPending (fsClient s) i = None")
    case True
    then show ?thesis by (simp add: FromApp_other)
  next
    case False
    then obtain i r h where "report_result rep = Some (i, r)" "fcPending (fsClient s) i = Some h" by auto
    with FromApp_pending [OF inv, of i h rep r] show ?thesis by auto
  qed
  moreover have "reported (fsHist s) (fkId call) r" if "call \<in> set (fsCalls s)" "fkState call = Returned r" for call r
    using that fix_inv_chan [OF inv] fix_inv_shape [OF inv] by (metis in_set_conv_nth)
  ultimately show ?thesis
    using fix_deliver_eq [OF inv] FromApp_pending [OF inv] fix_inv_pending [OF inv] by (fastforce simp: reported_def)
qed

definition fix_sample :: FIXClient where
  "fix_sample = \<lparr>fcSymbol = ''BTCUSD'', fcSeq = 0, fcSides = Map.empty, fcSession = [], fcReady = False, fcPending = Map.empty, fcChans = []\<rparr>"

theorem fix_reports_never_block_and_reach_their_call_witness:
  "\<exists>s. fix_reach fix_sample s \<and> length (fsCalls s) = 1 \<and> (\<forall>rep. FromApp rep (fsClient s) \<noteq> None)"
proof -
  have new: "NewFIX (\<lambda>_. True) \<lparr>fgTargetHost = ''h'', fgTargetPort = 0, fgSenderCompID = [], fgTargetCompID = [], fgSymbol = []\<rparr> = Some fix_sample"
    by (simp add: NewFIX_def fix_applyDefaults_def fix_sample_def)
  obtain i h msg c' where p: "place_begin ''buy'' None 5 ''t'' (fsClient (fix_start fix_sample)) = (i, h, msg, c')" by (metis prod_cases4)
  have "fix_reach fix_sample ((fix_start fix_sample)\<lparr>fsClient := c', fsCalls := fsCalls (fix_start fix_sample) @
      [\<lparr>fkId = i, fkSide = Some (fix_side ''buy''), fkState = Waiting\<rparr>]\<rparr>)" (is "fix_reach _ ?s")
    by (rule fix_reach.step [OF fix_reach.start]) (rule fix_step.place [OF p])
  moreover from fix_reports_never_block_and_reach_their_call [OF new this] have "\<forall>rep. FromApp rep (fsClient ?s) \<noteq> None" by blast
  ultimately show ?thesis by (intro exI [of _ ?s]) (simp add: fix_start_def)
qed

text \<open>The cancel of an order that was placed names it and carries its side.\<close>

theorem cancel_carries_the_order_and_its_side:
  assumes "sendNewOrder others GotReport latNs now side price qty c = Some (c', res, None)"
  shows "\<exists>i h c''. cancel_begin (plID res) now' c' = (i, h, buildCancel i (plID res) (fix_side side) (fcSymbol c') now', c'')"
proof -
  have "fcSides c' (plID res) = Some (fix_side side)"
    using assms by (auto simp: sendNewOrder_def place_begin_def fix_failure_def Let_def split: prod.splits option.splits)
  moreover have "fix_side side \<noteq> []" by (simp add: fix_side_def)
  ultimately show ?thesis by (simp add: cancel_begin_def fix_register_def Let_def)
qed

text \<open>
  An order that is not acknowledged within the client's five seconds is reported as rejected, not as timed
  out: the error of the client is no timeout in the sense of \<open>resultForErr\<close>.
\<close>

theorem fix_timeout_is_reported_as_rejected:
  "\<exists>c' e. sendNewOrder others After5s latNs now side price qty c = Some (c', noResult, Some e) \<and> resultForErr e = ORDER_RESULT_REJECTED"
proof -
  have "resultForErr plain_error = ORDER_RESULT_REJECTED" by (simp add: plain_error_def resultForErr_def)
  then show ?thesis by (auto simp: sendNewOrder_def fix_failure_def Let_def split: prod.splits)
qed

end
