(* ===== verification/Archive.thy ===== *)
theory Archive
  imports GoStrings
begin

text \<open>
  Fetching and unpacking a contestant's archive (\<open>submission-svc/internal/build/buildkit.go\<close>:
  \<open>keyFromSourceURI\<close>, \<open>downloadAndExtract\<close>, \<open>extractTarEntry\<close>) with what they use of \<open>path/filepath\<close> and
  \<open>net/url\<close>. The lemmas show that nothing is written outside the directory an archive is unpacked into,
  within the size caps, and that the key of a stored object is read back from its address.
\<close>

section \<open>Paths\<close>

text \<open>\<open>filepath.Clean\<close>: the components without empty ones and dots, a double dot taking back the one before it.\<close>

fun clean_step :: "bool \<Rightarrow> string list \<Rightarrow> string \<Rightarrow> string list" where
  "clean_step rooted st c =
     (if c = [] \<or> c = ''.'' then st
      else if c = ''..'' then (case st of [] \<Rightarrow> if rooted then [] else [''..'']
        | t # ts \<Rightarrow> if t = ''..'' then ''..'' # st else ts)
      else c # st)"

definition clean_comps :: "string \<Rightarrow> string list" where
  "clean_comps p = rev (foldl (clean_step (HasPrefix p ''/'')) [] (split_on (CHR ''/'') p))"

definition IsAbs :: "string \<Rightarrow> bool" where
  "IsAbs p \<longleftrightarrow> HasPrefix p ''/''"

definition Clean :: "string \<Rightarrow> string" where
  "Clean p = (if p = [] then ''.''
     else if IsAbs p then ''/'' @ join_on (CHR ''/'') (clean_comps p)
     else if clean_comps p = [] then ''.'' else join_on (CHR ''/'') (clean_comps p))"

text \<open>\<open>filepath.Join\<close> of two texts that are not empty, and \<open>filepath.Dir\<close>.\<close>

definition path_Join :: "string \<Rightarrow> string \<Rightarrow> string" where
  "path_Join a b = Clean (a @ ''/'' @ b)"

definition path_Dir :: "string \<Rightarrow> string" where
  "path_Dir p = Clean (rev (dropWhile (\<lambda>c. c \<noteq> CHR ''/'') (rev p)))"

section \<open>Unpacking\<close>

datatype tar_type = TypeDir | TypeReg | TypeLink | TypeOther

text \<open>An entry, with the bytes it takes of the decompressed stream, header and padding included.\<close>

record tar_entry =
  teName :: string
  teType :: tar_type
  teSize :: int
  teMode :: int
  teBytes :: int

text \<open>
  What is done to the file system, in order; \<open>fs\<close> says whether a call succeeds. A file is written with the
  bytes its entry announces.
\<close>

datatype fs_op = MkdirAll string | WriteFile string int

datatype extract_error = EscapesRoot string | FileTooLarge string int | FsFailed fs_op | TarTruncated
  | ArchiveTooLarge int

definition extractTarEntry :: "(fs_op \<Rightarrow> bool) \<Rightarrow> string \<Rightarrow> int \<Rightarrow> tar_entry \<Rightarrow> fs_op list \<times> extract_error option" where
  "extractTarEntry fs dst maxFileBytes e =
     (let c = Clean (teName e) in
      if HasPrefix c ''..'' \<or> IsAbs c then ([], Some (EscapesRoot (teName e)))
      else let target = path_Join dst c in
        (case teType e of
           TypeDir \<Rightarrow> let d = MkdirAll target in ([d], if fs d then None else Some (FsFailed d))
         | TypeReg \<Rightarrow>
             if maxFileBytes < teSize e then ([], Some (FileTooLarge (teName e) maxFileBytes))
             else let d = MkdirAll (path_Dir target); f = WriteFile target (teSize e) in
                  if \<not> fs d then ([d], Some (FsFailed d))
                  else ([d, f], if fs f then None else Some (FsFailed f))
         | TypeLink \<Rightarrow> ([], None)
         | TypeOther \<Rightarrow> ([], None)))"

text \<open>
  The loop over the archive behind the limited reader: \<open>n\<close> bytes are left of the limit. An entry that
  does not fit is cut off, which the tar reader reports; \<open>tail\<close> is what follows the last entry.
\<close>

fun extract_loop :: "(fs_op \<Rightarrow> bool) \<Rightarrow> string \<Rightarrow> int \<Rightarrow> int \<Rightarrow> tar_entry list \<Rightarrow> int \<Rightarrow> fs_op list \<times> (extract_error + int)" where
  "extract_loop fs dst maxFile tail [] n = ([], Inr (n - tail))"
| "extract_loop fs dst maxFile tail (e # es) n =
     (if n < teBytes e then ([], Inl TarTruncated)
      else case extractTarEntry fs dst maxFile e of
        (ops, Some err) \<Rightarrow> (ops, Inl err)
      | (ops, None) \<Rightarrow> (case extract_loop fs dst maxFile tail es (n - teBytes e) of (ops', r) \<Rightarrow> (ops @ ops', r)))"

definition extract_all :: "(fs_op \<Rightarrow> bool) \<Rightarrow> string \<Rightarrow> int \<Rightarrow> int \<Rightarrow> int \<Rightarrow> tar_entry list \<Rightarrow> fs_op list \<times> extract_error option" where
  "extract_all fs dst maxFile maxExtract tail es =
     (case extract_loop fs dst maxFile tail es (maxExtract + 1) of
        (ops, Inl err) \<Rightarrow> (ops, Some err)
      | (ops, Inr n) \<Rightarrow> (ops, if n \<le> 0 then Some (ArchiveTooLarge maxExtract) else None))"

section \<open>Addresses of objects\<close>

definition hex_digit :: "char \<Rightarrow> nat option" where
  "hex_digit c = (let n = (of_char c :: nat) in
     if 48 \<le> n \<and> n \<le> 57 then Some (n - 48) else if 97 \<le> n \<and> n \<le> 102 then Some (n - 87)
     else if 65 \<le> n \<and> n \<le> 70 then Some (n - 55) else None)"

fun unescape_path :: "string \<Rightarrow> string option" where
  "unescape_path [] = Some []"
| "unescape_path (c # s) =
     (if c = CHR ''%'' then
        (case s of a # b # s' \<Rightarrow> (case (hex_digit a, hex_digit b) of
             (Some x, Some y) \<Rightarrow> map_option ((#) (char_of (16 * x + y))) (unescape_path s') | _ \<Rightarrow> None)
         | _ \<Rightarrow> None)
      else map_option ((#) c) (unescape_path s))"

definition is_letter :: "char \<Rightarrow> bool" where
  "is_letter c \<longleftrightarrow> (let n = (of_char c :: nat) in 65 \<le> n \<and> n \<le> 90 \<or> 97 \<le> n \<and> n \<le> 122)"

definition is_control :: "char \<Rightarrow> bool" where
  "is_control c \<longleftrightarrow> (of_char c :: nat) < 32 \<or> (of_char c :: nat) = 127"

definition is_scheme_char :: "char \<Rightarrow> bool" where
  "is_scheme_char c \<longleftrightarrow> is_letter c \<or> is_digit c \<or> c = CHR ''+'' \<or> c = CHR ''-'' \<or> c = CHR ''.''"

text \<open>
  \<open>url.Parse\<close> on a text with a scheme: the scheme in lower case and the decoded path, which is empty for an opaque address.
  A text without a scheme is \<open>None\<close> like one that does not parse, since the caller rejects both.
  \<open>host_ok\<close> is the check of the authority.
\<close>

definition url_Parse :: "(string \<Rightarrow> bool) \<Rightarrow> string \<Rightarrow> (string \<times> string) option" where
  "url_Parse host_ok raw =
     (let u = takeWhile (\<lambda>c. c \<noteq> CHR ''#'') raw; frag = drop (Suc (length u)) raw;
          scheme = takeWhile is_scheme_char u; after = drop (length scheme) u in
      if list_ex is_control u \<or> unescape_path frag = None \<or> scheme = [] \<or> \<not> is_letter (hd scheme) \<or> \<not> HasPrefix after '':'' then None
      else let rest = takeWhile (\<lambda>c. c \<noteq> CHR ''?'') (drop 1 after); low = map to_lower scheme in
           if \<not> HasPrefix rest ''/'' then Some (low, [])
           else if HasPrefix rest ''//'' then
             (let host = takeWhile (\<lambda>c. c \<noteq> CHR ''/'') (drop 2 rest) in
              if \<not> host_ok host then None
              else map_option (Pair low) (unescape_path (drop (2 + length host) rest)))
           else map_option (Pair low) (unescape_path rest))"

definition keyFromSourceURI :: "(string \<Rightarrow> bool) \<Rightarrow> string \<Rightarrow> string option" where
  "keyFromSourceURI host_ok uri = (case url_Parse host_ok uri of None \<Rightarrow> None
     | Some (scheme, path) \<Rightarrow> if scheme \<noteq> ''s3'' then None else Some (TrimPrefix path ''/''))"

section \<open>Cleaned paths\<close>

definition normal :: "string \<Rightarrow> bool" where
  "normal c \<longleftrightarrow> c \<noteq> [] \<and> c \<noteq> ''.'' \<and> c \<noteq> ''..'' \<and> CHR ''/'' \<notin> set c"

text \<open>Double dots are left only at the front, and never in a rooted path.\<close>

definition stack_ok :: "bool \<Rightarrow> string list \<Rightarrow> bool" where
  "stack_ok rooted st \<longleftrightarrow> (\<exists>ns k. st = ns @ replicate k ''..'' \<and> (\<forall>c \<in> set ns. normal c) \<and> (rooted \<longrightarrow> k = 0))"

lemma clean_step_ok:
  assumes "stack_ok rooted st" "CHR ''/'' \<notin> set c"
  shows "stack_ok rooted (clean_step rooted st c)"
proof -
  obtain ns k where st: "st = ns @ replicate k ''..''" "\<forall>c \<in> set ns. normal c" "rooted \<longrightarrow> k = 0"
    using assms(1) by (auto simp: stack_ok_def)
  show ?thesis
  proof (cases "c = ''..''")
    case True
    show ?thesis
    proof (cases ns)
      case Nil
      then have "clean_step rooted st c = (if rooted then [] else replicate (Suc k) ''..'')" using st True by (cases k) auto
      then show ?thesis unfolding stack_ok_def by (metis append_Nil empty_iff empty_set replicate_0)
    next
      case (Cons n ns')
      then have "n \<noteq> ''..''" using st by (simp add: normal_def)
      then show ?thesis using st True Cons by (auto simp: stack_ok_def)
    qed
  next
    case False
    show ?thesis
    proof (cases "c = [] \<or> c = ''.''")
      case True
      then show ?thesis using assms(1) by auto
    next
      case c: False
      then have "normal c" using False assms(2) by (simp add: normal_def)
      moreover have "clean_step rooted st c = (c # ns) @ replicate k ''..''" using st(1) False c by simp
      ultimately show ?thesis unfolding stack_ok_def using st by (metis set_ConsD)
    qed
  qed
qed

lemma clean_fold_ok: "stack_ok rooted st \<Longrightarrow> \<forall>c \<in> set cs. CHR ''/'' \<notin> set c \<Longrightarrow> stack_ok rooted (foldl (clean_step rooted) st cs)"
  by (induction cs arbitrary: st) (auto intro: clean_step_ok simp del: clean_step.simps)

lemma clean_comps_shape:
  obtains ns k where "clean_comps p = replicate k ''..'' @ ns" "\<forall>c \<in> set ns. normal c" "IsAbs p \<Longrightarrow> k = 0"
proof -
  have "stack_ok (HasPrefix p ''/'') []" by (auto simp: stack_ok_def)
  then have "stack_ok (HasPrefix p ''/'') (foldl (clean_step (HasPrefix p ''/'')) [] (split_on (CHR ''/'') p))"
    by (rule clean_fold_ok) (auto dest: split_on_no_sep)
  then obtain ns k where "foldl (clean_step (HasPrefix p ''/'')) [] (split_on (CHR ''/'') p) = ns @ replicate k ''..''"
    "\<forall>c \<in> set ns. normal c" "HasPrefix p ''/'' \<longrightarrow> k = 0" by (auto simp: stack_ok_def)
  then show ?thesis using that [of k "rev ns"] by (simp add: clean_comps_def IsAbs_def)
qed

text \<open>A name that the check lets through cleans to components that stay below.\<close>

lemma checked_name:
  assumes "\<not> HasPrefix (Clean p) ''..''" "\<not> IsAbs (Clean p)"
  shows "\<exists>cs. (\<forall>c \<in> set cs. normal c) \<and> Clean p = (if cs = [] then ''.'' else join_on (CHR ''/'') cs)"
proof (cases "p = []")
  case True
  then show ?thesis by (intro exI [of _ "[]"]) (simp add: Clean_def)
next
  case False
  obtain ns k where sh: "clean_comps p = replicate k ''..'' @ ns" "\<forall>c \<in> set ns. normal c" by (rule clean_comps_shape)
  have "IsAbs p \<Longrightarrow> IsAbs (Clean p)" using False by (simp add: Clean_def) (simp add: IsAbs_def HasPrefix_def)
  with assms(2) have "\<not> IsAbs p" by blast
  then have c: "Clean p = (if clean_comps p = [] then ''.'' else join_on (CHR ''/'') (clean_comps p))" using False by (simp add: Clean_def)
  have "k = 0"
  proof (rule ccontr)
    assume "k \<noteq> 0"
    then obtain j where "k = Suc j" by (cases k) auto
    then have "HasPrefix (Clean p) ''..''" using c sh(1) by (cases "replicate j ''..'' @ ns") (auto simp: HasPrefix_def)
    then show False using assms(1) by simp
  qed
  then show ?thesis using c sh by (intro exI [of _ ns]) simp
qed

text \<open>Pushing ordinary components.\<close>

lemma clean_push: "\<forall>c \<in> set cs. normal c \<Longrightarrow> foldl (clean_step r) st cs = rev cs @ st"
  by (induction cs arbitrary: st) (auto simp: normal_def)

definition abs_dir :: "string list \<Rightarrow> string" where
  "abs_dir ds = ''/'' @ join_on (CHR ''/'') ds"

lemma normal_no_slash: "\<forall>c \<in> set cs. normal c \<Longrightarrow> \<forall>c \<in> set cs. CHR ''/'' \<notin> set c"
  by (auto simp: normal_def)

lemma Join_below:
  assumes "ds \<noteq> []" "\<forall>c \<in> set ds. normal c" "\<forall>c \<in> set cs. normal c"
  shows "path_Join (abs_dir ds) (if cs = [] then ''.'' else join_on (CHR ''/'') cs) = abs_dir (ds @ cs)"
proof -
  let ?b = "if cs = [] then ''.'' else join_on (CHR ''/'') cs"
  let ?p = "abs_dir ds @ ''/'' @ ?b"
  have r: "HasPrefix ?p ''/''" by (simp add: abs_dir_def HasPrefix_def)
  have "split_on (CHR ''/'') (abs_dir ds) = [] # ds" using assms(1,2) split_join [of ds] normal_no_slash by (simp add: abs_dir_def)
  moreover have "split_on (CHR ''/'') ?b = (if cs = [] then [''.''] else cs)"
    using assms(3) split_join [of cs] normal_no_slash by simp
  ultimately have "split_on (CHR ''/'') ?p = ([] # ds) @ (if cs = [] then [''.''] else cs)"
    using split_on_append [of "CHR ''/''" "abs_dir ds" ?b] by simp
  then have "clean_comps ?p = ds @ cs"
    using r clean_push [OF assms(2)] clean_push [OF assms(3)] by (simp add: clean_comps_def)
  then show ?thesis using r by (simp add: path_Join_def Clean_def IsAbs_def abs_dir_def)
qed

lemma join_snoc: "ps \<noteq> [] \<Longrightarrow> join_on d (ps @ [q]) = join_on d ps @ d # q"
  by (induction d ps rule: join_on.induct) (auto simp: neq_Nil_conv)

lemma Dir_below:
  assumes "\<forall>c \<in> set ds. normal c" "normal c"
  shows "path_Dir (abs_dir (ds @ [c])) = abs_dir ds"
proof -
  have n: "CHR ''/'' \<notin> set c" using assms(2) by (simp add: normal_def)
  have w: "dropWhile (\<lambda>x. x \<noteq> CHR ''/'') (rev c @ CHR ''/'' # xs) = CHR ''/'' # xs" for xs
    using n by (subst dropWhile_append2) auto
  have "rev (dropWhile (\<lambda>x. x \<noteq> CHR ''/'') (rev (abs_dir (ds @ [c])))) = (if ds = [] then ''/'' else abs_dir ds @ ''/'')"
    using w [of "[]"] w [of "rev (abs_dir ds)"] by (cases "ds = []") (simp_all add: abs_dir_def join_snoc)
  moreover have "clean_comps (abs_dir ds @ ''/'') = ds" if "ds \<noteq> []"
  proof -
    have "split_on (CHR ''/'') (abs_dir ds @ ''/'') = ([] # ds) @ [[]]"
      using that assms(1) split_join [of ds] normal_no_slash split_on_append [of "CHR ''/''" "abs_dir ds" "[]"] by (simp add: abs_dir_def)
    then show ?thesis using clean_push [OF assms(1)] by (simp add: clean_comps_def abs_dir_def HasPrefix_def)
  qed
  ultimately show ?thesis by (auto simp: path_Dir_def Clean_def IsAbs_def abs_dir_def HasPrefix_def clean_comps_def)
qed

section \<open>Where an archive is unpacked\<close>

definition below :: "string list \<Rightarrow> string \<Rightarrow> bool" where
  "below ds p \<longleftrightarrow> (\<exists>cs. (\<forall>c \<in> set cs. normal c) \<and> p = abs_dir (ds @ cs))"

text \<open>
  The parent of the directory itself is only named by an entry that stands for the directory, and exists already.
\<close>

definition op_inside :: "string list \<Rightarrow> int \<Rightarrow> fs_op \<Rightarrow> bool" where
  "op_inside ds maxFile op = (case op of MkdirAll d \<Rightarrow> below ds d \<or> d = path_Dir (abs_dir ds)
     | WriteFile f n \<Rightarrow> below ds f \<and> n \<le> maxFile)"

lemma Dir_of_below:
  assumes "ds \<noteq> []" "\<forall>c \<in> set ds. normal c" "\<forall>c \<in> set cs. normal c"
  shows "below ds (path_Dir (abs_dir (ds @ cs))) \<or> path_Dir (abs_dir (ds @ cs)) = path_Dir (abs_dir ds)"
proof (cases cs rule: rev_cases)
  case (snoc cs' c)
  then show ?thesis using assms Dir_below [of "ds @ cs'" c] by (auto simp: below_def)
qed simp

lemma extractTarEntry_inside:
  assumes "ds \<noteq> []" "\<forall>c \<in> set ds. normal c"
  shows "\<forall>op \<in> set (fst (extractTarEntry fs (abs_dir ds) maxFile e)). op_inside ds maxFile op"
proof (cases "HasPrefix (Clean (teName e)) ''..'' \<or> IsAbs (Clean (teName e))")
  case True
  then show ?thesis by (simp add: extractTarEntry_def Let_def)
next
  case False
  then obtain cs where cs: "\<forall>c \<in> set cs. normal c" "Clean (teName e) = (if cs = [] then ''.'' else join_on (CHR ''/'') cs)"
    using checked_name by blast
  then have t: "path_Join (abs_dir ds) (Clean (teName e)) = abs_dir (ds @ cs)" using Join_below [OF assms cs(1)] by simp
  have "below ds (abs_dir (ds @ cs))" using cs(1) by (auto simp: below_def)
  then show ?thesis using False Dir_of_below [OF assms cs(1)] t
    by (simp add: extractTarEntry_def Let_def op_inside_def split: tar_type.splits)
qed

definition written_bytes :: "fs_op list \<Rightarrow> int" where
  "written_bytes ops = sum_list (map (\<lambda>op. case op of MkdirAll d \<Rightarrow> 0 | WriteFile f n \<Rightarrow> n) ops)"

lemma extractTarEntry_bytes: "0 \<le> teSize e \<Longrightarrow> written_bytes (fst (extractTarEntry fs dst maxFile e)) \<le> teSize e"
  by (simp add: extractTarEntry_def written_bytes_def Let_def split: tar_type.splits)

lemma extract_loop_inside:
  assumes "ds \<noteq> []" "\<forall>c \<in> set ds. normal c"
  shows "\<forall>op \<in> set (fst (extract_loop fs (abs_dir ds) maxFile tail es n)). op_inside ds maxFile op"
proof (induction es arbitrary: n)
  case (Cons e es)
  show ?case using extractTarEntry_inside [OF assms, of fs maxFile e] Cons.IH [of "n - teBytes e"]
    by (auto split: prod.splits option.splits if_splits)
qed simp

lemma extract_loop_bytes:
  assumes "\<forall>e \<in> set es. 0 \<le> teSize e \<and> teSize e \<le> teBytes e" "0 \<le> n"
  shows "written_bytes (fst (extract_loop fs dst maxFile tail es n)) \<le> n"
  using assms
proof (induction es arbitrary: n)
  case (Cons e es)
  have app: "written_bytes (xs @ ys) = written_bytes xs + written_bytes ys" for xs ys by (simp add: written_bytes_def)
  show ?case
  proof (cases "n < teBytes e")
    case False
    have "written_bytes (fst (extractTarEntry fs dst maxFile e)) \<le> teBytes e"
      using extractTarEntry_bytes [of e fs dst maxFile] Cons.prems(1) by fastforce
    moreover have "written_bytes (fst (extract_loop fs dst maxFile tail es (n - teBytes e))) \<le> n - teBytes e"
      using Cons.IH [of "n - teBytes e"] Cons.prems False by simp
    ultimately show ?thesis using False by (auto simp: app split: prod.splits option.splits)
  qed (use Cons.prems in \<open>simp add: written_bytes_def\<close>)
qed (simp add: written_bytes_def)

lemma extract_loop_left: "snd (extract_loop fs dst maxFile tail es n) = Inr r \<Longrightarrow> r = n - sum_list (map teBytes es) - tail"
proof (induction es arbitrary: n)
  case (Cons e es)
  from Cons.prems have "snd (extract_loop fs dst maxFile tail es (n - teBytes e)) = Inr r"
    by (auto split: if_splits prod.splits option.splits)
  from Cons.IH [OF this] show ?case by simp
qed simp

section \<open>Properties\<close>


definition evil_archive :: "tar_entry list" where
  "evil_archive = [\<lparr>teName = ''src//main.go'', teType = TypeReg, teSize = 10, teMode = 420, teBytes = 1024\<rparr>,
     \<lparr>teName = ''a/../../etc/passwd'', teType = TypeReg, teSize = 10, teMode = 420, teBytes = 1024\<rparr>]"


section \<open>Keys\<close>

lemma unescape_plain: "CHR ''%'' \<notin> set s \<Longrightarrow> unescape_path s = Some s"
  by (induction s) auto

text \<open>The key under which an archive was stored is read back from the address of the object, for keys without
  the characters an address gives a meaning to.\<close>

theorem source_key_round_trip:
  assumes "host_ok bucket" "\<forall>c \<in> set bucket. c \<noteq> CHR ''/'' \<and> c \<noteq> CHR ''?'' \<and> c \<noteq> CHR ''#'' \<and> \<not> is_control c"
    and "\<forall>c \<in> set key. c \<noteq> CHR ''%'' \<and> c \<noteq> CHR ''?'' \<and> c \<noteq> CHR ''#'' \<and> \<not> is_control c"
  shows "keyFromSourceURI host_ok (''s3://'' @ bucket @ ''/'' @ key) = Some key"
proof -
  let ?u = "''s3://'' @ bucket @ ''/'' @ key"
  have sch: "is_scheme_char CHR ''s''" "is_scheme_char CHR ''3''" "\<not> is_scheme_char CHR '':''" "is_letter CHR ''s''"
    "map to_lower ''s3'' = ''s3''" by code_simp+
  have ctl: "\<not> is_control CHR ''s''" "\<not> is_control CHR ''3''" "\<not> is_control CHR '':''" "\<not> is_control CHR ''/''" by code_simp+
  have u: "takeWhile (\<lambda>c. c \<noteq> CHR ''#'') ?u = ?u" using assms(2,3) by (simp add: takeWhile_eq_all_conv)
  have q: "takeWhile (\<lambda>c. c \<noteq> CHR ''?'') (''//'' @ bucket @ ''/'' @ key) = ''//'' @ bucket @ ''/'' @ key"
    using assms(2,3) by (simp add: takeWhile_eq_all_conv)
  have h: "takeWhile (\<lambda>c. c \<noteq> CHR ''/'') (bucket @ ''/'' @ key) = bucket" using assms(2) by (subst takeWhile_append2) auto
  have pl: "unescape_path key = Some key" using assms(3) by (intro unescape_plain) auto
  have k: "takeWhile (\<lambda>c. c \<noteq> CHR ''#'') key = key" "takeWhile (\<lambda>c. c \<noteq> CHR ''?'') key = key"
    using assms(3) by (simp_all add: takeWhile_eq_all_conv)
  have "\<not> list_ex is_control ?u" using assms(2,3) ctl by (auto simp: list_ex_iff)
  then have "url_Parse host_ok ?u = Some (''s3'', ''/'' @ key)"
    using assms(1) u q h sch pl
    by (simp add: url_Parse_def Let_def HasPrefix_def k)
  then show ?thesis by (simp add: keyFromSourceURI_def TrimPrefix_def HasPrefix_def)
qed

theorem source_key_round_trip_witness:
  "keyFromSourceURI (\<lambda>_. True) (''s3://'' @ ''subs'' @ ''/'' @ ''alice/1/source.tar.gz'') = Some ''alice/1/source.tar.gz''"
proof -
  have "list_all (\<lambda>c. c \<noteq> CHR ''/'' \<and> c \<noteq> CHR ''?'' \<and> c \<noteq> CHR ''#'' \<and> \<not> is_control c) ''subs''"
    "list_all (\<lambda>c. c \<noteq> CHR ''%'' \<and> c \<noteq> CHR ''?'' \<and> c \<noteq> CHR ''#'' \<and> \<not> is_control c) ''alice/1/source.tar.gz''" by code_simp+
  then show ?thesis by (intro source_key_round_trip) (simp_all only: list_all_iff)
qed

text \<open>A key with a number sign is cut there, so that the archive of such a contestant is not found.\<close>

lemma source_key_cut: "keyFromSourceURI (\<lambda>_. True) ''s3://subs/a#b/1/source.tar.gz'' = Some ''a''"
  by code_simp

text \<open>A name that only begins with two dots is refused like one that leaves the directory.\<close>

lemma dotted_name_rejected:
  "snd (extractTarEntry (\<lambda>_. True) ''/tmp/src'' 1024
     \<lparr>teName = ''..notes'', teType = TypeReg, teSize = 10, teMode = 420, teBytes = 1024\<rparr>) = Some (EscapesRoot ''..notes'')"
  by code_simp

end
