(* ===== verification/GoHttp.thy ===== *)
theory GoHttp
  imports Archive
begin

text \<open>
  What the services use of Go's \<open>net/http\<close> on the serving side: the calls a handler makes on its response
  writer and what the client is sent for them, the status recorder and the request-id and access-log
  middlewares that the gateway and the submission service both define (\<open>internal/httpx/middleware.go\<close>), and the
  pattern matching of \<open>http.ServeMux\<close>. The lemmas show what a handler that writes one status sends.
\<close>

section \<open>Requests and response writers\<close>

record 'b http_request =
  hqMethod :: string
  hqPath :: string
  hqEscapedPath :: string
  hqHeader :: "string \<Rightarrow> string"
  hqQuery :: "string \<Rightarrow> string"
  hqBody :: 'b
  hqRemoteAddr :: string
  hqRequestID :: "string option"

datatype 'a write_op = SetHeader string string | WriteHeader nat | WriteJSON 'a | WriteText string

text \<open>
  The first status is sent, with the headers set by then; a body without a status sends 200, and so does a
  handler that wrote nothing. Later calls of \<open>WriteHeader\<close> are superfluous.
\<close>

record 'a sent =
  snHeader :: "string \<rightharpoonup> string"
  snStatus :: "(nat \<times> (string \<rightharpoonup> string)) option"
  snBody :: "'a write_op list"

definition send_status :: "nat \<Rightarrow> 'a sent \<Rightarrow> 'a sent" where
  "send_status code w = (case snStatus w of None \<Rightarrow> w\<lparr>snStatus := Some (code, snHeader w)\<rparr> | Some _ \<Rightarrow> w)"

fun write_step :: "'a sent \<Rightarrow> 'a write_op \<Rightarrow> 'a sent" where
  "write_step w (SetHeader k v) = w\<lparr>snHeader := (snHeader w)(k \<mapsto> v)\<rparr>"
| "write_step w (WriteHeader code) = send_status code w"
| "write_step w (WriteJSON x) = (let w1 = send_status 200 w in w1\<lparr>snBody := snBody w1 @ [WriteJSON x]\<rparr>)"
| "write_step w (WriteText s) = (let w1 = send_status 200 w in w1\<lparr>snBody := snBody w1 @ [WriteText s]\<rparr>)"

definition new_response :: "'a sent" where
  "new_response = \<lparr>snHeader = Map.empty, snStatus = None, snBody = []\<rparr>"

definition response_of :: "'a write_op list \<Rightarrow> 'a sent" where
  "response_of ops = send_status 200 (foldl write_step new_response ops)"

definition sent_status :: "'a write_op list \<Rightarrow> nat" where
  "sent_status ops = (case snStatus (response_of ops) of None \<Rightarrow> 200 | Some (c, h) \<Rightarrow> c)"

definition sent_header :: "'a write_op list \<Rightarrow> string \<Rightarrow> string option" where
  "sent_header ops k = (case snStatus (response_of ops) of None \<Rightarrow> None | Some (c, h) \<Rightarrow> h k)"

text \<open>\<open>http.Error\<close>.\<close>

definition http_Error :: "nat \<Rightarrow> string \<Rightarrow> 'a write_op list" where
  "http_Error code msg = [SetHeader ''Content-Type'' ''text/plain; charset=utf-8'',
     SetHeader ''X-Content-Type-Options'' ''nosniff'', WriteHeader code, WriteText (msg @ [CHR 0x0A])]"

section \<open>Middlewares\<close>

record log_line =
  llRequestID :: string
  llMethod :: string
  llPath :: string
  llStatus :: nat
  llRemoteAddr :: string

text \<open>A handler changes a state, writes to its response and logs.\<close>

type_synonym ('s, 'b, 'a) handler = "'s \<Rightarrow> 'b http_request \<Rightarrow> 's \<times> 'a write_op list \<times> log_line list"

text \<open>What \<open>statusRecorder\<close> has recorded when the handler returns: the last status written, 200 to begin with.\<close>

definition record_status :: "nat \<Rightarrow> 'a write_op \<Rightarrow> nat" where
  "record_status st op = (case op of WriteHeader c \<Rightarrow> c | _ \<Rightarrow> st)"

definition statusRecorder :: "'a write_op list \<Rightarrow> nat" where
  "statusRecorder ops = foldl record_status 200 ops"

section \<open>What is sent\<close>

text \<open>The headers set before the status, and nothing after it but bodies: the shape of every reply of the services.\<close>

definition is_header :: "'a write_op \<Rightarrow> bool" where
  "is_header op \<longleftrightarrow> (\<exists>k v. op = SetHeader k v)"

definition is_body :: "'a write_op \<Rightarrow> bool" where
  "is_body op \<longleftrightarrow> (case op of WriteJSON x \<Rightarrow> True | WriteText s \<Rightarrow> True | _ \<Rightarrow> False)"

definition plain_reply :: "'a write_op list \<Rightarrow> bool" where
  "plain_reply ops \<longleftrightarrow> (\<exists>hs c bs. ops = hs @ WriteHeader c # bs \<and> list_all is_header hs \<and> list_all is_body bs)"

lemma write_headers:
  "list_all is_header hs \<Longrightarrow>
     snStatus (foldl write_step w hs) = snStatus w \<and>
     (\<forall>k. (\<forall>v. SetHeader k v \<notin> set hs) \<longrightarrow> snHeader (foldl write_step w hs) k = snHeader w k)"
  by (induction hs arbitrary: w) (auto simp: is_header_def)

lemma write_bodies:
  "list_all is_body bs \<Longrightarrow> snStatus w = Some x \<Longrightarrow> snStatus (foldl write_step w bs) = Some x"
  by (induction bs arbitrary: w) (auto simp: is_body_def send_status_def Let_def split: write_op.splits)

lemma record_headers: "list_all is_header hs \<Longrightarrow> foldl record_status st hs = st"
  by (induction hs arbitrary: st) (auto simp: is_header_def record_status_def)

lemma record_bodies: "list_all is_body bs \<Longrightarrow> foldl record_status st bs = st"
  by (induction bs arbitrary: st) (auto simp: is_body_def record_status_def split: write_op.splits)

lemma plain_status:
  assumes "list_all is_header hs" "list_all is_body bs"
  shows "snStatus (response_of (hs @ WriteHeader c # bs)) = Some (c, snHeader (foldl write_step new_response hs))"
proof -
  have "snStatus (foldl write_step new_response hs) = None"
    using write_headers [OF assms(1), of new_response] by (simp add: new_response_def)
  then have "snStatus (foldl write_step new_response (hs @ WriteHeader c # bs)) =
      Some (c, snHeader (foldl write_step new_response hs))"
    using write_bodies [OF assms(2)] by (simp add: send_status_def)
  then show ?thesis by (simp add: response_of_def send_status_def)
qed

text \<open>For such a reply the recorder has the status that is sent.\<close>

lemma recorded_is_sent:
  assumes "plain_reply ops"
  shows "statusRecorder ops = sent_status ops"
proof -
  from assms obtain hs c bs where ops: "ops = hs @ WriteHeader c # bs" "list_all is_header hs" "list_all is_body bs"
    by (auto simp: plain_reply_def)
  then show ?thesis
    by (simp add: statusRecorder_def sent_status_def plain_status record_headers record_bodies) (simp add: record_status_def record_bodies)
qed

text \<open>A header set first is sent unless the reply sets it again.\<close>

lemma first_header_sent:
  assumes "plain_reply ops" "\<forall>v. SetHeader k v \<notin> set ops"
  shows "sent_header (SetHeader k v # ops) k = Some v" "sent_status (SetHeader k v # ops) = sent_status ops"
    "plain_reply (SetHeader k v # ops)"
proof -
  from assms obtain hs c bs where ops: "ops = hs @ WriteHeader c # bs" "list_all is_header hs" "list_all is_body bs"
    by (auto simp: plain_reply_def)
  have h: "list_all is_header (SetHeader k v # hs)" using ops(2) by (simp add: is_header_def)
  have "snHeader (foldl write_step new_response (SetHeader k v # hs)) k = Some v"
    using write_headers [OF ops(2), of "write_step new_response (SetHeader k v)"] assms(2) ops(1) by simp
  then show "sent_header (SetHeader k v # ops) k = Some v"
    using plain_status [OF h ops(3), of c] ops(1) by (simp add: sent_header_def)
  show "sent_status (SetHeader k v # ops) = sent_status ops"
    using plain_status [OF h ops(3), of c] plain_status [OF ops(2,3), of c] ops(1) by (simp add: sent_status_def)
  show "plain_reply (SetHeader k v # ops)"
    unfolding plain_reply_def using h ops by (metis append_Cons)
qed

lemma plain_http_Error [simp]: "plain_reply (http_Error code msg)"
  unfolding plain_reply_def http_Error_def
  by (rule exI [of _ "[SetHeader ''Content-Type'' ''text/plain; charset=utf-8'', SetHeader ''X-Content-Type-Options'' ''nosniff'']"])
    (simp add: is_header_def is_body_def)

lemma http_Error_status [simp]: "sent_status (http_Error code msg) = code"
  unfolding recorded_is_sent [OF plain_http_Error, symmetric] by (simp add: statusRecorder_def http_Error_def record_status_def)

section \<open>Routing\<close>

text \<open>A pattern of \<open>http.ServeMux\<close>: a method and segments, a wildcard matching one segment.\<close>

datatype pat_seg = Lit string | Wild

fun match_segs :: "pat_seg list \<Rightarrow> string list \<Rightarrow> string list option" where
  "match_segs [] [] = Some []"
| "match_segs (Lit l # ps) (s # ss) = (if l = s then match_segs ps ss else None)"
| "match_segs (Wild # ps) (s # ss) = (if s = ''/'' then None else map_option ((#) s) (match_segs ps ss))"
| "match_segs [] (s # ss) = None"
| "match_segs (p # ps) [] = None"

text \<open>\<open>cleanPath\<close>, and the segments of a cleaned path: unescaped, a trailing slash being a segment of its own.\<close>

definition cleanPath :: "string \<Rightarrow> string" where
  "cleanPath p =
     (if p = [] then ''/''
      else let q = (if HasPrefix p ''/'' then p else ''/'' @ p); np = Clean q
           in if last q = CHR ''/'' \<and> np \<noteq> ''/'' then np @ ''/'' else np)"

definition segment :: "string \<Rightarrow> string" where
  "segment s = (if s = [] then ''/'' else case unescape_path s of Some t \<Rightarrow> t | None \<Rightarrow> s)"

definition path_segments :: "string \<Rightarrow> string list" where
  "path_segments p = map segment (split_on (CHR ''/'') (tl p))"

datatype 'r mux_result = MuxRoute 'r "string list" | MuxRedirect string | MuxNotAllowed | MuxNotFound

text \<open>
  The first pattern that matches: the services register no two that match the same request. A request
  by \<open>HEAD\<close> is served by a pattern for \<open>GET\<close>.
\<close>

definition method_matches :: "string \<Rightarrow> string \<Rightarrow> bool" where
  "method_matches pm m \<longleftrightarrow> pm = m \<or> (pm = ''GET'' \<and> m = ''HEAD'')"

fun mux_find :: "(string \<times> pat_seg list \<times> 'r) list \<Rightarrow> string \<Rightarrow> string list \<Rightarrow> ('r \<times> string list) option" where
  "mux_find [] m ss = None"
| "mux_find ((pm, pat, r) # ps) m ss =
     (if method_matches pm m then (case match_segs pat ss of Some vs \<Rightarrow> Some (r, vs) | None \<Rightarrow> mux_find ps m ss)
      else mux_find ps m ss)"

definition mux_serve :: "(string \<times> pat_seg list \<times> 'r) list \<Rightarrow> string \<Rightarrow> string \<Rightarrow> 'r mux_result" where
  "mux_serve ps m escaped =
     (let p = cleanPath escaped; ss = path_segments p in
      if p \<noteq> escaped then MuxRedirect p
      else (case mux_find ps m ss of
          Some (r, vs) \<Rightarrow> MuxRoute r vs
        | None \<Rightarrow> if \<exists>(pm, pat, r) \<in> set ps. match_segs pat ss \<noteq> None then MuxNotAllowed else MuxNotFound))"

lemma mux_find_method:
  assumes "mux_find ps m ss = Some (r, vs)"
  obtains pm pat where "(pm, pat, r) \<in> set ps" "method_matches pm m" "match_segs pat ss = Some vs"
  using assms by (induction ps m ss rule: mux_find.induct) (auto split: if_splits option.splits)

end
