(* ===== verification/SubmissionStore.thy ===== *)
theory SubmissionStore
  imports GoTime GoStrings
begin

text \<open>
  The repository of submissions (\<open>submission-svc/internal/store\<close>): in memory and in Postgres, behind one
  interface. The table of the database keeps absent texts as null; its statements are modelled on a table
  from ids to rows. The lemmas show the law of the interface for both and that they simulate each other.
\<close>

section \<open>Submissions\<close>

text \<open>Languages and statuses are strings in the code; the constants are the values it names.\<close>

definition lang_Valid :: "string \<Rightarrow> bool" where
  "lang_Valid l \<longleftrightarrow> l = ''cpp'' \<or> l = ''rust'' \<or> l = ''go''"

abbreviation StatusUploaded :: string where "StatusUploaded \<equiv> ''uploaded''"
abbreviation StatusBuilding :: string where "StatusBuilding \<equiv> ''building''"
abbreviation StatusBuildFailed :: string where "StatusBuildFailed \<equiv> ''build_failed''"
abbreviation StatusReady :: string where "StatusReady \<equiv> ''ready''"

record Submission =
  sbID :: string
  sbContestantID :: string
  sbLanguage :: string
  sbStatus :: string
  sbSourceURI :: string
  sbImageURI :: string
  sbEntrypoint :: string
  sbBuildError :: string
  sbCreatedAt :: instant
  sbUpdatedAt :: instant

datatype store_error = ErrNotFound | ErrAlreadyExists | StoreFailed string

text \<open>The interface \<open>Repository\<close> over a state; an update reads the clock, and a list takes the order a map is ranged in.\<close>

record 's Repository =
  rpCreate :: "Submission \<Rightarrow> 's \<Rightarrow> store_error option \<times> 's"
  rpGet :: "string \<Rightarrow> 's \<Rightarrow> Submission option"
  rpUpdateStatus :: "instant \<Rightarrow> string \<Rightarrow> string \<Rightarrow> string \<Rightarrow> string \<Rightarrow> 's \<Rightarrow> store_error option \<times> 's"

section \<open>In memory\<close>

type_synonym Memory = "string \<rightharpoonup> Submission"

definition NewMemory :: Memory where
  "NewMemory = Map.empty"

definition mem_Create :: "Submission \<Rightarrow> Memory \<Rightarrow> store_error option \<times> Memory" where
  "mem_Create s m = (if m (sbID s) \<noteq> None then (Some ErrAlreadyExists, m) else (None, m(sbID s \<mapsto> s)))"

definition mem_Get :: "string \<Rightarrow> Memory \<Rightarrow> Submission option" where
  "mem_Get i m = m i"

definition with_status :: "instant \<Rightarrow> string \<Rightarrow> string \<Rightarrow> string \<Rightarrow> Submission \<Rightarrow> Submission" where
  "with_status now status imageURI buildError s =
     (let s1 = s\<lparr>sbStatus := status\<rparr>; s2 = (if imageURI \<noteq> '''' then s1\<lparr>sbImageURI := imageURI\<rparr> else s1)
      in s2\<lparr>sbBuildError := buildError, sbUpdatedAt := now\<rparr>)"

definition mem_UpdateStatus :: "instant \<Rightarrow> string \<Rightarrow> string \<Rightarrow> string \<Rightarrow> string \<Rightarrow> Memory \<Rightarrow> store_error option \<times> Memory" where
  "mem_UpdateStatus now i status imageURI buildError m = (case m i of None \<Rightarrow> (Some ErrNotFound, m)
     | Some s \<Rightarrow> (None, m(i \<mapsto> with_status now status imageURI buildError s)))"

text \<open>
  \<open>sort.Slice\<close> by falling creation time: any arrangement it may produce is given by \<open>srt\<close>. The limit
  applies when it is positive.
\<close>

definition list_limit :: "int \<Rightarrow> 'a list \<Rightarrow> 'a list" where
  "list_limit limit xs = (if 0 < limit \<and> limit < int (length xs) then take (nat limit) xs else xs)"

definition mem_List :: "(Submission list \<Rightarrow> Submission list) \<Rightarrow> string list \<Rightarrow> string \<Rightarrow> int \<Rightarrow> Memory \<Rightarrow> Submission list" where
  "mem_List srt ks contestantID limit m =
     list_limit limit (srt (filter (\<lambda>s. contestantID = '''' \<or> sbContestantID s = contestantID) (range_values ks m)))"

definition memory_repo :: "Memory Repository" where
  "memory_repo = \<lparr>rpCreate = mem_Create, rpGet = mem_Get, rpUpdateStatus = mem_UpdateStatus\<rparr>"

section \<open>In Postgres\<close>

text \<open>A row of the table; \<open>None\<close> is null.\<close>

record row =
  dbContestantID :: string
  dbLanguage :: string
  dbStatus :: string
  dbSourceURI :: string
  dbImageURI :: "string option"
  dbEntrypoint :: string
  dbBuildError :: "string option"
  dbCreatedAt :: instant
  dbUpdatedAt :: instant

type_synonym table = "string \<rightharpoonup> row"

definition NULLIF_empty :: "string \<Rightarrow> string option" where
  "NULLIF_empty s = (if s = '''' then None else Some s)"

definition COALESCE :: "'a option \<Rightarrow> 'a \<Rightarrow> 'a" where
  "COALESCE x d = (case x of None \<Rightarrow> d | Some v \<Rightarrow> v)"

definition row_of :: "Submission \<Rightarrow> row" where
  "row_of s = \<lparr>dbContestantID = sbContestantID s, dbLanguage = sbLanguage s, dbStatus = sbStatus s, dbSourceURI = sbSourceURI s,
     dbImageURI = NULLIF_empty (sbImageURI s), dbEntrypoint = sbEntrypoint s, dbBuildError = NULLIF_empty (sbBuildError s),
     dbCreatedAt = sbCreatedAt s, dbUpdatedAt = sbUpdatedAt s\<rparr>"

definition scan_row :: "string \<Rightarrow> row \<Rightarrow> Submission" where
  "scan_row i r = \<lparr>sbID = i, sbContestantID = dbContestantID r, sbLanguage = dbLanguage r, sbStatus = dbStatus r,
     sbSourceURI = dbSourceURI r, sbImageURI = COALESCE (dbImageURI r) '''', sbEntrypoint = dbEntrypoint r,
     sbBuildError = COALESCE (dbBuildError r) '''', sbCreatedAt = dbCreatedAt r, sbUpdatedAt = dbUpdatedAt r\<rparr>"

text \<open>\<open>fails\<close> is the error of the call when the database does not answer; a duplicate key is the unique violation.\<close>

definition pg_Create :: "string option \<Rightarrow> Submission \<Rightarrow> table \<Rightarrow> store_error option \<times> table" where
  "pg_Create fails s t = (case fails of Some e \<Rightarrow> (Some (StoreFailed e), t)
     | None \<Rightarrow> if t (sbID s) \<noteq> None then (Some ErrAlreadyExists, t) else (None, t(sbID s \<mapsto> row_of s)))"

definition pg_Get :: "string option \<Rightarrow> string \<Rightarrow> table \<Rightarrow> Submission option" where
  "pg_Get fails i t = (case fails of Some e \<Rightarrow> None | None \<Rightarrow> map_option (scan_row i) (t i))"

definition pg_UpdateStatus :: "string option \<Rightarrow> instant \<Rightarrow> string \<Rightarrow> string \<Rightarrow> string \<Rightarrow> string \<Rightarrow> table \<Rightarrow> store_error option \<times> table" where
  "pg_UpdateStatus fails now i status imageURI buildError t = (case fails of Some e \<Rightarrow> (Some (StoreFailed e), t)
     | None \<Rightarrow> (case t i of None \<Rightarrow> (Some ErrNotFound, t)
         | Some r \<Rightarrow> (None, t(i \<mapsto> r\<lparr>dbStatus := status,
             dbImageURI := (case NULLIF_empty imageURI of None \<Rightarrow> dbImageURI r | Some u \<Rightarrow> Some u),
             dbBuildError := NULLIF_empty buildError, dbUpdatedAt := now\<rparr>))))"

text \<open>\<open>order_by\<close> is the arrangement \<open>ORDER BY created_at DESC\<close> yields for the rows the query selects.\<close>

definition pg_List :: "string option \<Rightarrow> (Submission list \<Rightarrow> Submission list) \<Rightarrow> string list \<Rightarrow> string \<Rightarrow> int \<Rightarrow> table \<Rightarrow> Submission list" where
  "pg_List fails order_by ks contestantID limit t = (case fails of Some e \<Rightarrow> []
     | None \<Rightarrow> let selected = filter (\<lambda>s. contestantID = '''' \<or> sbContestantID s = contestantID)
                  (List.map_filter (\<lambda>i. map_option (scan_row i) (t i)) ks);
                  ordered = order_by selected
               in if 0 < limit then take (nat limit) ordered else ordered)"

definition postgres_repo :: "table Repository" where
  "postgres_repo = \<lparr>rpCreate = pg_Create None, rpGet = pg_Get None, rpUpdateStatus = pg_UpdateStatus None\<rparr>"

section \<open>The interface\<close>

locale repository =
  fixes repo :: "'s Repository"
    and ok :: "'s \<Rightarrow> bool"
  assumes create_new: "rpGet repo (sbID s) m = None \<Longrightarrow> fst (rpCreate repo s m) = None
      \<and> (\<forall>k. rpGet repo k (snd (rpCreate repo s m)) = (if k = sbID s then Some s else rpGet repo k m))"
    and create_dup: "rpGet repo (sbID s) m \<noteq> None \<Longrightarrow> rpCreate repo s m = (Some ErrAlreadyExists, m)"
    and update_known: "rpGet repo i m = Some s \<Longrightarrow> fst (rpUpdateStatus repo now i st img err m) = None
      \<and> (\<forall>k. rpGet repo k (snd (rpUpdateStatus repo now i st img err m)) =
            (if k = i then Some (with_status now st img err s) else rpGet repo k m))"
    and update_missing: "rpGet repo i m = None \<Longrightarrow> rpUpdateStatus repo now i st img err m = (Some ErrNotFound, m)"
    and ok_create: "ok m \<Longrightarrow> ok (snd (rpCreate repo s m))"
    and ok_update: "ok m \<Longrightarrow> ok (snd (rpUpdateStatus repo now i st img err m))"
    and ok_id: "ok m \<Longrightarrow> rpGet repo i m = Some s \<Longrightarrow> sbID s = i"

definition memory_ok :: "Memory \<Rightarrow> bool" where
  "memory_ok m \<longleftrightarrow> (\<forall>i s. m i = Some s \<longrightarrow> sbID s = i)"

lemma with_status_id [simp]: "sbID (with_status now st img err s) = sbID s"
  by (simp add: with_status_def Let_def)

lemma with_status_keeps [simp]:
  "sbContestantID (with_status now st img err s) = sbContestantID s" "sbStatus (with_status now st img err s) = st"
  "sbLanguage (with_status now st img err s) = sbLanguage s" "sbSourceURI (with_status now st img err s) = sbSourceURI s"
  "sbEntrypoint (with_status now st img err s) = sbEntrypoint s" "sbCreatedAt (with_status now st img err s) = sbCreatedAt s"
  "sbBuildError (with_status now st img err s) = err"
  "sbImageURI (with_status now st img err s) = (if img = [] then sbImageURI s else img)"
  by (simp_all add: with_status_def Let_def)

interpretation mem: repository memory_repo memory_ok
  by unfold_locales
    (auto simp: memory_repo_def mem_Create_def mem_Get_def mem_UpdateStatus_def memory_ok_def split: option.splits if_splits)

lemma scan_row_of [simp]: "scan_row (sbID s) (row_of s) = s"
  by (simp add: scan_row_def row_of_def NULLIF_empty_def COALESCE_def)

lemma scan_updated:
  "scan_row i (r\<lparr>dbStatus := st, dbImageURI := (case NULLIF_empty img of None \<Rightarrow> dbImageURI r | Some u \<Rightarrow> Some u),
     dbBuildError := NULLIF_empty err, dbUpdatedAt := now\<rparr>) = with_status now st img err (scan_row i r)"
  by (simp add: scan_row_def with_status_def Let_def NULLIF_empty_def COALESCE_def)

interpretation pg: repository postgres_repo "\<lambda>_. True"
proof
  fix i s now st img err and m :: table
  assume "rpGet postgres_repo i m = Some s"
  then obtain r where "m i = Some r" "s = scan_row i r" by (auto simp: postgres_repo_def pg_Get_def)
  then show "fst (rpUpdateStatus postgres_repo now i st img err m) = None
      \<and> (\<forall>k. rpGet postgres_repo k (snd (rpUpdateStatus postgres_repo now i st img err m)) =
            (if k = i then Some (with_status now st img err s) else rpGet postgres_repo k m))"
    by (simp add: postgres_repo_def pg_UpdateStatus_def pg_Get_def scan_updated)
next
  fix i s and m :: table
  assume "rpGet postgres_repo i m = Some s"
  then show "sbID s = i" by (auto simp: postgres_repo_def pg_Get_def scan_row_def)
qed (auto simp: postgres_repo_def pg_Create_def pg_Get_def pg_UpdateStatus_def)

section \<open>The two repositories agree\<close>

datatype repo_op = OpCreate Submission | OpUpdate instant string string string string

fun repo_do :: "'s Repository \<Rightarrow> repo_op \<Rightarrow> 's \<Rightarrow> store_error option \<times> 's" where
  "repo_do repo (OpCreate s) m = rpCreate repo s m"
| "repo_do repo (OpUpdate now i st img err) m = rpUpdateStatus repo now i st img err m"

fun repo_run :: "'s Repository \<Rightarrow> repo_op list \<Rightarrow> 's \<Rightarrow> store_error option list \<times> 's" where
  "repo_run repo [] m = ([], m)"
| "repo_run repo (op # ops) m = (case repo_do repo op m of (e, m') \<Rightarrow> case repo_run repo ops m' of (es, m'') \<Rightarrow> (e # es, m''))"

text \<open>What a table stands for.\<close>

definition table_abs :: "table \<Rightarrow> Memory" where
  "table_abs t = (\<lambda>i. map_option (scan_row i) (t i))"

lemma repo_do_abs:
  "repo_do memory_repo op (table_abs t) = (fst (repo_do postgres_repo op t), table_abs (snd (repo_do postgres_repo op t)))"
proof (cases op)
  case (OpCreate s)
  then show ?thesis by (auto simp: memory_repo_def postgres_repo_def mem_Create_def pg_Create_def table_abs_def fun_eq_iff)
next
  case (OpUpdate now i st img err)
  then show ?thesis
    by (cases "t i") (auto simp: memory_repo_def postgres_repo_def mem_UpdateStatus_def pg_UpdateStatus_def table_abs_def scan_updated fun_eq_iff)
qed

lemma repo_run_abs:
  "repo_run memory_repo ops (table_abs t) = (fst (repo_run postgres_repo ops t), table_abs (snd (repo_run postgres_repo ops t)))"
  by (induction ops arbitrary: t) (simp_all add: repo_do_abs split: prod.splits)

lemma lists_agree: "mem_List srt ks c l (table_abs t) = pg_List None srt ks c l t"
  by (auto simp: mem_List_def pg_List_def list_limit_def range_values_def table_abs_def Let_def)

section \<open>Properties\<close>


end
