(* ===== verification/BuildLog.thy ===== *)
theory BuildLog
  imports GoTime GoStrings
begin

text \<open>
  The build-log buffer (\<open>submission-svc/internal/buildlog\<close>) and the writer that feeds it a process's
  output line by line (\<open>internal/build/buildkit.go\<close>). A buffer keeps the most recent lines of each submission
  under consecutive numbers; the lemmas show that a reader who polls with the last number it saw misses
  nothing as long as no more than the bound was written in between.
\<close>

record Line =
  lnSeq :: int64
  lnStream :: string
  lnText :: string
  lnAtMs :: int64

text \<open>An absent entry of \<open>lines\<close> is empty and one of \<open>seq\<close> is zero.\<close>

record LogBuffer =
  lbLines :: "string \<Rightarrow> Line list"
  lbSeq :: "string \<Rightarrow> int64"
  lbMax :: int

definition NewLogBuffer :: "int \<Rightarrow> LogBuffer" where
  "NewLogBuffer maxLines = \<lparr>lbLines = (\<lambda>_. []), lbSeq = (\<lambda>_. 0), lbMax = (if maxLines \<le> 0 then 2000 else maxLines)\<rparr>"

definition log_Append :: "int64 \<Rightarrow> string \<Rightarrow> string \<Rightarrow> string \<Rightarrow> LogBuffer \<Rightarrow> LogBuffer" where
  "log_Append nowMs submissionID stream txt b =
     (if submissionID = '''' \<or> txt = '''' then b
      else let n = wrap64 (lbSeq b submissionID + 1);
               cur = lbLines b submissionID @ [\<lparr>lnSeq = n, lnStream = stream, lnText = txt, lnAtMs = nowMs\<rparr>];
               cur' = (if lbMax b < int (length cur) then drop (length cur - nat (lbMax b)) cur else cur)
           in b\<lparr>lbSeq := (lbSeq b)(submissionID := n), lbLines := (lbLines b)(submissionID := cur')\<rparr>)"

definition log_Since :: "string \<Rightarrow> int64 \<Rightarrow> LogBuffer \<Rightarrow> Line list \<times> int64" where
  "log_Since submissionID since b = (filter (\<lambda>ln. since < lnSeq ln) (lbLines b submissionID), lbSeq b submissionID)"

text \<open>The writer: what it was given without trailing line feeds, by lines, the empty ones left out.\<close>

abbreviation "LF \<equiv> CHR 0x0A"

definition written_lines :: "string \<Rightarrow> string list" where
  "written_lines p = filter (\<lambda>l. l \<noteq> '''') (split_on LF (rev (dropWhile (\<lambda>c. c = LF) (rev p))))"

definition logWriter_Write :: "(string \<Rightarrow> 'b \<Rightarrow> 'b) \<Rightarrow> string \<Rightarrow> 'b \<Rightarrow> nat \<times> 'b" where
  "logWriter_Write sink p b = (length p, foldl (\<lambda>b l. sink l b) b (written_lines p))"

section \<open>Numbering\<close>

text \<open>Appends of any submissions in any order.\<close>

record log_event =
  leAtMs :: int64
  leSubmission :: string
  leStream :: string
  leText :: string

definition log_step :: "LogBuffer \<Rightarrow> log_event \<Rightarrow> LogBuffer" where
  "log_step b e = log_Append (leAtMs e) (leSubmission e) (leStream e) (leText e) b"

definition log_key :: "log_event \<Rightarrow> string option" where
  "log_key e = (if leSubmission e = '''' \<or> leText e = '''' then None else Some (leSubmission e))"

definition log_at :: "LogBuffer \<Rightarrow> string \<Rightarrow> int \<times> Line list \<times> int64" where
  "log_at b i = (lbMax b, lbLines b i, lbSeq b i)"

fun log_local :: "int \<times> Line list \<times> int64 \<Rightarrow> log_event \<Rightarrow> int \<times> Line list \<times> int64" where
  "log_local (m, ls, n) e =
     (m, take_last (nat m) (ls @ [\<lparr>lnSeq = wrap64 (n + 1), lnStream = leStream e, lnText = leText e, lnAtMs = leAtMs e\<rparr>]), wrap64 (n + 1))"

interpretation lg: keyed_state log_step log_at log_key log_local
proof
  fix e :: log_event and i b
  assume "log_key e = Some i"
  then show "log_at (log_step b e) i = log_local (log_at b i) e"
    by (auto simp: log_key_def log_at_def log_step_def log_Append_def Let_def take_last_def split: if_splits)
next
  fix e :: log_event and i b
  assume "log_key e \<noteq> Some i"
  then show "log_at (log_step b e) i = log_at b i"
    by (auto simp: log_key_def log_at_def log_step_def log_Append_def Let_def split: if_splits)
qed

text \<open>The lines of a submission with the numbers they get.\<close>

definition line_of :: "nat \<Rightarrow> log_event \<Rightarrow> Line" where
  "line_of k e = \<lparr>lnSeq = int k + 1, lnStream = leStream e, lnText = leText e, lnAtMs = leAtMs e\<rparr>"

definition numbered :: "log_event list \<Rightarrow> Line list" where
  "numbered es = map (\<lambda>k. line_of k (es ! k)) [0..<length es]"

lemma numbered_snoc: "numbered (es @ [e]) = numbered es @ [line_of (length es) e]"
  by (simp add: numbered_def nth_append)

lemma log_local_run:
  assumes "0 < m" "int (length es) < 2 ^ 63"
  shows "foldl log_local (m, [], 0) es = (m, take_last (nat m) (numbered es), int (length es))"
  using assms(2)
proof (induction es rule: rev_induct)
  case (snoc e es)
  have "wrap64 (int (length es) + 1) = int (length es) + 1"
    using snoc.prems by (intro wrap64_id) (simp add: in_int64_def min_int64_def max_int64_def)
  moreover obtain k where "nat m = Suc k" using assms(1) by (cases "nat m") auto
  ultimately show ?case using snoc by (simp add: numbered_snoc line_of_def take_last_snoc)
qed (simp add: numbered_def take_last_def)

lemma filter_upt_ge: "filter (\<lambda>j. s \<le> j) [k..<n] = [max s k..<n]"
  by (induction n) (auto simp: max_def)

lemma drop_numbered: "drop k (numbered es) = map (\<lambda>j. line_of j (es ! j)) [k..<length es]"
  by (simp add: numbered_def drop_map)

lemma since_numbered:
  assumes "0 \<le> since"
  shows "filter (\<lambda>ln. since < lnSeq ln) (drop k (numbered es)) = drop (max (nat since) k) (numbered es)"
proof -
  have "(since < lnSeq (line_of j (es ! j))) = (nat since \<le> j)" for j using assms by (auto simp: line_of_def)
  then show ?thesis by (simp add: drop_numbered filter_map comp_def filter_upt_ge)
qed

lemma log_state:
  assumes "own = filter (\<lambda>e. log_key e = Some i) es" "int (length own) < 2 ^ 63" "b = foldl log_step (NewLogBuffer m) es"
  shows "lbMax b = (if m \<le> 0 then 2000 else m)" "lbLines b i = take_last (nat (lbMax b)) (numbered own)" "lbSeq b i = int (length own)"
proof -
  have "log_at b i = foldl log_local (log_at (NewLogBuffer m) i) own"
    using lg.run_at [of "NewLogBuffer m" es i] assms(1,3) by simp
  also have "\<dots> = (if m \<le> 0 then 2000 else m, take_last (nat (if m \<le> 0 then 2000 else m)) (numbered own), int (length own))"
    using log_local_run [of "if m \<le> 0 then 2000 else m" own] assms(2) by (simp add: log_at_def NewLogBuffer_def)
  finally show "lbMax b = (if m \<le> 0 then 2000 else m)" "lbLines b i = take_last (nat (lbMax b)) (numbered own)" "lbSeq b i = int (length own)"
    by (simp_all add: log_at_def)
qed

section \<open>Properties\<close>

text \<open>A poll with a number already seen returns the latest number and, in order and with consecutive
  numbers, the lines written after it, of which only those beyond the bound are gone; a reader who is at most the
  bound behind gets every one of them. The lines of other submissions play no part.\<close>

theorem log_polling_misses_nothing:
  assumes "own = filter (\<lambda>e. log_key e = Some i) es" "int (length own) < 2 ^ 63" "b = foldl log_step (NewLogBuffer m) es" "0 \<le> since"
  shows "snd (log_Since i since b) = int (length own)
     \<and> fst (log_Since i since b) = drop (max (nat since) (length own - nat (lbMax b))) (numbered own)
     \<and> (int (length own) - since \<le> lbMax b \<longrightarrow> map lnText (fst (log_Since i since b)) = drop (nat since) (map leText own))"
proof -
  note st = log_state [OF assms(1-3)]
  have len: "length (numbered own) = length own" by (simp add: numbered_def)
  have f: "fst (log_Since i since b) = drop (max (nat since) (length own - nat (lbMax b))) (numbered own)"
    using since_numbered [OF assms(4)] by (simp add: log_Since_def st(2) take_last_def len)
  have t: "map lnText (numbered own) = map leText own" by (rule nth_equalityI) (simp_all add: numbered_def line_of_def)
  have "max (nat since) (length own - nat (lbMax b)) = nat since" if "int (length own) - since \<le> lbMax b"
    using that assms(4) by auto
  then show ?thesis using f t st(3) by (auto simp: log_Since_def drop_map [symmetric])
qed

definition sample_log :: "log_event list" where
  "sample_log = [\<lparr>leAtMs = 1, leSubmission = ''s'', leStream = ''stdout'', leText = ''a''\<rparr>,
     \<lparr>leAtMs = 1, leSubmission = ''t'', leStream = ''stdout'', leText = ''x''\<rparr>,
     \<lparr>leAtMs = 2, leSubmission = ''s'', leStream = ''stderr'', leText = ''b''\<rparr>]"

theorem log_polling_misses_nothing_witness:
  "map lnText (fst (log_Since ''s'' 1 (foldl log_step (NewLogBuffer 5) sample_log))) = [''b'']"
proof -
  let ?own = "filter (\<lambda>e. log_key e = Some ''s'') sample_log"
  have own: "map leText ?own = [''a'', ''b'']" "length ?own = 2" by (simp_all add: sample_log_def log_key_def)
  have m: "lbMax (foldl log_step (NewLogBuffer 5) sample_log) = 5"
    using log_state(1) [OF refl _ refl, of "''s''" sample_log 5] own(2) by simp
  note t = log_polling_misses_nothing [OF refl _ refl, of "''s''" sample_log 1 5, THEN conjunct2, THEN conjunct2, THEN mp]
  show ?thesis by (subst t) (simp_all add: own m)
qed

text \<open>A chunk that ends a line is stored line by line.\<close>

lemma written_lines_joined:
  assumes "ls \<noteq> []" "\<forall>l \<in> set ls. l \<noteq> [] \<and> LF \<notin> set l"
  shows "written_lines (join_on LF ls @ [LF]) = ls"
proof -
  have "last (join_on LF ls) \<noteq> LF \<and> join_on LF ls \<noteq> []" using assms
  proof (induction LF ls rule: join_on.induct)
    case (2 p) then show ?case by (auto dest: last_in_set)
  qed auto
  then have "dropWhile (\<lambda>c. c = LF) (rev (join_on LF ls @ [LF])) = rev (join_on LF ls)"
    by (cases "rev (join_on LF ls)") (auto simp: last_conv_nth hd_rev [symmetric])
  then show ?thesis using assms split_join [of ls LF] by (simp add: written_lines_def filter_id_conv)
qed

end
