(* ===== verification/Sandbox.thy ===== *)
theory Sandbox
  imports GoTime GoStrings
begin

text \<open>
  The sandbox runner: the crash tracker and the pod specification (\<open>sandbox-runner/internal/runner\<close>),
  the operations on pods, the gRPC service over them (\<open>internal/server\<close>) and the configuration
  (\<open>main.go\<close>). The Kubernetes API is a parameter: its calls act on a cluster state of any type. The lemmas
  show which pod a spawn asks for, when it is ready, how the crash counts of a submission are summed, and
  that a spawned pod's crashes are counted for the submission it was spawned for.
\<close>

section \<open>Crash tracker\<close>

record CrashCount =
  ccContestantID :: string
  ccSubmissionID :: string
  ccCrashes :: int64

record podCrash =
  pcContestantID :: string
  pcSubmissionID :: string
  pcCrashes :: int64

record CrashTracker =
  ctPods :: "string \<rightharpoonup> podCrash"

type_synonym crashKey = "string \<times> string"

definition crash_key :: "podCrash \<Rightarrow> crashKey" where
  "crash_key pc = (pcContestantID pc, pcSubmissionID pc)"

definition NewCrashTracker :: CrashTracker where
  "NewCrashTracker = \<lparr>ctPods = Map.empty\<rparr>"

definition Observe :: "string \<Rightarrow> string \<Rightarrow> string \<Rightarrow> int64 \<Rightarrow> CrashTracker \<Rightarrow> CrashTracker" where
  "Observe podName contestantID submissionID crashes t =
     (if podName = '''' \<or> contestantID = '''' then t
      else t\<lparr>ctPods := (ctPods t)(podName \<mapsto> \<lparr>pcContestantID = contestantID, pcSubmissionID = submissionID, pcCrashes = crashes\<rparr>)\<rparr>)"

text \<open>\<open>Report\<close> ranges over the pods in the order \<open>ks\<close> and over the sums in the order \<open>os\<close>.\<close>

definition add_crash :: "(crashKey \<rightharpoonup> int64) \<Rightarrow> podCrash \<Rightarrow> (crashKey \<rightharpoonup> int64)" where
  "add_crash m pc = m(crash_key pc \<mapsto>
     wrap64 ((case m (crash_key pc) of None \<Rightarrow> 0 | Some n \<Rightarrow> n) + pcCrashes pc))"

definition crash_sums :: "string list \<Rightarrow> CrashTracker \<Rightarrow> (crashKey \<rightharpoonup> int64)" where
  "crash_sums ks t = foldl add_crash Map.empty (range_values ks (ctPods t))"

definition crash_report :: "string list \<Rightarrow> crashKey list \<Rightarrow> CrashTracker \<Rightarrow> CrashCount list" where
  "crash_report ks os t = List.map_filter (\<lambda>k. map_option
     (\<lambda>n. \<lparr>ccContestantID = fst k, ccSubmissionID = snd k, ccCrashes = n\<rparr>) (crash_sums ks t k)) os"

section \<open>Pods\<close>

text \<open>What the runner reads of a pod of the cluster. Phases are strings, as in the Kubernetes API.\<close>

record pod_view =
  pvName :: string
  pvLabels :: "string \<rightharpoonup> string"
  pvPhase :: string
  pvPodIP :: string
  pvConditions :: "(string \<times> string) list"
  pvRestarts :: "int list"

text \<open>The value of a label, empty when it is absent.\<close>

definition label_of :: "pod_view \<Rightarrow> string \<Rightarrow> string" where
  "label_of pod k = (case pvLabels pod k of None \<Rightarrow> '''' | Some v \<Rightarrow> v)"

definition podCrashes :: "pod_view \<Rightarrow> (string \<times> string \<times> int64) option" where
  "podCrashes pod =
     (let cid = label_of pod ''contestant-id'' in
      if cid = '''' then None
      else let sid = label_of pod ''submission-id'';
               restarts = foldl (\<lambda>a c. wrap64 (a + c)) 0 (pvRestarts pod)
           in Some (cid, sid, if pvPhase pod = ''Failed'' \<and> restarts = 0 then 1 else restarts))"

text \<open>The pod a spawn asks for. A quantity is what \<open>resource.MustParse\<close> makes of its text.\<close>

record Config =
  rcNamespace :: string
  rcRuntimeClass :: string
  rcCPURequest :: string
  rcCPULimit :: string
  rcMemoryRequest :: string
  rcMemoryLimit :: string
  rcEphemeralLimit :: string
  rcReadinessTimeout :: duration

record 'q resources =
  rqCPU :: 'q
  rqMemory :: 'q
  rqEphemeral :: 'q

record security_context =
  scAllowPrivilegeEscalation :: bool
  scReadOnlyRootFilesystem :: bool
  scRunAsNonRoot :: bool
  scRunAsUser :: int64
  scDropCapabilities :: "string list"
  scSeccompProfile :: string

record probe =
  prPath :: string
  prPort :: int
  prInitialDelaySeconds :: int
  prPeriodSeconds :: int
  prFailureThreshold :: int

record 'q container =
  coName :: string
  coImage :: string
  coImagePullPolicy :: string
  coPorts :: "(string \<times> int \<times> string) list"
  coRequests :: "'q resources"
  coLimits :: "'q resources"
  coSecurity :: security_context
  coReadiness :: probe

record 'q pod =
  poName :: string
  poNamespace :: string
  poLabels :: "string \<rightharpoonup> string"
  poRuntimeClassName :: "string option"
  poRestartPolicy :: string
  poNodeSelector :: "string \<rightharpoonup> string"
  poContainers :: "'q container list"

definition podName :: "string \<Rightarrow> string" where
  "podName submissionID = ''contestant-'' @ submissionID"

text \<open>\<open>MustParse\<close> panics on a quantity it cannot read: the specification is then \<open>None\<close>.\<close>

definition parse_resources :: "(string \<Rightarrow> 'q option) \<Rightarrow> string \<Rightarrow> string \<Rightarrow> string \<Rightarrow> 'q resources option" where
  "parse_resources parse cpu mem eph = (case (parse cpu, parse mem, parse eph) of
     (Some c, Some m, Some e) \<Rightarrow> Some \<lparr>rqCPU = c, rqMemory = m, rqEphemeral = e\<rparr>
   | _ \<Rightarrow> None)"

definition podSpec :: "(string \<Rightarrow> 'q option) \<Rightarrow> Config \<Rightarrow> string \<Rightarrow> string \<Rightarrow> string \<Rightarrow> int \<Rightarrow> 'q pod option" where
  "podSpec parse cfg submissionID contestantID imageURI runtimePort =
     (case (parse_resources parse (rcCPURequest cfg) (rcMemoryRequest cfg) ''256Mi'',
            parse_resources parse (rcCPULimit cfg) (rcMemoryLimit cfg) (rcEphemeralLimit cfg)) of
        (Some requests, Some limits) \<Rightarrow> Some
          \<lparr>poName = podName submissionID,
           poNamespace = rcNamespace cfg,
           poLabels = [''app'' \<mapsto> ''contestant-pod'', ''submission-id'' \<mapsto> submissionID,
                       ''contestant-id'' \<mapsto> contestantID, ''iicpc.io/pool'' \<mapsto> ''contestants''],
           poRuntimeClassName = (if rcRuntimeClass cfg \<noteq> '''' then Some (rcRuntimeClass cfg) else None),
           poRestartPolicy = ''Never'',
           poNodeSelector = [''iicpc.io/pool'' \<mapsto> ''contestants''],
           poContainers =
             [\<lparr>coName = ''contestant'', coImage = imageURI, coImagePullPolicy = ''IfNotPresent'',
               coPorts = [(''runtime'', runtimePort, ''TCP'')],
               coRequests = requests, coLimits = limits,
               coSecurity = \<lparr>scAllowPrivilegeEscalation = False, scReadOnlyRootFilesystem = True, scRunAsNonRoot = True,
                 scRunAsUser = 65532, scDropCapabilities = [''ALL''], scSeccompProfile = ''RuntimeDefault''\<rparr>,
               coReadiness = \<lparr>prPath = ''/health'', prPort = runtimePort, prInitialDelaySeconds = 2,
                 prPeriodSeconds = 3, prFailureThreshold = 20\<rparr>\<rparr>]\<rparr>
      | _ \<Rightarrow> None)"

section \<open>Operations on pods\<close>

record PodHandle =
  phName :: string
  phPodIP :: string
  phPhase :: string

text \<open>
  The Kubernetes API as the runner calls it, over a cluster state \<open>'w\<close>. A watch yields the events that
  arrive until its channel is closed; an object that is not a pod is \<open>OtherObject\<close>. \<open>KNotFound\<close> is the error
  that \<open>IsNotFound\<close> recognises.
\<close>

datatype k8s_error = KNotFound | KError string

datatype watch_event = WatchError | OtherObject | PodEvent pod_view

record ('q, 'w) k8s =
  kCreate :: "string \<Rightarrow> 'q pod \<Rightarrow> 'w \<Rightarrow> (k8s_error + pod_view) \<times> 'w"
  kWatch :: "string \<Rightarrow> string \<Rightarrow> 'w \<Rightarrow> (k8s_error + watch_event list) \<times> 'w"
  kDelete :: "string \<Rightarrow> string \<Rightarrow> 'w \<Rightarrow> k8s_error option \<times> 'w"
  kGet :: "string \<Rightarrow> string \<Rightarrow> 'w \<Rightarrow> (k8s_error + pod_view) \<times> 'w"

datatype run_error = CreateFailed k8s_error | WatchFailed k8s_error | WatchErrorEvent string
  | TerminatedEarly string string | NotReadyWithin string duration | GetFailed k8s_error

definition isPodReady :: "pod_view \<Rightarrow> bool" where
  "isPodReady pod = list_ex (\<lambda>(t, s). t = ''Ready'' \<and> s = ''True'') (pvConditions pod)"

fun wait_loop :: "duration \<Rightarrow> string \<Rightarrow> watch_event list \<Rightarrow> run_error + string" where
  "wait_loop timeout name [] = Inl (NotReadyWithin name timeout)"
| "wait_loop timeout name (WatchError # es) = Inl (WatchErrorEvent name)"
| "wait_loop timeout name (OtherObject # es) = wait_loop timeout name es"
| "wait_loop timeout name (PodEvent pod # es) =
     (if isPodReady pod then Inr (pvPodIP pod)
      else if pvPhase pod = ''Failed'' \<or> pvPhase pod = ''Succeeded'' then Inl (TerminatedEarly name (pvPhase pod))
      else wait_loop timeout name es)"

definition waitReady :: "('q, 'w) k8s \<Rightarrow> Config \<Rightarrow> string \<Rightarrow> 'w \<Rightarrow> (run_error + string) \<times> 'w" where
  "waitReady api cfg name w = (case kWatch api (rcNamespace cfg) (''metadata.name='' @ name) w of
     (Inl e, w') \<Rightarrow> (Inl (WatchFailed e), w')
   | (Inr es, w') \<Rightarrow> (wait_loop (rcReadinessTimeout cfg) name es, w'))"

text \<open>The outer \<open>None\<close> is the panic of a malformed quantity.\<close>

definition Spawn :: "('q, 'w) k8s \<Rightarrow> (string \<Rightarrow> 'q option) \<Rightarrow> Config \<Rightarrow> string \<Rightarrow> string \<Rightarrow> string \<Rightarrow> int \<Rightarrow> 'w \<Rightarrow> ((run_error + PodHandle) \<times> 'w) option" where
  "Spawn api parse cfg submissionID contestantID imageURI runtimePort w =
     (case podSpec parse cfg submissionID contestantID imageURI runtimePort of None \<Rightarrow> None
      | Some spec \<Rightarrow> Some (case kCreate api (rcNamespace cfg) spec w of
          (Inl e, w1) \<Rightarrow> (Inl (CreateFailed e), w1)
        | (Inr created, w1) \<Rightarrow> (case waitReady api cfg (pvName created) w1 of
            (Inl e, w2) \<Rightarrow> (Inl e, w2)
          | (Inr ip, w2) \<Rightarrow> (Inr \<lparr>phName = pvName created, phPodIP = ip, phPhase = ''Running''\<rparr>, w2))))"

definition Teardown :: "('q, 'w) k8s \<Rightarrow> Config \<Rightarrow> string \<Rightarrow> 'w \<Rightarrow> k8s_error option \<times> 'w" where
  "Teardown api cfg name w = (case kDelete api (rcNamespace cfg) name w of
     (Some KNotFound, w') \<Rightarrow> (None, w') | (e, w') \<Rightarrow> (e, w'))"

definition Status :: "('q, 'w) k8s \<Rightarrow> Config \<Rightarrow> string \<Rightarrow> 'w \<Rightarrow> (run_error + PodHandle) \<times> 'w" where
  "Status api cfg name w = (case kGet api (rcNamespace cfg) name w of
     (Inl e, w') \<Rightarrow> (Inl (GetFailed e), w')
   | (Inr pod, w') \<Rightarrow> (Inr \<lparr>phName = pvName pod, phPodIP = pvPodIP pod, phPhase = pvPhase pod\<rparr>, w'))"

text \<open>One event of the crash watch, and the events of one watch: an error event ends it.\<close>

definition observe_pod :: "CrashTracker \<Rightarrow> pod_view \<Rightarrow> CrashTracker" where
  "observe_pod t pod = (case podCrashes pod of None \<Rightarrow> t
     | Some (cid, sid, crashes) \<Rightarrow> Observe (pvName pod) cid sid crashes t)"

fun watch_loop :: "watch_event list \<Rightarrow> CrashTracker \<Rightarrow> bool \<times> CrashTracker" where
  "watch_loop [] t = (True, t)"
| "watch_loop (WatchError # es) t = (False, t)"
| "watch_loop (OtherObject # es) t = watch_loop es t"
| "watch_loop (PodEvent pod # es) t = watch_loop es (observe_pod t pod)"

text \<open>
  One watch: the cluster's answer, and whether it ended without an error. \<open>WatchCrashes\<close> runs one watch
  after another until its context ends, so that its effect is that of a list of answers.
\<close>

definition watchCrashesOnce :: "k8s_error + watch_event list \<Rightarrow> CrashTracker \<Rightarrow> bool \<times> CrashTracker" where
  "watchCrashesOnce answer t = (case answer of Inl e \<Rightarrow> (False, t) | Inr es \<Rightarrow> watch_loop es t)"

definition WatchCrashes :: "(k8s_error + watch_event list) list \<Rightarrow> CrashTracker \<Rightarrow> CrashTracker" where
  "WatchCrashes answers t = foldl (\<lambda>t a. snd (watchCrashesOnce a t)) t answers"

section \<open>The service\<close>

datatype SandboxPhase = SANDBOX_PHASE_UNSPECIFIED | SANDBOX_PHASE_PENDING | SANDBOX_PHASE_RUNNING
  | SANDBOX_PHASE_SUCCEEDED | SANDBOX_PHASE_FAILED

definition toProtoPhase :: "string \<Rightarrow> SandboxPhase" where
  "toProtoPhase p =
     (if p = ''Pending'' then SANDBOX_PHASE_PENDING
      else if p = ''Running'' then SANDBOX_PHASE_RUNNING
      else if p = ''Succeeded'' then SANDBOX_PHASE_SUCCEEDED
      else if p = ''Failed'' then SANDBOX_PHASE_FAILED
      else SANDBOX_PHASE_UNSPECIFIED)"

record RunSandboxRequest =
  rrSubmissionId :: string
  rrContestantId :: string
  rrImageUri :: string
  rrRuntimePort :: int

record RunSandboxResponse =
  rsRunId :: string
  rsPodIp :: string
  rsRuntimePort :: int
  rsPhase :: SandboxPhase

record GetSandboxStatusResponse =
  gsRunId :: string
  gsPodIp :: string
  gsPhase :: SandboxPhase

datatype rpc_error = InvalidArgument string | Internal run_error | TeardownFailed k8s_error

definition RunSandbox :: "('q, 'w) k8s \<Rightarrow> (string \<Rightarrow> 'q option) \<Rightarrow> Config \<Rightarrow> RunSandboxRequest \<Rightarrow> 'w \<Rightarrow> ((rpc_error + RunSandboxResponse) \<times> 'w) option" where
  "RunSandbox api parse cfg req w =
     (if rrSubmissionId req = '''' then Some (Inl (InvalidArgument ''submission_id required''), w)
      else if rrImageUri req = '''' then Some (Inl (InvalidArgument ''image_uri required''), w)
      else let port = (if rrRuntimePort req = 0 then 9100 else rrRuntimePort req)
           in map_option (\<lambda>(res, w'). (case res of Inl e \<Rightarrow> Inl (Internal e)
                | Inr h \<Rightarrow> Inr \<lparr>rsRunId = phName h, rsPodIp = phPodIP h, rsRuntimePort = port, rsPhase = toProtoPhase (phPhase h)\<rparr>, w'))
              (Spawn api parse cfg (rrSubmissionId req) (rrContestantId req) (rrImageUri req) port w))"

definition StopSandbox :: "('q, 'w) k8s \<Rightarrow> Config \<Rightarrow> string \<Rightarrow> 'w \<Rightarrow> (rpc_error + bool) \<times> 'w" where
  "StopSandbox api cfg runId w =
     (if runId = '''' then (Inl (InvalidArgument ''run_id required''), w)
      else case Teardown api cfg runId w of (Some e, w') \<Rightarrow> (Inl (TeardownFailed e), w') | (None, w') \<Rightarrow> (Inr True, w'))"

definition GetSandboxStatus :: "('q, 'w) k8s \<Rightarrow> Config \<Rightarrow> string \<Rightarrow> 'w \<Rightarrow> (rpc_error + GetSandboxStatusResponse) \<times> 'w" where
  "GetSandboxStatus api cfg runId w =
     (if runId = '''' then (Inl (InvalidArgument ''run_id required''), w)
      else case Status api cfg runId w of (Inl e, w') \<Rightarrow> (Inl (Internal e), w')
        | (Inr h, w') \<Rightarrow> (Inr \<lparr>gsRunId = phName h, gsPodIp = phPodIP h, gsPhase = toProtoPhase (phPhase h)\<rparr>, w'))"

text \<open>The configuration of \<open>main\<close>; \<open>ParseDuration\<close> is a parameter, and a duration it cannot read panics.\<close>

definition sandbox_config :: "(string \<Rightarrow> duration option) \<Rightarrow> (string \<Rightarrow> string) \<Rightarrow> Config option" where
  "sandbox_config parse_duration env = map_option (\<lambda>d.
     \<lparr>rcNamespace = envOr env ''K8S_NAMESPACE'' ''iicpc-contestants'', rcRuntimeClass = envOr env ''RUNTIME_CLASS'' ''gvisor'',
      rcCPURequest = envOr env ''CPU_REQUEST'' ''1'', rcCPULimit = envOr env ''CPU_LIMIT'' ''1'',
      rcMemoryRequest = envOr env ''MEMORY_REQUEST'' ''512Mi'', rcMemoryLimit = envOr env ''MEMORY_LIMIT'' ''512Mi'',
      rcEphemeralLimit = envOr env ''EPHEMERAL_LIMIT'' ''2Gi'', rcReadinessTimeout = d\<rparr>)
     (parse_duration (envOr env ''READINESS_TIMEOUT'' ''60s''))"

section \<open>What a watch has seen\<close>

fun seen_pods :: "watch_event list \<Rightarrow> pod_view list" where
  "seen_pods [] = []"
| "seen_pods (WatchError # es) = []"
| "seen_pods (OtherObject # es) = seen_pods es"
| "seen_pods (PodEvent pod # es) = pod # seen_pods es"

definition all_seen :: "(k8s_error + watch_event list) list \<Rightarrow> pod_view list" where
  "all_seen answers = concat (map (\<lambda>a. case a of Inl e \<Rightarrow> [] | Inr es \<Rightarrow> seen_pods es) answers)"

lemma watch_loop_seen: "snd (watch_loop es t) = foldl observe_pod t (seen_pods es)"
  by (induction es t rule: watch_loop.induct) auto

lemma WatchCrashes_seen: "WatchCrashes answers t = foldl observe_pod t (all_seen answers)"
proof (induction answers arbitrary: t)
  case (Cons a answers)
  have "snd (watchCrashesOnce a t) = foldl observe_pod t (case a of Inl e \<Rightarrow> [] | Inr es \<Rightarrow> seen_pods es)"
    by (cases a) (simp_all add: watchCrashesOnce_def watch_loop_seen)
  with Cons [of "snd (watchCrashesOnce a t)"] show ?case by (simp add: WatchCrashes_def all_seen_def)
qed (simp add: WatchCrashes_def all_seen_def)

text \<open>The pod an event is about, when it is tracked, and what is kept of it.\<close>

definition tracked_name :: "pod_view \<Rightarrow> string option" where
  "tracked_name pod = (if pvName pod = '''' \<or> label_of pod ''contestant-id'' = '''' then None else Some (pvName pod))"

definition crash_count :: "pod_view \<Rightarrow> int64" where
  "crash_count pod = (let n = wrap64 (sum_list (pvRestarts pod)) in if pvPhase pod = ''Failed'' \<and> n = 0 then 1 else n)"

definition pod_crash :: "pod_view \<Rightarrow> podCrash" where
  "pod_crash pod = \<lparr>pcContestantID = label_of pod ''contestant-id'', pcSubmissionID = label_of pod ''submission-id'',
     pcCrashes = crash_count pod\<rparr>"

lemma restarts_sum: "in_int64 a \<Longrightarrow> foldl (\<lambda>a c. wrap64 (a + c)) a cs = wrap64 (a + sum_list cs)"
proof (induction cs arbitrary: a)
  case (Cons c cs)
  then show ?case by (simp add: add.assoc)
qed simp

lemma observe_pod_eq:
  "observe_pod t pod = (case tracked_name pod of None \<Rightarrow> t | Some n \<Rightarrow> t\<lparr>ctPods := (ctPods t)(n \<mapsto> pod_crash pod)\<rparr>)"
  by (simp add: observe_pod_def podCrashes_def Observe_def tracked_name_def pod_crash_def crash_count_def restarts_sum Let_def)

interpretation ct: keyed_state observe_pod "\<lambda>t n. ctPods t n" tracked_name "\<lambda>_ pod. Some (pod_crash pod)"
  by unfold_locales (auto simp: observe_pod_eq split: option.splits)

text \<open>The latest tracked event of a pod.\<close>

definition latest_pod :: "pod_view list \<Rightarrow> string \<Rightarrow> pod_view option" where
  "latest_pod pods n = find (\<lambda>p. tracked_name p = Some n) (rev pods)"

lemma foldl_last: "foldl (\<lambda>_ x. Some (f x)) None xs = map_option f (find (\<lambda>_. True) (rev xs))"
  by (induction xs rule: rev_induct) auto

lemma find_filter: "find (\<lambda>_. True) (filter P xs) = find P xs"
  by (induction xs) auto

lemma tracker_pods: "ctPods (WatchCrashes answers NewCrashTracker) n = map_option pod_crash (latest_pod (all_seen answers) n)"
  using ct.run_at [of NewCrashTracker "all_seen answers" n]
  by (simp add: WatchCrashes_seen NewCrashTracker_def foldl_last latest_pod_def find_filter rev_filter)

section \<open>Sums\<close>

lemma crash_sums_fold:
  "foldl add_crash m pcs k = (let own = filter (\<lambda>pc. crash_key pc = k) pcs in if own = [] then m k
     else Some (wrap64 ((case m k of None \<Rightarrow> 0 | Some n \<Rightarrow> n) + sum_list (map pcCrashes own))))"
proof (induction pcs arbitrary: m)
  case (Cons pc pcs)
  have "add_crash m pc k = (if crash_key pc = k then Some (wrap64 ((case m k of None \<Rightarrow> 0 | Some n \<Rightarrow> n) + pcCrashes pc)) else m k)"
    by (simp add: add_crash_def)
  then show ?case by (cases "crash_key pc = k") (simp_all add: Cons Let_def add.assoc)
qed simp

lemma range_values_filter:
  "distinct ks \<Longrightarrow> sum_list (map f (filter P (range_values ks m))) = (\<Sum>k | k \<in> set ks \<and> (\<exists>v. m k = Some v \<and> P v). f (the (m k)))"
proof (induction ks)
  case (Cons k ks)
  have "{x. (x = k \<or> x \<in> set ks) \<and> (\<exists>v. m x = Some v \<and> P v)} =
      (if \<exists>v. m k = Some v \<and> P v then {k} else {}) \<union> {x. x \<in> set ks \<and> (\<exists>v. m x = Some v \<and> P v)}" by auto
  with Cons show ?case by (auto split: option.splits)
qed simp

lemma range_values_filter_Nil: "filter P (range_values ks m) = [] \<longleftrightarrow> (\<forall>k \<in> set ks. \<forall>v. m k = Some v \<longrightarrow> \<not> P v)"
  by (induction ks) (simp_all, auto split: option.splits)

definition pods_of :: "CrashTracker \<Rightarrow> crashKey \<Rightarrow> string set" where
  "pods_of t k = {n. \<exists>pc. ctPods t n = Some pc \<and> crash_key pc = k}"

lemma crash_sums_eq:
  assumes "enumerates ks (ctPods t)"
  shows "crash_sums ks t k = (if pods_of t k = {} then None
     else Some (wrap64 (\<Sum>n \<in> pods_of t k. pcCrashes (the (ctPods t n)))))"
proof -
  have d: "distinct ks" "set ks = dom (ctPods t)" using assms by (simp_all add: enumerates_def)
  then have "{n. n \<in> set ks \<and> (\<exists>v. ctPods t n = Some v \<and> crash_key v = k)} = pods_of t k" by (auto simp: pods_of_def)
  moreover have "filter (\<lambda>pc. crash_key pc = k) (range_values ks (ctPods t)) = [] \<longleftrightarrow> pods_of t k = {}"
    using d(2) by (auto simp: range_values_filter_Nil pods_of_def)
  ultimately show ?thesis
    using range_values_filter [OF d(1), where f = pcCrashes and P = "\<lambda>pc. crash_key pc = k" and m = "ctPods t"]
    by (simp add: crash_sums_def crash_sums_fold Let_def)
qed

lemma crash_report_keys:
  assumes "enumerates os (crash_sums ks t)"
  shows "map (\<lambda>r. (ccContestantID r, ccSubmissionID r)) (crash_report ks os t) = os"
proof -
  have "List.map_filter (\<lambda>k. map_option (\<lambda>n. \<lparr>ccContestantID = fst k, ccSubmissionID = snd k, ccCrashes = n\<rparr>) (m k)) xs =
      map (\<lambda>k. \<lparr>ccContestantID = fst k, ccSubmissionID = snd k, ccCrashes = the (m k)\<rparr>) xs"
    if "set xs \<subseteq> dom m" for m :: "crashKey \<rightharpoonup> int64" and xs
    using that by (induction xs) (auto simp: map_filter_simps)
  moreover have "set os \<subseteq> dom (crash_sums ks t)" using assms by (simp add: enumerates_def)
  ultimately show ?thesis by (simp add: crash_report_def comp_def)
qed

lemma crash_report_mem:
  assumes "enumerates os (crash_sums ks t)"
  shows "\<lparr>ccContestantID = c, ccSubmissionID = s, ccCrashes = n\<rparr> \<in> set (crash_report ks os t) \<longleftrightarrow> crash_sums ks t (c, s) = Some n"
proof -
  have "set os = dom (crash_sums ks t)" using assms by (simp add: enumerates_def)
  then show ?thesis by (force simp: crash_report_def map_filter_def)
qed

section \<open>Spawning\<close>

text \<open>What the specification promises of the sandbox.\<close>

definition hardened :: "'q pod \<Rightarrow> bool" where
  "hardened spec \<longleftrightarrow> poRestartPolicy spec = ''Never'' \<and> poNodeSelector spec ''iicpc.io/pool'' = Some ''contestants''
     \<and> list_all (\<lambda>c. \<not> scAllowPrivilegeEscalation (coSecurity c) \<and> scReadOnlyRootFilesystem (coSecurity c)
          \<and> scRunAsNonRoot (coSecurity c) \<and> scRunAsUser (coSecurity c) \<noteq> 0
          \<and> scDropCapabilities (coSecurity c) = [''ALL''] \<and> scSeccompProfile (coSecurity c) = ''RuntimeDefault'') (poContainers spec)"

lemma podSpec_facts:
  assumes "podSpec parse cfg sid cid img port = Some spec"
  shows "hardened spec" "poName spec = podName sid" "poNamespace spec = rcNamespace cfg"
    "poLabels spec ''contestant-id'' = Some cid" "poLabels spec ''submission-id'' = Some sid" "poLabels spec ''app'' = Some ''contestant-pod''"
    "map coImage (poContainers spec) = [img]" "rcRuntimeClass cfg \<noteq> [] \<Longrightarrow> poRuntimeClassName spec = Some (rcRuntimeClass cfg)"
  using assms by (auto simp: podSpec_def hardened_def split: option.splits)

lemma podSpec_panics_iff:
  "podSpec parse cfg sid cid img port = None \<longleftrightarrow>
     None \<in> parse ` {rcCPURequest cfg, rcMemoryRequest cfg, ''256Mi'', rcCPULimit cfg, rcMemoryLimit cfg, rcEphemeralLimit cfg}"
  by (auto simp: podSpec_def parse_resources_def split: option.splits)

lemma wait_loop_ready:
  "wait_loop timeout name es = Inr ip \<Longrightarrow>
     \<exists>i < length es. \<exists>pod. es ! i = PodEvent pod \<and> isPodReady pod \<and> pvPodIP pod = ip
       \<and> (\<forall>j < i. es ! j \<noteq> WatchError \<and> (\<forall>p. es ! j = PodEvent p \<longrightarrow> pvPhase p \<notin> {''Failed'', ''Succeeded''}))"
proof (induction es)
  case (Cons e es)
  have step: ?case if *: "wait_loop timeout name es = Inr ip" "e \<noteq> WatchError" "\<forall>p. e = PodEvent p \<longrightarrow> pvPhase p \<notin> {''Failed'', ''Succeeded''}"
  proof -
    from Cons.IH [OF *(1)] obtain i pod where i: "i < length es" "es ! i = PodEvent pod" "isPodReady pod" "pvPodIP pod = ip"
      "\<forall>j < i. es ! j \<noteq> WatchError \<and> (\<forall>p. es ! j = PodEvent p \<longrightarrow> pvPhase p \<notin> {''Failed'', ''Succeeded''})" by blast
    then show ?thesis using *(2,3) by (intro exI [of _ "Suc i"]) (auto simp: less_Suc_eq_0_disj)
  qed
  show ?case
  proof (cases e)
    case WatchError then show ?thesis using Cons.prems by simp
  next
    case OtherObject then show ?thesis using Cons.prems by (intro step) auto
  next
    case (PodEvent pod)
    show ?thesis
    proof (cases "isPodReady pod")
      case True
      then show ?thesis using Cons.prems PodEvent by (intro exI [of _ 0]) auto
    next
      case False
      then show ?thesis using Cons.prems PodEvent by (intro step) (auto split: if_splits)
    qed
  qed
qed simp

lemma Spawn_Inr:
  assumes "Spawn api parse cfg sid cid img port w = Some (Inr h, w')"
  shows "\<exists>spec created w1 es. podSpec parse cfg sid cid img port = Some spec \<and> kCreate api (rcNamespace cfg) spec w = (Inr created, w1)
     \<and> kWatch api (rcNamespace cfg) (''metadata.name='' @ pvName created) w1 = (Inr es, w')
     \<and> wait_loop (rcReadinessTimeout cfg) (pvName created) es = Inr (phPodIP h) \<and> phName h = pvName created \<and> phPhase h = ''Running''"
  using assms by (auto simp: Spawn_def waitReady_def split: option.splits prod.splits sum.splits)

lemma RunSandbox_Inr:
  assumes "RunSandbox api parse cfg req w = Some (Inr resp, w')" and port: "port = (if rrRuntimePort req = 0 then 9100 else rrRuntimePort req)"
  shows "\<exists>h. Spawn api parse cfg (rrSubmissionId req) (rrContestantId req) (rrImageUri req) port w = Some (Inr h, w')
     \<and> resp = \<lparr>rsRunId = phName h, rsPodIp = phPodIP h, rsRuntimePort = port, rsPhase = toProtoPhase (phPhase h)\<rparr>"
proof -
  from assms(1) obtain res where res: "Spawn api parse cfg (rrSubmissionId req) (rrContestantId req) (rrImageUri req) port w = Some (res, w')"
    "(case res of Inl e \<Rightarrow> Inl (Internal e) | Inr h \<Rightarrow> Inr \<lparr>rsRunId = phName h, rsPodIp = phPodIP h, rsRuntimePort = port,
        rsPhase = toProtoPhase (phPhase h)\<rparr>) = Inr resp"
    unfolding RunSandbox_def Let_def port [symmetric] by (auto split: if_splits)
  then show ?thesis by (cases res) auto
qed

section \<open>Properties\<close>

text \<open>However many watches were needed, the crash report has one row for each contestant and
  submission with a tracked pod, and its count is the sum, over the pods of that submission, of the crash
  count of the latest event seen of the pod.\<close>

theorem crashes_summed_over_latest_pods:
  assumes "t = WatchCrashes answers NewCrashTracker" "enumerates ks (ctPods t)" "enumerates os (crash_sums ks t)"
  shows "distinct (map (\<lambda>r. (ccContestantID r, ccSubmissionID r)) (crash_report ks os t))
     \<and> (\<forall>c s n. \<lparr>ccContestantID = c, ccSubmissionID = s, ccCrashes = n\<rparr> \<in> set (crash_report ks os t) \<longleftrightarrow>
          (let own = {name. \<exists>pod. latest_pod (all_seen answers) name = Some pod
                 \<and> label_of pod ''contestant-id'' = c \<and> label_of pod ''submission-id'' = s}
           in own \<noteq> {} \<and> n = wrap64 (\<Sum>name \<in> own. crash_count (the (latest_pod (all_seen answers) name)))))"
proof -
  have own: "pods_of t (c, s) = {name. \<exists>pod. latest_pod (all_seen answers) name = Some pod
      \<and> label_of pod ''contestant-id'' = c \<and> label_of pod ''submission-id'' = s}" for c s
    by (auto simp: pods_of_def assms(1) tracker_pods crash_key_def pod_crash_def)
  have "(\<Sum>n \<in> pods_of t k. pcCrashes (the (ctPods t n))) = (\<Sum>n \<in> pods_of t k. crash_count (the (latest_pod (all_seen answers) n)))" for k
    by (rule sum.cong) (auto simp: pods_of_def assms(1) tracker_pods pod_crash_def)
  then have "crash_sums ks t (c, s) = Some n \<longleftrightarrow> pods_of t (c, s) \<noteq> {}
      \<and> n = wrap64 (\<Sum>n \<in> pods_of t (c, s). crash_count (the (latest_pod (all_seen answers) n)))" for c s n
    by (auto simp: crash_sums_eq [OF assms(2)])
  then show ?thesis using crash_report_mem [OF assms(3)] crash_report_keys [OF assms(3)] assms(3) own
    by (simp add: Let_def enumerates_def)
qed

definition pod_event :: "string \<Rightarrow> string \<Rightarrow> string \<Rightarrow> int list \<Rightarrow> watch_event" where
  "pod_event name sid phase rs = PodEvent \<lparr>pvName = name, pvLabels = [''contestant-id'' \<mapsto> ''alice'', ''submission-id'' \<mapsto> sid],
     pvPhase = phase, pvPodIP = ''10.0.0.7'', pvConditions = [(''Ready'', ''True'')], pvRestarts = rs\<rparr>"

definition crash_history :: "(k8s_error + watch_event list) list" where
  "crash_history = [Inr [pod_event ''p1'' ''s1'' ''Running'' [0], pod_event ''p2'' ''s1'' ''Running'' [2]],
     Inl (KError ''reset''), Inr [pod_event ''p1'' ''s1'' ''Failed'' [0], WatchError]]"

theorem crashes_summed_over_latest_pods_witness:
  "\<lparr>ccContestantID = ''alice'', ccSubmissionID = ''s1'', ccCrashes = 3\<rparr> \<in>
     set (crash_report [''p2'', ''p1''] [(''alice'', ''s1'')] (WatchCrashes crash_history NewCrashTracker))
   \<and> distinct (map (\<lambda>r. (ccContestantID r, ccSubmissionID r))
       (crash_report [''p2'', ''p1''] [(''alice'', ''s1'')] (WatchCrashes crash_history NewCrashTracker)))"
proof -
  let ?t = "WatchCrashes crash_history NewCrashTracker"
  have t: "ctPods ?t = [''p1'' \<mapsto> \<lparr>pcContestantID = ''alice'', pcSubmissionID = ''s1'', pcCrashes = 1\<rparr>,
      ''p2'' \<mapsto> \<lparr>pcContestantID = ''alice'', pcSubmissionID = ''s1'', pcCrashes = 2\<rparr>]"
    by (rule ext) (simp add: crash_history_def WatchCrashes_def watchCrashesOnce_def pod_event_def observe_pod_eq tracked_name_def
        label_of_def pod_crash_def crash_count_def NewCrashTracker_def wrap64_def)
  have ks: "enumerates [''p2'', ''p1''] (ctPods ?t)" by (auto simp: enumerates_def t)
  have sum: "crash_sums [''p2'', ''p1''] ?t = [(''alice'', ''s1'') \<mapsto> 3]"
    by (simp add: crash_sums_def t add_crash_def crash_key_def wrap64_def)
  have os: "enumerates [(''alice'', ''s1'')] (crash_sums [''p2'', ''p1''] ?t)" by (simp add: sum enumerates_def)
  have "\<lparr>ccContestantID = ''alice'', ccSubmissionID = ''s1'', ccCrashes = 3\<rparr> \<in> set (crash_report [''p2'', ''p1''] [(''alice'', ''s1'')] ?t)"
    unfolding crash_report_mem [OF os] by (simp add: sum)
  with crashes_summed_over_latest_pods [OF refl ks os] show ?thesis by blast
qed

text \<open>C30: A sandbox that is reported as running was asked for with the hardened specification, under the name
  and the labels of its submission, and was seen ready at the address that is answered, with no
  termination before.\<close>

theorem RunSandbox_starts_hardened_ready_pod:
  assumes "RunSandbox api parse cfg req w = Some (Inr resp, w')"
  shows "\<exists>spec created w1 es i pod. hardened spec \<and> poName spec = podName (rrSubmissionId req)
     \<and> poLabels spec ''contestant-id'' = Some (rrContestantId req) \<and> poLabels spec ''submission-id'' = Some (rrSubmissionId req)
     \<and> map coImage (poContainers spec) = [rrImageUri req]
     \<and> kCreate api (rcNamespace cfg) spec w = (Inr created, w1)
     \<and> kWatch api (rcNamespace cfg) (''metadata.name='' @ pvName created) w1 = (Inr es, w')
     \<and> i < length es \<and> es ! i = PodEvent pod \<and> isPodReady pod
     \<and> (\<forall>j < i. \<forall>p. es ! j = PodEvent p \<longrightarrow> pvPhase p \<notin> {''Failed'', ''Succeeded''})
     \<and> rsRunId resp = pvName created \<and> rsPodIp resp = pvPodIP pod \<and> rsPhase resp = SANDBOX_PHASE_RUNNING \<and> rsRuntimePort resp \<noteq> 0"
proof -
  let ?port = "if rrRuntimePort req = 0 then 9100 else rrRuntimePort req"
  from RunSandbox_Inr [OF assms refl] obtain h where h: "Spawn api parse cfg (rrSubmissionId req) (rrContestantId req) (rrImageUri req) ?port w = Some (Inr h, w')"
    "resp = \<lparr>rsRunId = phName h, rsPodIp = phPodIP h, rsRuntimePort = ?port, rsPhase = toProtoPhase (phPhase h)\<rparr>" by blast
  from Spawn_Inr [OF h(1)] obtain spec created w1 es where s: "podSpec parse cfg (rrSubmissionId req) (rrContestantId req) (rrImageUri req) ?port = Some spec"
    "kCreate api (rcNamespace cfg) spec w = (Inr created, w1)" "kWatch api (rcNamespace cfg) (''metadata.name='' @ pvName created) w1 = (Inr es, w')"
    "wait_loop (rcReadinessTimeout cfg) (pvName created) es = Inr (phPodIP h)" "phName h = pvName created" "phPhase h = ''Running''" by blast
  from wait_loop_ready [OF s(4)] obtain i pod where "i < length es" "es ! i = PodEvent pod" "isPodReady pod" "pvPodIP pod = phPodIP h"
    "\<forall>j < i. \<forall>p. es ! j = PodEvent p \<longrightarrow> pvPhase p \<notin> {''Failed'', ''Succeeded''}" by blast
  with podSpec_facts [OF s(1)] s(2,3,5,6) h(2) show ?thesis
    by (intro exI [of _ spec] exI [of _ created] exI [of _ w1] exI [of _ es] exI [of _ i] exI [of _ pod]) (simp add: toProtoPhase_def)
qed

definition fake_api :: "(string, nat) k8s" where
  "fake_api = \<lparr>kCreate = (\<lambda>ns spec w. (Inr \<lparr>pvName = poName spec, pvLabels = poLabels spec, pvPhase = ''Pending'', pvPodIP = [],
        pvConditions = [], pvRestarts = []\<rparr>, Suc w)),
     kWatch = (\<lambda>ns sel w. (Inr [OtherObject, pod_event ''contestant-s1'' ''s1'' ''Running'' [0]], w)),
     kDelete = (\<lambda>ns name w. (Some KNotFound, w)), kGet = (\<lambda>ns name w. (Inl KNotFound, w))\<rparr>"

definition fake_config :: Config where
  "fake_config = the (sandbox_config (\<lambda>_. Some (60 * Second)) (\<lambda>_. []))"

definition fake_request :: RunSandboxRequest where
  "fake_request = \<lparr>rrSubmissionId = ''s1'', rrContestantId = ''alice'', rrImageUri = ''img'', rrRuntimePort = 0\<rparr>"

theorem RunSandbox_starts_hardened_ready_pod_witness:
  "\<exists>resp spec. RunSandbox fake_api Some fake_config fake_request 0 = Some (Inr resp, 1) \<and> hardened (spec :: string pod)
     \<and> poName spec = podName ''s1'' \<and> rsPhase resp = SANDBOX_PHASE_RUNNING"
proof -
  let ?r = "\<lparr>rsRunId = ''contestant-s1'', rsPodIp = ''10.0.0.7'', rsRuntimePort = 9100, rsPhase = SANDBOX_PHASE_RUNNING\<rparr>"
  have "RunSandbox fake_api Some fake_config fake_request 0 = Some (Inr ?r, 1)"
    by (simp add: RunSandbox_def fake_request_def Spawn_def podSpec_def parse_resources_def fake_api_def waitReady_def
        pod_event_def isPodReady_def podName_def toProtoPhase_def)
  with RunSandbox_starts_hardened_ready_pod [OF this] show ?thesis by (fastforce simp: fake_request_def)
qed

text \<open>
  A pod that carries the labels of its specification is counted for the contestant and the submission it
  was spawned for; with an empty contestant, which the service accepts, it is not counted at all.
\<close>

theorem spawned_pod_crashes_are_its_submissions:
  assumes "podSpec parse cfg sid cid img port = Some spec" "pvLabels pod = poLabels spec"
  shows "podCrashes pod = (if cid = [] then None else Some (cid, sid, crash_count pod))"
  using podSpec_facts [OF assms(1)] assms(2)
  by (simp add: podCrashes_def label_of_def crash_count_def restarts_sum Let_def)

text \<open>Stopping a sandbox that is already gone succeeds; names of distinct submissions are distinct.\<close>

lemma StopSandbox_gone:
  "runId \<noteq> [] \<Longrightarrow> kDelete api (rcNamespace cfg) runId w = (Some KNotFound, w') \<Longrightarrow> StopSandbox api cfg runId w = (Inr True, w')"
  by (simp add: StopSandbox_def Teardown_def)

lemma podName_inject: "podName a = podName b \<longleftrightarrow> a = b"
  by (simp add: podName_def)

end
