(* ===== verification/Submission.thy ===== *)
theory Submission
  imports SubmissionStore BuildLog Archive GoChan Sandbox
begin

text \<open>
  The submission service: validation, the build queue, the stub builder and the image builder
  (\<open>submission-svc/internal/validation\<close>, \<open>internal/build\<close>, \<open>internal/sandbox\<close>), and the HTTP handlers
  (\<open>internal/server\<close>, \<open>internal/httpx\<close>). Commands, object storage and the scanner are parameters that answer with an
  error or not. The lemmas follow a submission from its upload to the image and the sandbox.
\<close>

section \<open>Validation\<close>

datatype validation_error = ErrUnsupportedLanguage | ErrEmptyEntrypoint | ErrInvalidEntrypoint | ErrEmptyContestantID

fun contains_dotdot :: "string \<Rightarrow> bool" where
  "contains_dotdot (a # b # s) = (a = CHR ''.'' \<and> b = CHR ''.'' \<or> contains_dotdot (b # s))"
| "contains_dotdot _ = False"

definition ValidateRequest :: "string \<Rightarrow> string \<Rightarrow> string \<Rightarrow> validation_error option" where
  "ValidateRequest contestantID entrypoint lang =
     (if TrimSpace contestantID = '''' then Some ErrEmptyContestantID
      else if \<not> lang_Valid lang then Some ErrUnsupportedLanguage
      else let ep = TrimSpace entrypoint in
           if ep = '''' then Some ErrEmptyEntrypoint
           else if contains_dotdot ep then Some ErrInvalidEntrypoint else None)"

section \<open>The build queue\<close>

definition new_queue :: "string chan" where
  "new_queue = make_chan 64"

text \<open>\<open>True\<close> when the job was taken, \<open>False\<close> for \<open>ErrQueueFull\<close>.\<close>

definition Enqueue :: "string \<Rightarrow> string chan \<Rightarrow> string chan \<times> bool" where
  "Enqueue submissionID q = (case try_send q submissionID of Sent q' \<Rightarrow> (q', True) | _ \<Rightarrow> (q, False))"

definition Dequeue :: "string chan \<Rightarrow> (string \<times> string chan) option" where
  "Dequeue q = (case chan_recv q of Received j q' \<Rightarrow> Some (j, q') | _ \<Rightarrow> None)"

section \<open>Builders\<close>

text \<open>
  A builder acts on the repository and calls the sandbox: a call is the triple of submission, contestant and image it is given.
\<close>

type_synonym sandbox_call = "string \<times> string \<times> string"

definition stub_image :: "string \<Rightarrow> string" where
  "stub_image i = ''localhost:5000/contestants/'' @ i @ '':latest''"

definition stub_process :: "'s Repository \<Rightarrow> bool \<Rightarrow> instant \<Rightarrow> instant \<Rightarrow> string \<Rightarrow> 's \<Rightarrow> 's \<times> sandbox_call list" where
  "stub_process repo has_sandbox t1 t2 i s = (case rpGet repo i s of None \<Rightarrow> (s, [])
     | Some sub \<Rightarrow> (case rpUpdateStatus repo t1 i StatusBuilding '''' '''' s of
         (Some e, s1) \<Rightarrow> (s1, [])
       | (None, s1) \<Rightarrow> (case rpUpdateStatus repo t2 i StatusReady (stub_image i) '''' s1 of
           (Some e, s2) \<Rightarrow> (s2, [])
         | (None, s2) \<Rightarrow> (s2, if has_sandbox then [(i, sbContestantID sub, stub_image i)] else []))))"

record BuildKit =
  bkSandboxImageDir :: string
  bkRegistryAddr :: string
  bkImageRepoPrefix :: string
  bkBuildTimeout :: duration
  bkPushAttempts :: int
  bkMaxExtractBytes :: int64
  bkMaxFileBytes :: int64

definition NewBuildKit :: "BuildKit \<Rightarrow> BuildKit" where
  "NewBuildKit cfg =
     cfg\<lparr>bkBuildTimeout := (if bkBuildTimeout cfg = 0 then 300 * Second else bkBuildTimeout cfg),
         bkImageRepoPrefix := (if bkImageRepoPrefix cfg = '''' then ''contestants'' else bkImageRepoPrefix cfg),
         bkPushAttempts := (if bkPushAttempts cfg = 0 then 3 else bkPushAttempts cfg),
         bkMaxExtractBytes := (if bkMaxExtractBytes cfg = 0 then 500 * 1024 * 1024 else bkMaxExtractBytes cfg),
         bkMaxFileBytes := (if bkMaxFileBytes cfg = 0 then 100 * 1024 * 1024 else bkMaxFileBytes cfg)\<rparr>"

definition dockerfileFor :: "BuildKit \<Rightarrow> string \<Rightarrow> string option" where
  "dockerfileFor b lang =
     (let name = (if lang = ''go'' then Some ''Dockerfile.go'' else if lang = ''rust'' then Some ''Dockerfile.rust''
                  else if lang = ''cpp'' then Some ''Dockerfile.cpp'' else None)
      in map_option (\<lambda>n. if bkSandboxImageDir b = '''' then Clean n else path_Join (bkSandboxImageDir b) n) name)"

text \<open>
  The push: the \<open>k\<close>-th attempt answers with an error or not, \<open>ctx_over k\<close> says whether the context had ended
  when it failed, and \<open>waited k\<close> is the context's error if it ends during the pause. The pauses are part of the result.
\<close>

function push_loop :: "(int \<Rightarrow> string option) \<Rightarrow> (int \<Rightarrow> bool) \<Rightarrow> (int \<Rightarrow> string option) \<Rightarrow> int \<Rightarrow> int \<Rightarrow> duration \<Rightarrow> string option \<Rightarrow> string option \<times> duration list" where
  "push_loop cmd ctx_over waited attempts attempt backoff last_err =
     (if attempts < attempt then (last_err, [])
      else case cmd attempt of None \<Rightarrow> (None, [])
        | Some e \<Rightarrow>
            if ctx_over attempt then (Some e, [])
            else if attempt = attempts then (Some e, [])
            else case waited attempt of Some ce \<Rightarrow> (Some ce, [backoff])
              | None \<Rightarrow> (case push_loop cmd ctx_over waited attempts (attempt + 1) (wrap64 (backoff * 2)) (Some e) of
                  (r, ws) \<Rightarrow> (r, backoff # ws)))"
  by pat_completeness auto
termination
  by (relation "measure (\<lambda>(cmd, co, w, attempts, attempt, b, l). nat (attempts + 1 - attempt))") auto

declare push_loop.simps [simp del]

definition pushWithRetry :: "BuildKit \<Rightarrow> (int \<Rightarrow> string option) \<Rightarrow> (int \<Rightarrow> bool) \<Rightarrow> (int \<Rightarrow> string option) \<Rightarrow> string option \<times> duration list" where
  "pushWithRetry b cmd ctx_over waited = push_loop cmd ctx_over waited (bkPushAttempts b) 1 Second None"

text \<open>
  What a build meets: the temporary directories, fetching the source, the build command, the pushes
  and the scan, which is \<open>None\<close> when no scanner is configured.
\<close>

record build_env =
  beTemp :: "string option"
  beSrcDir :: "string option"
  beFetch :: "string \<Rightarrow> string option"
  beBuild :: "string list \<Rightarrow> string option"
  bePush :: "string \<Rightarrow> int \<Rightarrow> string option"
  beCtxOver :: "int \<Rightarrow> bool"
  beWaited :: "int \<Rightarrow> string option"
  beScan :: "(string \<Rightarrow> string option) option"
  beWorkDir :: string

definition image_ref :: "BuildKit \<Rightarrow> string \<Rightarrow> string" where
  "image_ref b i = bkRegistryAddr b @ ''/'' @ bkImageRepoPrefix b @ ''/'' @ i @ '':latest''"

definition build_args :: "BuildKit \<Rightarrow> string \<Rightarrow> string \<Rightarrow> Submission \<Rightarrow> string list" where
  "build_args b dockerfile srcDir sub =
     [''build'', ''-f'', dockerfile, ''-t'', image_ref b (sbID sub), ''--build-arg'',
      ''ENTRYPOINT_PATH='' @ (if sbEntrypoint sub = '''' then ''/app/main'' else sbEntrypoint sub), srcDir]"

definition runBuild :: "BuildKit \<Rightarrow> build_env \<Rightarrow> Submission \<Rightarrow> string + string" where
  "runBuild b env sub = (case dockerfileFor b (sbLanguage sub) of
     None \<Rightarrow> Inl (''no sandbox image for language '' @ [CHR 0x22] @ sbLanguage sub @ [CHR 0x22])
   | Some dockerfile \<Rightarrow> (case beTemp env of Some e \<Rightarrow> Inl (''mkdir tempdir: '' @ e) | None \<Rightarrow>
      (case beSrcDir env of Some e \<Rightarrow> Inl (''mkdir srcdir: '' @ e) | None \<Rightarrow>
      (case beFetch env (sbSourceURI sub) of Some e \<Rightarrow> Inl (''fetch source: '' @ e) | None \<Rightarrow>
      let ref = image_ref b (sbID sub); srcDir = path_Join (beWorkDir env) ''src'' in
      (case beBuild env (build_args b dockerfile srcDir sub) of Some e \<Rightarrow> Inl (''docker build: '' @ e) | None \<Rightarrow>
      (case fst (pushWithRetry b (bePush env ref) (beCtxOver env) (beWaited env)) of Some e \<Rightarrow> Inl (''docker push: '' @ e) | None \<Rightarrow>
      (case beScan env of None \<Rightarrow> Inr ref
       | Some scan \<Rightarrow> (case scan ref of Some e \<Rightarrow> Inl (''image scan: '' @ e) | None \<Rightarrow> Inr ref))))))))"

definition truncate_to :: "nat \<Rightarrow> string \<Rightarrow> string" where
  "truncate_to n s = (if length s \<le> n then s else take n s)"

text \<open>
  One job: the clock is read for each update. The status lines that are logged are part of the result.
\<close>

record job_clock =
  jcBuilding :: instant
  jcFinal :: instant

definition bk_process :: "'s Repository \<Rightarrow> BuildKit \<Rightarrow> bool \<Rightarrow> build_env \<Rightarrow> job_clock \<Rightarrow> string \<Rightarrow> 's \<Rightarrow> 's \<times> sandbox_call list \<times> string list" where
  "bk_process repo b has_sandbox env clk i s = (case rpGet repo i s of None \<Rightarrow> (s, [], [])
     | Some sub \<Rightarrow> (case rpUpdateStatus repo (jcBuilding clk) i StatusBuilding '''' '''' s of
         (Some e, s1) \<Rightarrow> (s1, [], [])
       | (None, s1) \<Rightarrow> (case runBuild b env sub of
           Inl err \<Rightarrow> (snd (rpUpdateStatus repo (jcFinal clk) i StatusBuildFailed '''' (truncate_to 4096 err) s1), [],
               [''Build started'', ''Build failed: '' @ truncate_to 512 err])
         | Inr ref \<Rightarrow> (case rpUpdateStatus repo (jcFinal clk) i StatusReady ref '''' s1 of
             (Some e, s2) \<Rightarrow> (s2, [], [''Build started''])
           | (None, s2) \<Rightarrow> (s2, if has_sandbox then [(i, sbContestantID sub, ref)] else [], [''Build started'', ''Image ready: '' @ ref])))))"

text \<open>The starter that is configured in production: the request it sends to the sandbox runner.\<close>

definition grpc_request :: "sandbox_call \<Rightarrow> RunSandboxRequest" where
  "grpc_request c = (case c of (i, cid, img) \<Rightarrow>
     \<lparr>rrSubmissionId = i, rrContestantId = cid, rrImageUri = img, rrRuntimePort = 9100\<rparr>)"

section \<open>Handlers\<close>

datatype form_parse = FormOK | FormTooLarge | FormBad string

record upload =
  upForm :: form_parse
  upContestantID :: string
  upEntrypoint :: string
  upLanguage :: string
  upFile :: "(int \<times> string) option"

datatype sub_reply = SubHealthy | SubError nat string | Accepted Submission | GotSubmission Submission
  | GotLogs "Line list" int64 | GotList "Submission list"

record 's service =
  svRepo :: 's
  svQueue :: "string chan"
  svLogs :: "LogBuffer option"

definition error_text :: "validation_error \<Rightarrow> string" where
  "error_text e = (case e of ErrUnsupportedLanguage \<Rightarrow> ''unsupported language'' | ErrEmptyEntrypoint \<Rightarrow> ''entrypoint required''
     | ErrInvalidEntrypoint \<Rightarrow> ''invalid entrypoint path'' | ErrEmptyContestantID \<Rightarrow> ''contestant_id required'')"

definition is_gzip :: "string \<Rightarrow> bool" where
  "is_gzip content \<longleftrightarrow> 2 \<le> length content \<and> of_char (content ! 0) = (0x1f :: nat) \<and> of_char (content ! 1) = (0x8b :: nat)"

definition object_key :: "string \<Rightarrow> string \<Rightarrow> string" where
  "object_key contestantID i = contestantID @ ''/'' @ i @ ''/source.tar.gz''"

definition new_submission :: "string \<Rightarrow> instant \<Rightarrow> string \<Rightarrow> upload \<Rightarrow> Submission" where
  "new_submission i now uri up = \<lparr>sbID = i, sbContestantID = upContestantID up, sbLanguage = upLanguage up, sbStatus = StatusUploaded,
     sbSourceURI = uri, sbImageURI = '''', sbEntrypoint = upEntrypoint up, sbBuildError = '''', sbCreatedAt = now, sbUpdatedAt = now\<rparr>"

text \<open>\<open>put\<close> stores an object and answers with its address; \<open>i\<close> is the fresh uuid.\<close>

definition createSubmission :: "'s Repository \<Rightarrow> (string \<Rightarrow> string \<Rightarrow> string + string) \<Rightarrow> int64 \<Rightarrow> string \<Rightarrow> instant \<Rightarrow> upload \<Rightarrow> 's service \<Rightarrow> sub_reply \<times> 's service" where
  "createSubmission repo put maxBytes i now up sv =
     (case upForm up of
        FormTooLarge \<Rightarrow> (SubError 413 ''archive exceeds max size'', sv)
      | FormBad e \<Rightarrow> (SubError 400 (''parse multipart: '' @ e), sv)
      | FormOK \<Rightarrow> (case ValidateRequest (upContestantID up) (upEntrypoint up) (upLanguage up) of
          Some e \<Rightarrow> (SubError 400 (error_text e), sv)
        | None \<Rightarrow> (case upFile up of
            None \<Rightarrow> (SubError 400 ''archive form file required'', sv)
          | Some (sz, content) \<Rightarrow>
              if maxBytes < sz then (SubError 413 ''archive exceeds max size'', sv)
              else if \<not> is_gzip content then (SubError 400 ''archive must be gzip-compressed (.tar.gz)'', sv)
              else (case put (object_key (upContestantID up) i) content of
                  Inl e \<Rightarrow> (SubError 500 ''upload failed'', sv)
                | Inr uri \<Rightarrow> let sub = new_submission i now uri up in
                    (case rpCreate repo sub (svRepo sv) of
                       (Some e, s1) \<Rightarrow> (SubError 500 ''persist failed'', sv\<lparr>svRepo := s1\<rparr>)
                     | (None, s1) \<Rightarrow> (case Enqueue i (svQueue sv) of
                         (q, False) \<Rightarrow> (SubError 503 ''build queue full, retry later'', sv\<lparr>svRepo := s1\<rparr>)
                       | (q, True) \<Rightarrow> (Accepted sub, sv\<lparr>svRepo := s1, svQueue := q\<rparr>)))))))"

definition getSubmission :: "'s Repository \<Rightarrow> string \<Rightarrow> 's service \<Rightarrow> sub_reply" where
  "getSubmission repo i sv = (case rpGet repo i (svRepo sv) of None \<Rightarrow> SubError 404 ''submission not found'' | Some s \<Rightarrow> GotSubmission s)"

text \<open>\<open>strconv.ParseInt\<close> with its error dropped: zero for text that is no number, the nearest bound for one out of range.\<close>

definition parse_or_zero :: "string \<Rightarrow> int64" where
  "parse_or_zero s = (let neg = HasPrefix s ''-''; ds = (if neg \<or> HasPrefix s ''+'' then tl s else s);
       n = (if neg then - int (read_nat ds) else int (read_nat ds))
     in if ds = [] \<or> \<not> list_all is_digit ds then 0 else max min_int64 (min max_int64 n))"

definition getSubmissionLogs :: "'s Repository \<Rightarrow> string \<Rightarrow> string \<Rightarrow> 's service \<Rightarrow> sub_reply" where
  "getSubmissionLogs repo i since sv = (case rpGet repo i (svRepo sv) of None \<Rightarrow> SubError 404 ''submission not found''
     | Some s \<Rightarrow> (case svLogs sv of None \<Rightarrow> GotLogs [] 0
         | Some lb \<Rightarrow> (case log_Since i (parse_or_zero since) lb of (ls, latest) \<Rightarrow> GotLogs ls latest)))"

definition listSubmissions :: "(string \<Rightarrow> int \<Rightarrow> 's \<Rightarrow> Submission list) \<Rightarrow> string \<Rightarrow> string \<Rightarrow> 's service \<Rightarrow> sub_reply" where
  "listSubmissions list_of contestantID limit sv = GotList (list_of contestantID (parse_or_zero limit) (svRepo sv))"

text \<open>The shared secret: with none configured every request passes, and the health check always does.\<close>

definition InternalToken :: "string \<Rightarrow> string \<Rightarrow> string \<Rightarrow> bool" where
  "InternalToken token path header \<longleftrightarrow> token = '''' \<or> path = ''/healthz'' \<or> header = token"

text \<open>The two object stores: what is stored and the address of it.\<close>

definition minio_Put :: "(string \<Rightarrow> string \<Rightarrow> string option) \<Rightarrow> string \<Rightarrow> string \<Rightarrow> string \<Rightarrow> string + string" where
  "minio_Put fails bucket key content = (case fails key content of Some e \<Rightarrow> Inl (''put object: '' @ e)
     | None \<Rightarrow> Inr (''s3://'' @ bucket @ ''/'' @ key))"

definition memory_Put :: "string \<Rightarrow> string \<Rightarrow> (string \<rightharpoonup> string) \<Rightarrow> string \<times> (string \<rightharpoonup> string)" where
  "memory_Put key content m = (''memory://'' @ key, m(key \<mapsto> content))"

definition memory_Get :: "string \<Rightarrow> (string \<rightharpoonup> string) \<Rightarrow> string + string \<times> nat" where
  "memory_Get key m = (case m key of None \<Rightarrow> Inl (''object not found: '' @ key) | Some d \<Rightarrow> Inr (d, length d))"

section \<open>The queue\<close>

interpretation bq: bounded_queue "\<lambda>q x. Enqueue x q" Dequeue chBuf chCap
  by unfold_locales (auto simp: Enqueue_def Dequeue_def try_send_def chan_recv_def split: send_result.splits recv_result.splits list.splits if_splits)

lemma Enqueue_cases:
  "Enqueue i q = (q', True) \<Longrightarrow> chBuf q' = chBuf q @ [i]"
  "Enqueue i q = (q', False) \<Longrightarrow> q' = q"
  by (auto simp: Enqueue_def try_send_def split: send_result.splits if_splits)

lemma Enqueue_refused: "Enqueue i q = (q', False) \<Longrightarrow> \<not> chClosed q \<Longrightarrow> chCap q \<le> length (chBuf q)"
  by (auto simp: Enqueue_def try_send_def split: if_splits)

text \<open>Jobs are built in the order they were accepted, each once, and no more than sixty-four wait.\<close>

theorem jobs_are_built_in_order:
  assumes "bq.queue_run (new_queue, [], []) ops = (q, accepted, taken)"
  shows "accepted = taken @ chBuf q \<and> length (chBuf q) \<le> 64"
  using bq.fifo_from_empty [OF _ assms] by (simp add: new_queue_def make_chan_def)

theorem jobs_are_built_in_order_witness:
  "\<exists>q. bq.queue_run (new_queue, [], []) [Offer ''a'', Offer ''b'', Take] = (q, [''a'', ''b''], [''a'']) \<and> [''a'', ''b''] = [''a''] @ chBuf q"
proof -
  have steps: "Enqueue ''a'' new_queue = (new_queue\<lparr>chBuf := [''a'']\<rparr>, True)"
    "Enqueue ''b'' (new_queue\<lparr>chBuf := [''a'']\<rparr>) = (new_queue\<lparr>chBuf := [''a'', ''b'']\<rparr>, True)"
    "Dequeue (new_queue\<lparr>chBuf := [''a'', ''b'']\<rparr>) = Some (''a'', new_queue\<lparr>chBuf := [''b'']\<rparr>)"
    by (simp_all add: Enqueue_def Dequeue_def try_send_def chan_recv_def new_queue_def make_chan_def)
  have "bq.queue_run (new_queue, [], []) [Offer ''a'', Offer ''b'', Take] = (new_queue\<lparr>chBuf := [''b'']\<rparr>, [''a'', ''b''], [''a''])"
    by (simp add: steps)
  with jobs_are_built_in_order [OF this] show ?thesis by blast
qed

section \<open>Pushing\<close>

lemma push_loop_waits:
  assumes "1 \<le> attempt" "attempt \<le> n" "n \<le> 33" "backoff = 2 ^ nat (attempt - 1) * Second"
    and "push_loop cmd ctx_over waited n attempt backoff l = (r, ws)"
  shows "ws = map (\<lambda>j. 2 ^ (nat (attempt - 1) + j) * Second) [0..<length ws] \<and> int (length ws) \<le> n - attempt"
  using assms
proof (induction cmd ctx_over waited n attempt backoff l arbitrary: r ws rule: push_loop.induct)
  case (1 cmd ctx_over waited n attempt backoff l)
  show ?case
  proof (cases "\<exists>e. cmd attempt = Some e \<and> \<not> ctx_over attempt \<and> attempt \<noteq> n \<and> waited attempt = None")
    case False
    then show ?thesis using 1(2-) by (subst (asm) push_loop.simps) (auto split: option.splits if_splits)
  next
    case True
    then obtain e where e: "cmd attempt = Some e" "\<not> ctx_over attempt" "attempt \<noteq> n" "waited attempt = None" by blast
    obtain r' ws' where rec: "push_loop cmd ctx_over waited n (attempt + 1) (wrap64 (backoff * 2)) (Some e) = (r', ws')" by fastforce
    have ws: "ws = backoff # ws'" using 1(2-) e rec by (subst (asm) push_loop.simps) simp
    have "(2 :: int) ^ nat attempt \<le> 2 ^ 33" using 1(3,4) by (intro power_increasing) auto
    moreover have "in_int64 (x * Second)" if "0 \<le> x" "x \<le> 2 ^ 33" for x :: int
      using that by (simp add: in_int64_def min_int64_def max_int64_def)
    ultimately have "wrap64 (2 ^ nat attempt * Second) = 2 ^ nat attempt * Second" by (intro wrap64_id) simp
    moreover have "backoff * 2 = 2 ^ nat attempt * Second" using 1(2,5) by (cases "nat attempt") (auto simp: nat_diff_distrib)
    ultimately have b: "wrap64 (backoff * 2) = 2 ^ nat (attempt + 1 - 1) * Second" by (simp only: add_diff_cancel_right')
    have "ws' = map (\<lambda>j. 2 ^ (nat (attempt + 1 - 1) + j) * Second) [0..<length ws'] \<and> int (length ws') \<le> n - (attempt + 1)"
      using 1(1) [OF _ e(1-4) _ _ _ b rec] 1(2-4) e(3) by simp
    moreover have "nat (attempt + 1 - 1) = Suc (nat (attempt - 1))" using 1(2) by simp
    ultimately show ?thesis unfolding ws using 1(5) by (simp add: upt_conv_Cons map_Suc_upt [symmetric] comp_def del: upt_Suc)
  qed
qed

definition reaches :: "(int \<Rightarrow> string option) \<Rightarrow> (int \<Rightarrow> bool) \<Rightarrow> (int \<Rightarrow> string option) \<Rightarrow> int \<Rightarrow> int \<Rightarrow> bool" where
  "reaches cmd ctx_over waited from k \<longleftrightarrow> (\<forall>j. from \<le> j \<and> j < k \<longrightarrow> cmd j \<noteq> None \<and> \<not> ctx_over j \<and> waited j = None)"

lemma push_loop_succeeds_iff:
  assumes "attempt \<le> n" "push_loop cmd ctx_over waited n attempt backoff l = (r, ws)"
  shows "r = None \<longleftrightarrow> (\<exists>k. attempt \<le> k \<and> k \<le> n \<and> cmd k = None \<and> reaches cmd ctx_over waited attempt k)"
  using assms
proof (induction cmd ctx_over waited n attempt backoff l arbitrary: r ws rule: push_loop.induct)
  case (1 cmd ctx_over waited n attempt backoff l)
  show ?case
  proof (cases "cmd attempt")
    case None
    then have "r = None" using 1(2,3) by (subst (asm) push_loop.simps) simp
    then show ?thesis using None 1(2) by (auto simp: reaches_def intro: exI [of _ attempt])
  next
    case (Some e)
    have later: "attempt < k" if "attempt \<le> k" "cmd k = None" for k using that Some by (cases "k = attempt") auto
    show ?thesis
    proof (cases "\<not> ctx_over attempt \<and> attempt \<noteq> n \<and> waited attempt = None")
      case False
      then have "r \<noteq> None" using 1(2,3) Some by (subst (asm) push_loop.simps) (auto split: option.splits if_splits dest: sym)
      moreover have "\<not> (\<exists>k. attempt \<le> k \<and> k \<le> n \<and> cmd k = None \<and> reaches cmd ctx_over waited attempt k)"
        using False later by (fastforce simp: reaches_def)
      ultimately show ?thesis by blast
    next
      case True
      obtain r' ws' where rec: "push_loop cmd ctx_over waited n (attempt + 1) (wrap64 (backoff * 2)) (Some e) = (r', ws')" by fastforce
      have "r = r'" using 1(2,3) Some True rec by (subst (asm) push_loop.simps) simp
      moreover have "r' = None \<longleftrightarrow> (\<exists>k. attempt + 1 \<le> k \<and> k \<le> n \<and> cmd k = None \<and> reaches cmd ctx_over waited (attempt + 1) k)"
        using 1(1) [OF _ Some _ _ _ _ rec] 1(2) True by simp
      moreover have "reaches cmd ctx_over waited (attempt + 1) k \<longleftrightarrow> reaches cmd ctx_over waited attempt k" for k
        unfolding reaches_def using Some True by (metis (no_types, opaque_lifting) order_le_less zless_add1_eq add1_zle_eq option.distinct(1))
      ultimately show ?thesis using later by (metis add1_zle_eq order_less_imp_le)
    qed
  qed
qed

text \<open>The push returns without an error exactly when one of the configured attempts succeeds before the
  context ends; it always returns, after fewer pauses than attempts, of one second, two, four and so on.\<close>

theorem push_retries_with_backoff:
  assumes "1 \<le> bkPushAttempts b" "bkPushAttempts b \<le> 33" "pushWithRetry b cmd ctx_over waited = (r, ws)"
  shows "(r = None \<longleftrightarrow> (\<exists>k. 1 \<le> k \<and> k \<le> bkPushAttempts b \<and> cmd k = None
           \<and> (\<forall>j. 1 \<le> j \<and> j < k \<longrightarrow> cmd j \<noteq> None \<and> \<not> ctx_over j \<and> waited j = None)))
     \<and> ws = map (\<lambda>j. 2 ^ j * Second) [0..<length ws] \<and> int (length ws) < bkPushAttempts b"
  using push_loop_succeeds_iff [OF assms(1) assms(3) [unfolded pushWithRetry_def]]
    push_loop_waits [OF _ assms(1,2) _ assms(3) [unfolded pushWithRetry_def]]
  by (simp add: reaches_def)

definition sample_kit :: BuildKit where
  "sample_kit = NewBuildKit \<lparr>bkSandboxImageDir = ''/sandbox-images'', bkRegistryAddr = ''localhost:5000'', bkImageRepoPrefix = [],
     bkBuildTimeout = 0, bkPushAttempts = 0, bkMaxExtractBytes = 0, bkMaxFileBytes = 0\<rparr>"

theorem push_retries_with_backoff_witness:
  "pushWithRetry sample_kit (\<lambda>k. if k = 3 then None else Some ''refused'') (\<lambda>_. False) (\<lambda>_. None) = (None, [Second, 2 * Second])
   \<and> (\<exists>k. 1 \<le> k \<and> k \<le> bkPushAttempts sample_kit \<and> (if k = 3 then None else Some ''refused'') = None)"
proof -
  have p: "pushWithRetry sample_kit (\<lambda>k. if k = 3 then None else Some ''refused'') (\<lambda>_. False) (\<lambda>_. None) = (None, [Second, 2 * Second])"
    by (simp add: pushWithRetry_def sample_kit_def NewBuildKit_def push_loop.simps wrap64_def)
  have "1 \<le> bkPushAttempts sample_kit" "bkPushAttempts sample_kit \<le> 33" by (simp_all add: sample_kit_def NewBuildKit_def)
  from push_retries_with_backoff [OF this p] p show ?thesis by blast
qed

section \<open>From upload to image\<close>

text \<open>C23: An upload is accepted only if it is valid, small enough and gzip-compressed; it is then stored as uploaded, for the
  contestant the form names, and queued last. A refused one changes neither, except that with a full queue
  the submission stays stored as uploaded although no build will pick it up.\<close>

theorem upload_is_stored_and_queued:
  assumes "repository repo ok" "createSubmission repo put maxBytes i now up sv = (reply, sv')"
  shows "(\<forall>sub. reply = Accepted sub \<longrightarrow>
       ValidateRequest (upContestantID up) (upEntrypoint up) (upLanguage up) = None
     \<and> (\<exists>sz content. upFile up = Some (sz, content) \<and> sz \<le> maxBytes \<and> is_gzip content
          \<and> put (object_key (upContestantID up) i) content = Inr (sbSourceURI sub))
     \<and> sbID sub = i \<and> sbContestantID sub = upContestantID up \<and> sbStatus sub = StatusUploaded
     \<and> (\<forall>k. rpGet repo k (svRepo sv') = (if k = i then Some sub else rpGet repo k (svRepo sv)))
     \<and> chBuf (svQueue sv') = chBuf (svQueue sv) @ [i])
   \<and> (\<forall>c e. reply = SubError c e \<longrightarrow> svQueue sv' = svQueue sv
     \<and> (c \<noteq> 503 \<longrightarrow> (\<forall>k. rpGet repo k (svRepo sv') = rpGet repo k (svRepo sv)))
     \<and> (c = 503 \<longrightarrow> (\<exists>sub. rpGet repo i (svRepo sv') = Some sub \<and> sbStatus sub = StatusUploaded)))"
proof -
  have create: "rpGet repo (sbID s) m = None \<and> (\<forall>k. rpGet repo k m' = (if k = sbID s then Some s else rpGet repo k m))"
    if "rpCreate repo s m = (None, m')" for s m m'
    using that repository.create_dup [OF assms(1), of s m] repository.create_new [OF assms(1), of s m] by (cases "rpGet repo (sbID s) m") auto
  have failed: "m' = m" if "rpCreate repo s m = (Some e, m')" for s m m' e
    using that repository.create_dup [OF assms(1), of s m] repository.create_new [OF assms(1), of s m] by (cases "rpGet repo (sbID s) m") auto
  let ?sub = "\<lambda>uri. new_submission i now uri up"
  have sub: "sbID (?sub uri) = i" "sbContestantID (?sub uri) = upContestantID up" "sbStatus (?sub uri) = StatusUploaded" "sbSourceURI (?sub uri) = uri"
    for uri by (simp_all add: new_submission_def)
  show ?thesis
    using assms(2) unfolding createSubmission_def
    by (auto simp: Let_def sub split: form_parse.splits option.splits prod.splits if_splits sum.splits bool.splits
        dest!: create failed Enqueue_cases)
qed

text \<open>Two updates of a known submission.\<close>

lemma two_updates:
  assumes "repository repo ok" "rpGet repo i s = Some sub" "rpUpdateStatus repo t1 i st1 img1 err1 s = (e1, s1)"
    and "rpUpdateStatus repo t2 i st2 img2 err2 s1 = (e2, s2)"
  shows "e1 = None \<and> e2 = None \<and> (\<forall>k. rpGet repo k s2 =
     (if k = i then Some (with_status t2 st2 img2 err2 (with_status t1 st1 img1 err1 sub)) else rpGet repo k s))"
  using repository.update_known [OF assms(1,2), of t1 st1 img1 err1] assms(3)
    repository.update_known [OF assms(1), of i s1 "with_status t1 st1 img1 err1 sub" t2 st2 img2 err2] assms(4) by simp

lemma runBuild_Inr:
  "runBuild b env sub = Inr ref \<Longrightarrow> ref = image_ref b (sbID sub) \<and> ref \<noteq> []
     \<and> beFetch env (sbSourceURI sub) = None
     \<and> fst (pushWithRetry b (bePush env ref) (beCtxOver env) (beWaited env)) = None
     \<and> (\<forall>scan. beScan env = Some scan \<longrightarrow> scan ref = None)"
  by (auto simp: runBuild_def image_ref_def Let_def split: option.splits)

lemma bk_process_known:
  assumes "repository repo ok" "rpGet repo i s = Some sub" "bk_process repo b has_sandbox env clk i s = (s', calls, logs)"
  shows "(\<forall>k. rpGet repo k s' = (if k = i then Some (case runBuild b env sub of
         Inl err \<Rightarrow> with_status (jcFinal clk) StatusBuildFailed [] (truncate_to 4096 err) (with_status (jcBuilding clk) StatusBuilding [] [] sub)
       | Inr ref \<Rightarrow> with_status (jcFinal clk) StatusReady ref [] (with_status (jcBuilding clk) StatusBuilding [] [] sub)) else rpGet repo k s))
     \<and> calls = (case runBuild b env sub of Inl err \<Rightarrow> [] | Inr ref \<Rightarrow> if has_sandbox then [(i, sbContestantID sub, ref)] else [])"
proof -
  obtain e1 s1 where u1: "rpUpdateStatus repo (jcBuilding clk) i StatusBuilding [] [] s = (e1, s1)" by fastforce
  show ?thesis
  proof (cases "runBuild b env sub")
    case (Inl err)
    obtain e2 s2 where u2: "rpUpdateStatus repo (jcFinal clk) i StatusBuildFailed [] (truncate_to 4096 err) s1 = (e2, s2)" by fastforce
    from two_updates [OF assms(1,2) u1 u2] assms(2,3) u1 u2 Inl show ?thesis by (auto simp: bk_process_def)
  next
    case (Inr ref)
    obtain e2 s2 where u2: "rpUpdateStatus repo (jcFinal clk) i StatusReady ref [] s1 = (e2, s2)" by fastforce
    from two_updates [OF assms(1,2) u1 u2] assms(2,3) u1 u2 Inr show ?thesis by (auto simp: bk_process_def)
  qed
qed


section \<open>Working off the queue\<close>

text \<open>The worker with the circumstances each job meets.\<close>

fun run_jobs :: "'s Repository \<Rightarrow> BuildKit \<Rightarrow> bool \<Rightarrow> (string \<times> build_env \<times> job_clock) list \<Rightarrow> 's \<Rightarrow> 's \<times> sandbox_call list" where
  "run_jobs repo b hs [] s = (s, [])"
| "run_jobs repo b hs ((i, env, clk) # js) s = (case bk_process repo b hs env clk i s of (s1, calls, logs) \<Rightarrow>
     case run_jobs repo b hs js s1 of (s2, calls') \<Rightarrow> (s2, calls @ calls'))"

definition settled :: "Submission option \<Rightarrow> bool" where
  "settled x \<longleftrightarrow> (\<exists>sub. x = Some sub \<and> (sbStatus sub = StatusReady \<or> sbStatus sub = StatusBuildFailed))"

lemma bk_process_settles:
  assumes "repository repo ok" "bk_process repo b hs env clk i s = (s', calls, logs)"
  shows "(rpGet repo i s \<noteq> None \<longrightarrow> settled (rpGet repo i s')) \<and> (\<forall>k. settled (rpGet repo k s) \<longrightarrow> settled (rpGet repo k s'))
     \<and> (\<forall>k. (rpGet repo k s' = None) = (rpGet repo k s = None))"
proof (cases "rpGet repo i s")
  case None
  then show ?thesis using assms(2) by (simp add: bk_process_def)
next
  case (Some sub)
  have "settled (rpGet repo i s') \<and> (\<forall>k. k \<noteq> i \<longrightarrow> rpGet repo k s' = rpGet repo k s)"
    using bk_process_known [OF assms(1) Some assms(2)] by (auto simp: settled_def split: sum.splits)
  then show ?thesis using Some by (metis option.distinct(1) settled_def)
qed

text \<open>Once the worker has worked off its jobs, every submission that was queued is ready or failed, none is left uploaded or building.\<close>

theorem queued_submissions_are_settled:
  assumes "repository repo ok" "\<forall>j \<in> set js. rpGet repo (fst j) s \<noteq> None" "run_jobs repo b hs js s = (s', calls)"
  shows "\<forall>j \<in> set js. settled (rpGet repo (fst j) s')"
proof -
  have "(\<forall>j \<in> set js. rpGet repo (fst j) s \<noteq> None \<longrightarrow> settled (rpGet repo (fst j) s')) \<and> (\<forall>k. settled (rpGet repo k s) \<longrightarrow> settled (rpGet repo k s'))"
    using assms(3)
  proof (induction js arbitrary: s calls)
    case (Cons j js)
    obtain i env clk where j: "j = (i, env, clk)" by (cases j)
    obtain s1 calls1 logs where p: "bk_process repo b hs env clk i s = (s1, calls1, logs)" by (metis prod_cases3)
    obtain calls2 where r: "run_jobs repo b hs js s1 = (s', calls2)" using Cons.prems p j by (auto split: prod.splits)
    with bk_process_settles [OF assms(1) p] Cons.IH [OF r] show ?case by (auto simp: j)
  qed simp
  then show ?thesis using assms(2) by blast
qed

section \<open>Examples\<close>

definition sample_upload :: upload where
  "sample_upload = \<lparr>upForm = FormOK, upContestantID = ''alice'', upEntrypoint = ''/app/ob'', upLanguage = ''go'',
     upFile = Some (3, [char_of (0x1f :: nat), char_of (0x8b :: nat), CHR ''x''])\<rparr>"

definition empty_service :: "Memory service" where
  "empty_service = \<lparr>svRepo = NewMemory, svQueue = new_queue, svLogs = None\<rparr>"

definition stored_upload :: Submission where
  "stored_upload = new_submission ''s1'' 7 ''s3://subs/alice/s1/source.tar.gz'' sample_upload"

lemma sample_upload_accepted:
  "createSubmission memory_repo (minio_Put (\<lambda>_ _. None) ''subs'') 100 ''s1'' 7 sample_upload empty_service =
     (Accepted stored_upload, \<lparr>svRepo = [''s1'' \<mapsto> stored_upload], svQueue = new_queue\<lparr>chBuf := [''s1'']\<rparr>, svLogs = None\<rparr>)"
proof -
  have v: "ValidateRequest ''alice'' ''/app/ob'' ''go'' = None" by code_simp
  show ?thesis
    by (simp add: createSubmission_def sample_upload_def empty_service_def v is_gzip_def object_key_def minio_Put_def Let_def
        memory_repo_def mem_Create_def NewMemory_def Enqueue_def try_send_def new_queue_def make_chan_def stored_upload_def new_submission_def)
qed

theorem upload_is_stored_and_queued_witness:
  "\<exists>sv'. createSubmission memory_repo (minio_Put (\<lambda>_ _. None) ''subs'') 100 ''s1'' 7 sample_upload empty_service = (Accepted stored_upload, sv')
     \<and> chBuf (svQueue sv') = chBuf (svQueue empty_service) @ [''s1''] \<and> rpGet memory_repo ''s1'' (svRepo sv') = Some stored_upload"
  using upload_is_stored_and_queued [OF mem.repository_axioms sample_upload_accepted] sample_upload_accepted by auto

definition smooth_env :: build_env where
  "smooth_env = \<lparr>beTemp = None, beSrcDir = None, beFetch = (\<lambda>_. None), beBuild = (\<lambda>_. None), bePush = (\<lambda>_ k. if k = 1 then Some ''busy'' else None),
     beCtxOver = (\<lambda>_. False), beWaited = (\<lambda>_. None), beScan = None, beWorkDir = ''/tmp/b''\<rparr>"

definition known_store :: Memory where
  "known_store = [''s1'' \<mapsto> stored_upload]"

lemma smooth_build: "runBuild sample_kit smooth_env stored_upload = Inr ''localhost:5000/contestants/s1:latest''"
  by (simp add: runBuild_def smooth_env_def sample_kit_def NewBuildKit_def dockerfileFor_def stored_upload_def new_submission_def sample_upload_def
      image_ref_def pushWithRetry_def push_loop.simps Let_def)


theorem queued_submissions_are_settled_witness:
  "settled (rpGet memory_repo ''s1'' (fst (run_jobs memory_repo sample_kit True [(''s1'', smooth_env, \<lparr>jcBuilding = 8, jcFinal = 9\<rparr>)] known_store)))"
proof -
  obtain s' calls where r: "run_jobs memory_repo sample_kit True [(''s1'', smooth_env, \<lparr>jcBuilding = 8, jcFinal = 9\<rparr>)] known_store = (s', calls)" by fastforce
  have "\<forall>j \<in> set [(''s1'', smooth_env, \<lparr>jcBuilding = 8, jcFinal = 9\<rparr>)]. rpGet memory_repo (fst j) known_store \<noteq> None"
    by (simp add: memory_repo_def mem_Get_def known_store_def)
  from queued_submissions_are_settled [OF mem.repository_axioms this r] r show ?thesis by simp
qed

text \<open>A source that the memory store keeps has an address the builder rejects.\<close>

lemma memory_address_rejected: "keyFromSourceURI host_ok (fst (memory_Put key content m)) = None"
proof -
  have sch: "is_scheme_char CHR ''m''" "is_scheme_char CHR ''e''" "is_scheme_char CHR ''o''" "is_scheme_char CHR ''r''" "is_scheme_char CHR ''y''"
    "\<not> is_scheme_char CHR '':''" "map to_lower ''memory'' = ''memory''" by code_simp+
  then show ?thesis
    by (auto simp: keyFromSourceURI_def url_Parse_def memory_Put_def Let_def split: option.splits if_splits)
qed

text \<open>Only zero attempts are replaced by the default: with a negative number nothing is pushed and no error is reported.\<close>

lemma negative_attempts_push_nothing:
  assumes "bkPushAttempts cfg < 0"
  shows "pushWithRetry (NewBuildKit cfg) cmd ctx_over waited = (None, [])"
  using assms by (simp add: pushWithRetry_def NewBuildKit_def push_loop.simps)

end
