(* ===== verification/LiveFeed.thy ===== *)
theory LiveFeed
  imports Leaderboard
begin

text \<open>
  The leaderboard service at run time: the ingester ticks (\<open>ingest.go\<close>, \<open>Run\<close>) while viewers connect, are
  written the boards from their channel and go away (\<open>httpapi/server.go\<close>, \<open>handleLive\<close>). The lemmas show that
  no interleaving panics and that every viewer is sent boards as they were broadcast, in order.
\<close>

section \<open>State\<close>

text \<open>
  The store, the hub with its history, the boards broadcast so far, and for each client what was written to its
  connection and whether its writer still runs.
\<close>

record 's live =
  lvStore :: 's
  lvRun :: "payload hub_run"
  lvBoards :: "payload list"
  lvSent :: "client \<Rightarrow> payload list"
  lvUp :: "client \<Rightarrow> bool"

definition live_start :: "'s \<Rightarrow> 's live" where
  "live_start s = \<lparr>lvStore = s, lvRun = hub_start, lvBoards = [], lvSent = (\<lambda>_. []), lvUp = (\<lambda>_. False)\<rparr>"

section \<open>Steps\<close>

text \<open>One turn of the loop of \<open>Run\<close>: an error of the tick is only logged. \<open>board_of\<close> is what the tick broadcast.\<close>

definition board_of :: "('s, 'o) Store \<Rightarrow> int \<Rightarrow> 'o tick_env \<Rightarrow> 's \<Rightarrow> payload list" where
  "board_of st topN E s = (case stTop st (teTop E) topN s of Inl e \<Rightarrow> [] | Inr rows \<Rightarrow> [(rows, teMillis E)])"

definition Run_tick :: "SConfig \<Rightarrow> ('s, 'o) Store \<Rightarrow> int \<Rightarrow> 'o tick_env \<Rightarrow> 's live \<Rightarrow> 's live option" where
  "Run_tick cfg st topN E l = (case Tick cfg st topN E (lvStore l, hrHub (lvRun l)) of None \<Rightarrow> None
     | Some (s', h', err) \<Rightarrow>
        let bs = (if err = None then board_of st topN E s' else []); r = lvRun l
        in Some (l\<lparr>lvStore := s', lvBoards := lvBoards l @ bs,
             lvRun := r\<lparr>hrHub := h', hrSeen := (\<lambda>c. if hbClients (hrHub r) c then hrSeen r c @ bs else hrSeen r c)\<rparr>\<rparr>))"

text \<open>A connection: nothing is registered when the upgrade fails.\<close>

definition live_connect :: "bool \<Rightarrow> 's live \<Rightarrow> 's live" where
  "live_connect upgraded l = (if \<not> upgraded then l
     else case Register (hrHub (lvRun l)) of (h, c) \<Rightarrow>
       l\<lparr>lvRun := (lvRun l)\<lparr>hrHub := h\<rparr>, lvUp := (lvUp l)(c := True)\<rparr>)"

text \<open>
  One turn of the writer: a message is written, or the write fails and the client is removed. An empty
  channel makes it wait; a closed one ends it.
\<close>

definition live_pump :: "client \<Rightarrow> bool \<Rightarrow> 's live \<Rightarrow> 's live option" where
  "live_pump c written l = (let r = lvRun l; h = hrHub r in
     if \<not> lvUp l c then Some l
     else case client_recv c h of
       (h1, Some m) \<Rightarrow>
         let r1 = r\<lparr>hrHub := h1, hrTaken := (hrTaken r)(c := hrTaken r c @ [m])\<rparr> in
         if written then Some (l\<lparr>lvRun := r1, lvSent := (lvSent l)(c := lvSent l c @ [m])\<rparr>)
         else map_option (\<lambda>h2. l\<lparr>lvRun := r1\<lparr>hrHub := h2\<rparr>, lvUp := (lvUp l)(c := False)\<rparr>) (Unregister c h1)
     | (h1, None) \<Rightarrow>
         if chClosed (hbSend h c)
         then map_option (\<lambda>h2. l\<lparr>lvRun := r\<lparr>hrHub := h2\<rparr>, lvUp := (lvUp l)(c := False)\<rparr>) (Unregister c h)
         else Some l)"

datatype 'o live_op = LvTick "'o tick_env" | LvConnect bool | LvPump client bool

fun live_step :: "SConfig \<Rightarrow> ('s, 'o) Store \<Rightarrow> int \<Rightarrow> 's live \<Rightarrow> 'o live_op \<Rightarrow> 's live option" where
  "live_step cfg st topN l (LvTick E) = Run_tick cfg st topN E l"
| "live_step cfg st topN l (LvConnect up) = Some (live_connect up l)"
| "live_step cfg st topN l (LvPump c w) = live_pump c w l"

text \<open>A tick visits the registered clients, and lists the rows of the store as it left it.\<close>

definition store_after :: "SConfig \<Rightarrow> ('s, 'o) Store \<Rightarrow> 'o tick_env \<Rightarrow> 's \<Rightarrow> 's" where
  "store_after cfg st E s = (case (teSnaps E, teReports E) of
     (Inr snaps, Inr reports) \<Rightarrow> upsert_all st (teStore E) 0
        (tick_calls cfg snaps reports (case teCrashes E of Inl e \<Rightarrow> [] | Inr cs \<Rightarrow> cs)) s
   | _ \<Rightarrow> s)"

fun live_valid :: "SConfig \<Rightarrow> ('s, 'o) Store \<Rightarrow> ('o \<Rightarrow> 's \<Rightarrow> bool) \<Rightarrow> 's live \<Rightarrow> 'o live_op \<Rightarrow> bool" where
  "live_valid cfg st top_ok l (LvTick E) \<longleftrightarrow> lists_clients (teClients E) (hrHub (lvRun l)) \<and> top_ok (teTop E) (store_after cfg st E (lvStore l))"
| "live_valid cfg st top_ok l _ \<longleftrightarrow> True"

inductive live_reach :: "SConfig \<Rightarrow> ('s, 'o) Store \<Rightarrow> ('o \<Rightarrow> 's \<Rightarrow> bool) \<Rightarrow> int \<Rightarrow> 's \<Rightarrow> 's live option \<Rightarrow> bool"
  for cfg st top_ok topN s0 where
  start: "live_reach cfg st top_ok topN s0 (Some (live_start s0))"
| step: "live_reach cfg st top_ok topN s0 (Some l) \<Longrightarrow> live_valid cfg st top_ok l op \<Longrightarrow>
     live_reach cfg st top_ok topN s0 (live_step cfg st topN l op)"

section \<open>The invariant\<close>

text \<open>Each step is one of the hub, or leaves it alone.\<close>

lemma Tick_cases:
  assumes "Tick cfg st topN E (s, h) = res"
  shows "(\<exists>e. res = Some (store_after cfg st E s, h, Some e))
    \<or> (\<exists>rows. stTop st (teTop E) topN (store_after cfg st E s) = Inr rows
         \<and> res = map_option (\<lambda>h1. (store_after cfg st E s, h1, None)) (Broadcast (teClients E) (rows, teMillis E) h))"
  using assms by (auto simp: Tick_def store_after_def Let_def split: sum.splits)

definition live_inv :: "(Entry list \<Rightarrow> bool) \<Rightarrow> 's live \<Rightarrow> bool" where
  "live_inv P l \<longleftrightarrow> hub_inv (lvRun l) \<and> (\<forall>c. subseq (hrSeen (lvRun l) c) (lvBoards l))
     \<and> (\<forall>c. subseq (lvSent l c) (hrTaken (lvRun l) c)) \<and> (\<forall>p \<in> set (lvBoards l). P (fst p))"

lemma Run_tick_inv:
  assumes inv: "live_inv P l" and l: "lists_clients (teClients E) (hrHub (lvRun l))"
    and top: "\<And>rows. stTop st (teTop E) topN (store_after cfg st E (lvStore l)) = Inr rows \<Longrightarrow> P rows"
  shows "\<exists>l'. Run_tick cfg st topN E l = Some l' \<and> live_inv P l'"
proof -
  let ?s = "store_after cfg st E (lvStore l)" and ?r = "lvRun l"
  from Tick_cases [OF refl, of cfg st topN E "lvStore l" "hrHub ?r"] show ?thesis
  proof (elim disjE exE conjE)
    fix e
    assume "Tick cfg st topN E (lvStore l, hrHub ?r) = Some (?s, hrHub ?r, Some e)"
    then show ?thesis using inv by (simp add: Run_tick_def live_inv_def hub_inv_def cong: if_cong)
  next
    fix rows
    assume t: "stTop st (teTop E) topN ?s = Inr rows"
      "Tick cfg st topN E (lvStore l, hrHub ?r) = map_option (\<lambda>h1. (?s, h1, None)) (Broadcast (teClients E) (rows, teMillis E) (hrHub ?r))"
    have b: "board_of st topN E ?s = [(rows, teMillis E)]" using t(1) by (simp add: board_of_def)
    have "hub_valid ?r (DoBroadcast (teClients E) (rows, teMillis E))" using l by simp
    from hub_step_inv [OF _ this] inv obtain r' where r': "hub_step ?r (DoBroadcast (teClients E) (rows, teMillis E)) = Some r'" "hub_inv r'"
      by (auto simp: live_inv_def)
    then obtain h' where h': "Broadcast (teClients E) (rows, teMillis E) (hrHub ?r) = Some h'"
      "r' = ?r\<lparr>hrHub := h', hrSeen := (\<lambda>c. if hbClients (hrHub ?r) c then hrSeen ?r c @ [(rows, teMillis E)] else hrSeen ?r c)\<rparr>" by auto
    have "Run_tick cfg st topN E l = Some (l\<lparr>lvStore := ?s, lvBoards := lvBoards l @ [(rows, teMillis E)], lvRun := r'\<rparr>)"
      using b by (simp add: Run_tick_def t(2) h' Let_def cong: if_cong)
    moreover have "live_inv P (l\<lparr>lvStore := ?s, lvBoards := lvBoards l @ [(rows, teMillis E)], lvRun := r'\<rparr>)"
      using inv r'(2) top [OF t(1)] by (auto simp: live_inv_def h'(2) intro: subseq_append_same subseq_append_left)
    ultimately show ?thesis by blast
  qed
qed

lemma live_connect_inv:
  assumes inv: "live_inv P l"
  shows "live_inv P (live_connect up l)"
proof (cases up)
  case True
  from hub_step_inv [of "lvRun l" DoRegister] inv
  have "hub_inv ((lvRun l)\<lparr>hrHub := fst (Register (hrHub (lvRun l)))\<rparr>)" by (simp add: live_inv_def)
  with True inv show ?thesis by (cases "Register (hrHub (lvRun l))") (simp add: live_connect_def live_inv_def)
qed (use inv in \<open>simp add: live_connect_def\<close>)

lemma live_pump_inv:
  assumes inv: "live_inv P l"
  shows "\<exists>l'. live_pump c w l = Some l' \<and> live_inv P l'"
proof -
  let ?r = "lvRun l"
  have hub: "hub_inv ?r" and sub: "subseq (lvSent l d) (hrTaken ?r d)" for d using inv by (auto simp: live_inv_def)
  have unreg: "\<exists>h2. Unregister c (hrHub r) = Some h2 \<and> hub_inv (r\<lparr>hrHub := h2\<rparr>)" if "hub_inv r" for r :: "payload hub_run"
    using hub_step_inv [OF that, of "DoUnregister c"] by auto
  obtain h1 mo where rc: "client_recv c (hrHub ?r) = (h1, mo)" by fastforce
  show ?thesis
  proof (cases "\<not> lvUp l c")
    case True
    then show ?thesis using inv by (simp add: live_pump_def Let_def)
  next
    case up: False
    show ?thesis
    proof (cases mo)
      case (Some m)
      let ?r1 = "?r\<lparr>hrHub := h1, hrTaken := (hrTaken ?r)(c := hrTaken ?r c @ [m])\<rparr>"
      from hub_step_inv [OF hub, of "DoRecv c"] have h: "hub_inv ?r1" by (simp add: rc Some)
      then obtain h2 where h2: "Unregister c h1 = Some h2" "hub_inv (?r1\<lparr>hrHub := h2\<rparr>)" using unreg [of ?r1] by auto
      show ?thesis
        using up inv h h2 sub
        by (cases w) (auto simp: live_pump_def Let_def rc Some live_inv_def intro: subseq_append_same subseq_append_left)
    next
      case None
      obtain h2 where "Unregister c (hrHub ?r) = Some h2" "hub_inv (?r\<lparr>hrHub := h2\<rparr>)" using unreg [OF hub] by blast
      then show ?thesis using up inv by (auto simp: live_pump_def Let_def rc None live_inv_def)
    qed
  qed
qed

lemma live_reach_inv:
  assumes "live_reach cfg st top_ok topN s0 lo"
    and top: "\<And>env s rows. top_ok env s \<Longrightarrow> stTop st env topN s = Inr rows \<Longrightarrow> P rows"
  shows "\<exists>l. lo = Some l \<and> live_inv P l"
  using assms(1)
proof (induction rule: live_reach.induct)
  case start
  show ?case by (simp add: live_inv_def live_start_def hub_inv_def client_ok_def hub_start_def NewHub_def make_chan_def)
next
  case (step l op)
  then have inv: "live_inv P l" by simp
  show ?case
  proof (cases op)
    case (LvTick E)
    with step(2) have "lists_clients (teClients E) (hrHub (lvRun l))" "top_ok (teTop E) (store_after cfg st E (lvStore l))" by simp_all
    from Run_tick_inv [OF inv this(1) top [OF this(2)]] show ?thesis by (simp add: LvTick)
  qed (use live_connect_inv [OF inv] live_pump_inv [OF inv] in auto)
qed

section \<open>A viewer and a tick\<close>

definition ex_tick :: "string list tick_env" where
  "ex_tick = \<lparr>teSnaps = Inr [sample_snap], teReports = Inr [sample_report], teCrashes = Inr [], teStore = (\<lambda>_. [''s'']), teTop = [''c''],
     teMillis = 7, teClients = [0]\<rparr>"

definition ex_viewer :: "StubStore live" where
  "ex_viewer = live_connect True (live_start NewStubStore)"

definition ex_score :: int64 where
  "ex_score = reFinalScore (Compute DefaultConfig (own_inputs sample_snap sample_report 0))"

lemma ex_calls: "tick_calls DefaultConfig [sample_snap] [sample_report] [] = [(''c'', ''s'', ex_score)]"
  by (subst tick_calls_own) (simp_all add: sample_snap_def sample_report_def own_verdict_def own_crashes_def ex_score_def)

lemma ex_store: "store_after DefaultConfig stub_store ex_tick NewStubStore = stub_UpsertSubmission [''s''] ''c'' ''s'' ex_score NewStubStore"
  by (simp add: store_after_def ex_tick_def ex_calls stub_store_def)

lemma ex_scores: "ssScores (stub_UpsertSubmission [''s''] ''c'' ''s'' ex_score NewStubStore) = [''c'' \<mapsto> ex_score]"
  by (simp add: stub_UpsertSubmission_def Let_def NewStubStore_def stub_subs_def attempt_def range_values_def)

lemma ex_board: "stub_Top [''c''] 10 (stub_UpsertSubmission [''s''] ''c'' ''s'' ex_score NewStubStore) = [\<lparr>enContestantID = ''c'', enScore = ex_score\<rparr>]"
  by (simp add: stub_Top_def ex_scores range_items_def)

lemma ex_shown: "map_option (\<lambda>l. lvSent l 0) (Option.bind (Run_tick DefaultConfig stub_store 10 ex_tick ex_viewer) (live_pump 0 True))
   = Some [([\<lparr>enContestantID = ''c'', enScore = ex_score\<rparr>], 7)]"
proof -
  have h: "lvStore ex_viewer = NewStubStore" "hbSend (hrHub (lvRun ex_viewer)) 0 = make_chan 16" "lvUp ex_viewer 0"
     "lvSent ex_viewer 0 = []"
    by (simp_all add: ex_viewer_def live_connect_def Register_def Let_def live_start_def hub_start_def NewHub_def defaultClientBuf_def)
  have t: "Tick DefaultConfig stub_store 10 ex_tick (NewStubStore, h) =
      map_option (\<lambda>h1. (stub_UpsertSubmission [''s''] ''c'' ''s'' ex_score NewStubStore, h1, None)) (Broadcast [0] ([\<lparr>enContestantID = ''c'', enScore = ex_score\<rparr>], 7) h)" for h
    by (simp add: Tick_def ex_tick_def ex_calls stub_store_def ex_board)
  show ?thesis
    by (simp add: Run_tick_def h t broadcast_one_def make_chan_def try_send_def live_pump_def client_recv_def chan_recv_def Let_def)
qed

section \<open>Properties\<close>



end
