(* ===== verification/Services.thy ===== *)
theory Services
  imports Windowing Coordinator Sandbox
begin

text \<open>
  How the services are set up: what each \<open>main.go\<close> reads from its environment and which implementations it
  chooses (aggregator, validator, leaderboard, telemetry ingester, coordinator, sandbox runner; the gateway, the
  bot and the submission service are configured in their own theories). The lemmas show when a start fails, that
  services sharing an environment meet on the same stream, and that the default addresses fit together.
\<close>

section \<open>Shared choices\<close>

text \<open>\<open>time.NewTicker\<close> panics on a period that is not positive; the loops that tick run in goroutines, so
  the panic ends the process. \<open>ms\<close> is the period in milliseconds.\<close>

definition ticker_ms :: "int \<Rightarrow> duration option" where
  "ticker_ms ms = (let d = wrap64 (ms * Millisecond) in if d \<le> 0 then None else Some d)"

record kafka_reader =
  krBrokers :: "string list"
  krTopic :: string
  krGroupID :: string

datatype consumer_kind = KafkaConsumer kafka_reader | StubConsumer

definition agg_NewKafka :: "kafka_reader \<Rightarrow> kafka_reader" where
  "agg_NewKafka cfg = (if krGroupID cfg = '''' then cfg\<lparr>krGroupID := ''aggregator''\<rparr> else cfg)"

definition val_NewKafka :: "kafka_reader \<Rightarrow> kafka_reader" where
  "val_NewKafka cfg = (if krGroupID cfg = '''' then cfg\<lparr>krGroupID := ''validator''\<rparr> else cfg)"

definition kafka_env :: "(string \<Rightarrow> string) \<Rightarrow> string \<Rightarrow> kafka_reader" where
  "kafka_env env grp = \<lparr>krBrokers = split_on (CHR '','') (envOr env ''KAFKA_BROKERS'' ''localhost:9092''),
     krTopic = envOr env ''KAFKA_TOPIC'' ''telemetry-events'', krGroupID = envOr env ''KAFKA_GROUP_ID'' grp\<rparr>"

datatype exit_reason = ExitStatus string | ExitPanic

section \<open>Aggregator\<close>

datatype writer_kind = TimescaleWriter string | StubWriter

record agg_setup =
  asHttpAddr :: string
  asConsumer :: consumer_kind
  asWriter :: writer_kind
  asWindow :: duration

definition aggregator_main :: "(string \<Rightarrow> string option) \<Rightarrow> (string \<Rightarrow> string) \<Rightarrow> exit_reason + agg_setup" where
  "aggregator_main connect_error env =
     (let windowMs = envInt env ''WINDOW_MS'' 1000;
          cons = (if envOr env ''CONSUMER_KIND'' ''stub'' = ''kafka'' then KafkaConsumer (agg_NewKafka (kafka_env env ''aggregator'')) else StubConsumer);
          setup = (\<lambda>w. case ticker_ms windowMs of None \<Rightarrow> Inl ExitPanic
             | Some d \<Rightarrow> Inr \<lparr>asHttpAddr = envOr env ''HTTP_ADDR'' '':8084'', asConsumer = cons, asWriter = w, asWindow = d\<rparr>)
      in if envOr env ''WRITER_KIND'' ''stub'' = ''timescale'' then
           (let dsn = envOr env ''POSTGRES_DSN'' '''' in
            if dsn = '''' then Inl (ExitStatus ''WRITER_KIND=timescale requires POSTGRES_DSN'')
            else (case connect_error dsn of Some e \<Rightarrow> Inl (ExitStatus ''connect timescale'') | None \<Rightarrow> setup (TimescaleWriter dsn)))
         else setup StubWriter)"

section \<open>Validator\<close>

record val_setup =
  vsHttpAddr :: string
  vsConsumer :: consumer_kind

definition validator_main :: "(string \<Rightarrow> string) \<Rightarrow> val_setup" where
  "validator_main env =
     \<lparr>vsHttpAddr = envOr env ''HTTP_ADDR'' '':8085'',
      vsConsumer = (if envOr env ''CONSUMER_KIND'' ''stub'' = ''kafka'' then KafkaConsumer (val_NewKafka (kafka_env env ''validator'')) else StubConsumer)\<rparr>"

section \<open>Telemetry ingester\<close>

record kafka_writer =
  kwBrokers :: "string list"
  kwTopic :: string

datatype producer_kind = KafkaProducer kafka_writer | StubProducer

record ing_setup =
  isGrpcAddr :: string
  isCapacity :: int
  isBatchSize :: int
  isFlush :: duration
  isProducer :: producer_kind

definition ingester_main :: "(string \<Rightarrow> string) \<Rightarrow> exit_reason + ing_setup" where
  "ingester_main env =
     (let prod = (if envOr env ''PRODUCER_KIND'' ''stub'' = ''kafka''
            then KafkaProducer \<lparr>kwBrokers = split_on (CHR '','') (envOr env ''KAFKA_BROKERS'' ''localhost:9092''),
                   kwTopic = envOr env ''KAFKA_TOPIC'' ''telemetry-events''\<rparr>
            else StubProducer);
          cap = envInt env ''BUFFER_CAPACITY'' 16384; batch = envInt env ''BATCH_SIZE'' 256
      in case ticker_ms (envInt env ''FLUSH_INTERVAL_MS'' 100) of None \<Rightarrow> Inl ExitPanic
         | Some d \<Rightarrow> if batch < 0 then Inl ExitPanic
             else Inr \<lparr>isGrpcAddr = envOr env ''GRPC_ADDR'' '':9091'', isCapacity = (if cap \<le> 0 then 1024 else cap),
               isBatchSize = batch, isFlush = d, isProducer = prod\<rparr>)"

section \<open>Leaderboard\<close>

datatype lb_store = RedisStore string string string | StubLbStore

datatype lb_source = SeedDemo | IngestFrom string string string

record lb_setup =
  lsHttpAddr :: string
  lsStore :: lb_store
  lsSource :: lb_source
  lsTopN :: int
  lsInterval :: duration

definition leaderboard_main :: "(string \<Rightarrow> string option) \<Rightarrow> (string \<Rightarrow> string) \<Rightarrow> exit_reason + lb_setup" where
  "leaderboard_main ping_error env =
     (let src = (if envOr env ''SEED_DEMO'' ''false'' = ''true'' then SeedDemo
            else IngestFrom (envOr env ''AGGREGATOR_URL'' ''http://127.0.0.1:8084'') (envOr env ''VALIDATOR_URL'' ''http://127.0.0.1:8085'')
                   (envOr env ''SANDBOX_RUNNER_URL'' ''''));
          setup = (\<lambda>s. case ticker_ms (envInt env ''TICK_MS'' 1000) of None \<Rightarrow> Inl ExitPanic
             | Some d \<Rightarrow> Inr \<lparr>lsHttpAddr = envOr env ''HTTP_ADDR'' '':8086'', lsStore = s, lsSource = src,
                 lsTopN = envInt env ''TOP_N'' 100, lsInterval = d\<rparr>)
      in if envOr env ''STORE_KIND'' ''stub'' = ''redis'' then
           (let addr = envOr env ''REDIS_ADDR'' ''localhost:6379'' in
            case ping_error addr of Some e \<Rightarrow> Inl (ExitStatus ''redis ping'')
            | None \<Rightarrow> setup (RedisStore addr (envOr env ''REDIS_PASSWORD'' '''') (envOr env ''REDIS_KEY'' ''leaderboard:scores'')))
         else setup StubLbStore)"

section \<open>Coordinator and sandbox runner\<close>

datatype spawner_kind = K8sJobs K8sSpawner string | StubSpawner

definition coordinator_main :: "(string \<Rightarrow> string option) \<Rightarrow> (string \<Rightarrow> string) \<Rightarrow> exit_reason + (string \<times> spawner_kind)" where
  "coordinator_main cluster_error env =
     (let addr = envOr env ''BOT_COORDINATOR_ADDR'' '':8083'' in
      if envOr env ''SPAWNER_KIND'' ''stub'' = ''k8s'' then
        (let kube = envOr env ''KUBECONFIG'' '''' in
         case cluster_error kube of Some e \<Rightarrow> Inl (ExitStatus ''k8s spawner init'')
         | None \<Rightarrow> Inr (addr, K8sJobs \<lparr>ksNamespace = envOr env ''K8S_NAMESPACE'' ''iicpc-bots'',
             ksImage = envOr env ''BOT_WORKER_IMAGE'' ''localhost:5000/bot-worker:latest''\<rparr> kube))
      else Inr (addr, StubSpawner))"

text \<open>\<open>mustDuration\<close> panics on text that is no duration; \<open>client_error\<close> is what building the cluster client reports.\<close>

definition mustDuration :: "(string \<Rightarrow> duration option) \<Rightarrow> string \<Rightarrow> exit_reason + duration" where
  "mustDuration parse_duration s = (case parse_duration s of None \<Rightarrow> Inl ExitPanic | Some d \<Rightarrow> Inr d)"

record sandbox_setup =
  xsConfig :: Config
  xsGrpcAddr :: string
  xsHttpAddr :: string

definition sandbox_main :: "(string \<Rightarrow> duration option) \<Rightarrow> string option \<Rightarrow> (string \<Rightarrow> string) \<Rightarrow> exit_reason + sandbox_setup" where
  "sandbox_main parse_duration client_error env =
     (case mustDuration parse_duration (envOr env ''READINESS_TIMEOUT'' ''60s'') of Inl e \<Rightarrow> Inl e
      | Inr d \<Rightarrow>
         let cfg = \<lparr>rcNamespace = envOr env ''K8S_NAMESPACE'' ''iicpc-contestants'', rcRuntimeClass = envOr env ''RUNTIME_CLASS'' ''gvisor'',
               rcCPURequest = envOr env ''CPU_REQUEST'' ''1'', rcCPULimit = envOr env ''CPU_LIMIT'' ''1'',
               rcMemoryRequest = envOr env ''MEMORY_REQUEST'' ''512Mi'', rcMemoryLimit = envOr env ''MEMORY_LIMIT'' ''512Mi'',
               rcEphemeralLimit = envOr env ''EPHEMERAL_LIMIT'' ''2Gi'', rcReadinessTimeout = d\<rparr>
         in (case client_error of Some e \<Rightarrow> Inl (ExitStatus ''init runner'')
             | None \<Rightarrow> Inr \<lparr>xsConfig = cfg, xsGrpcAddr = envOr env ''GRPC_ADDR'' '':9090'', xsHttpAddr = envOr env ''HTTP_ADDR'' '':8090''\<rparr>))"

section \<open>What the environment decides\<close>

lemma kafka_groups:
  "krGroupID (agg_NewKafka (kafka_env env ''aggregator'')) = (if env ''KAFKA_GROUP_ID'' = [] then ''aggregator'' else env ''KAFKA_GROUP_ID'')"
  "krGroupID (val_NewKafka (kafka_env env ''validator'')) = (if env ''KAFKA_GROUP_ID'' = [] then ''validator'' else env ''KAFKA_GROUP_ID'')"
  by (simp_all add: agg_NewKafka_def val_NewKafka_def kafka_env_def envOr_def)

lemma agg_reader:
  assumes "aggregator_main connect_error env = Inr a" "asConsumer a = KafkaConsumer r"
  shows "r = agg_NewKafka (kafka_env env ''aggregator'')"
  using assms by (auto simp: aggregator_main_def Let_def split: if_splits option.splits)

lemma val_reader:
  assumes "vsConsumer (validator_main env) = KafkaConsumer r"
  shows "r = val_NewKafka (kafka_env env ''validator'')"
  using assms by (auto simp: validator_main_def split: if_splits)

lemma ing_writer:
  assumes "ingester_main env = Inr i" "isProducer i = KafkaProducer w"
  shows "kwBrokers w = krBrokers (kafka_env env g)" "kwTopic w = krTopic (kafka_env env g)"
  using assms by (auto simp: ingester_main_def Let_def kafka_env_def split: if_splits option.splits)

text \<open>Services started from one environment meet on the same topic of the same brokers. Aggregator and validator each
  see every event exactly when the environment names no consumer group; with one named they share it and split the stream.\<close>

theorem services_meet_on_one_stream:
  assumes "ingester_main env = Inr i" "isProducer i = KafkaProducer w"
    and "aggregator_main connect_error env = Inr a" "asConsumer a = KafkaConsumer ra"
    and "vsConsumer (validator_main env) = KafkaConsumer rv"
  shows "krBrokers ra = kwBrokers w \<and> krTopic ra = kwTopic w \<and> krBrokers rv = kwBrokers w \<and> krTopic rv = kwTopic w
     \<and> (krGroupID ra = krGroupID rv \<longleftrightarrow> env ''KAFKA_GROUP_ID'' \<noteq> [])"
proof -
  note r = agg_reader [OF assms(3,4)] val_reader [OF assms(5)] ing_writer [OF assms(1,2)]
  have same: "krBrokers (agg_NewKafka k) = krBrokers k" "krTopic (agg_NewKafka k) = krTopic k"
    "krBrokers (val_NewKafka k) = krBrokers k" "krTopic (val_NewKafka k) = krTopic k" for k
    by (simp_all add: agg_NewKafka_def val_NewKafka_def)
  have "krGroupID ra = krGroupID rv \<longleftrightarrow> env ''KAFKA_GROUP_ID'' \<noteq> []"
    by (simp add: r(1,2) kafka_groups)
  then show ?thesis using r(3) [of "''aggregator''"] r(3) [of "''validator''"] r(4) [of "''aggregator''"] r(4) [of "''validator''"]
    by (simp add: r(1,2) same)
qed

definition kafka_environment :: "string \<Rightarrow> string" where
  "kafka_environment k = (if k = ''CONSUMER_KIND'' \<or> k = ''PRODUCER_KIND'' then ''kafka'' else '''')"

theorem services_meet_on_one_stream_witness:
  "\<exists>i w a ra rv. ingester_main kafka_environment = Inr i \<and> isProducer i = KafkaProducer w
     \<and> aggregator_main (\<lambda>_. None) kafka_environment = Inr a \<and> asConsumer a = KafkaConsumer ra
     \<and> vsConsumer (validator_main kafka_environment) = KafkaConsumer rv \<and> krTopic ra = kwTopic w \<and> krGroupID ra \<noteq> krGroupID rv"
proof -
  have tick: "ticker_ms 100 = Some (100 * Millisecond)" "ticker_ms 1000 = Some (1000 * Millisecond)"
    by (simp_all add: ticker_ms_def wrap64_def)
  obtain i w where i: "ingester_main kafka_environment = Inr i" "isProducer i = KafkaProducer w"
    by (simp add: ingester_main_def kafka_environment_def envOr_def envInt_def tick)
  obtain a ra where a: "aggregator_main (\<lambda>_. None) kafka_environment = Inr a" "asConsumer a = KafkaConsumer ra"
    by (simp add: aggregator_main_def kafka_environment_def envOr_def envInt_def tick)
  obtain rv where v: "vsConsumer (validator_main kafka_environment) = KafkaConsumer rv"
    by (simp add: validator_main_def kafka_environment_def envOr_def)
  have "kafka_environment ''KAFKA_GROUP_ID'' = []" by (simp add: kafka_environment_def)
  with services_meet_on_one_stream [OF i a v] i a v show ?thesis by blast
qed

text \<open>A window of zero is replaced by a second in the aggregator and yet ends the process: the ticker gets the zero.\<close>

lemma zero_window_panics:
  assumes "env ''WINDOW_MS'' = ''0''" "env ''WRITER_KIND'' = []"
  shows "aggregator_main connect_error env = Inl ExitPanic \<and> aWindow (NewAggregator 0 t opts) = Second"
proof -
  have "Atoi ''0'' = Some 0" by code_simp
  then show ?thesis using assms by (simp add: aggregator_main_def envOr_def envInt_def ticker_ms_def wrap64_def)
qed

text \<open>With nothing set every service starts, and the leaderboard polls the addresses the other two listen on.\<close>

lemma default_addresses_fit:
  "\<exists>a l. aggregator_main connect_error (\<lambda>_. []) = Inr a \<and> leaderboard_main ping_error (\<lambda>_. []) = Inr l
     \<and> lsSource l = IngestFrom (''http://127.0.0.1'' @ asHttpAddr a) (''http://127.0.0.1'' @ vsHttpAddr (validator_main (\<lambda>_. []))) []
     \<and> lsStore l = StubLbStore \<and> asWindow a = Second"
  by (simp add: aggregator_main_def leaderboard_main_def validator_main_def envOr_def envInt_def ticker_ms_def wrap64_def)

end
