(* ===== verification/Lifecycle.thy ===== *)
theory Lifecycle
  imports Prelude
begin

text \<open>
  The lives of the processes: what each \<open>main\<close> opens, which goroutines it starts, and how it stops after a signal.
  A \<open>main\<close> is the list of its statements with the deferred calls among them; its goroutines are interleaved
  with it by a step relation. Two disciplines on the statements are shown sound for every
  interleaving: nothing uses what has been closed, and the way from the signal to the end is never blocked.
  The mains that break one of them are listed with a run that shows it.
\<close>

section \<open>Goroutines and statements\<close>

text \<open>
  What has happened to the process: the signal, a context cancelled, a server told to stop, something closed,
  a peer gone away. A goroutine uses some of what \<open>main\<close> opened, returns once one of its stop facts
  has happened, and may fail before: the failure is logged, or ends the process.
\<close>

datatype fact = Signal | Cancelled string | Stopped string | Closed string | PeerDone string

datatype on_failure = NeverFails | Logs | Exits

record goroutine =
  goName :: string
  goUses :: "string list"
  goStops :: "fact list"
  goFails :: on_failure

text \<open>
  \<open>Raise\<close> is every call that makes a fact happen: \<open>cancel()\<close>, \<open>Close()\<close>, telling a server to stop. \<open>JoinOr\<close>
  waits for a goroutine or until a timer fires, \<open>TryOpen\<close> is followed by \<open>os.Exit(1)\<close> when it fails.
\<close>

datatype act = TryOpen string | Go goroutine | Await fact | Raise fact | Join string | JoinOr string

datatype stmt = Do act | Defer act

text \<open>Deferred calls run when the function returns, the last one first.\<close>

fun with_defers :: "act list \<Rightarrow> stmt list \<Rightarrow> act list" where
  "with_defers ds [] = ds"
| "with_defers ds (Do a # ss) = a # with_defers ds ss"
| "with_defers ds (Defer a # ss) = with_defers (a # ds) ss"

abbreviation acts_of :: "stmt list \<Rightarrow> act list" where
  "acts_of ss \<equiv> with_defers [] ss"

section \<open>The mains\<close>

text \<open>
  A loop that ends with the signal context, an HTTP server, and its \<open>Shutdown\<close> with a deadline: it makes the
  listener return at once and waits for the handlers. \<open>GracefulStop\<close> of a gRPC server waits without a deadline.
\<close>

definition loop :: "string \<Rightarrow> string list \<Rightarrow> on_failure \<Rightarrow> stmt" where
  "loop name uses fails = Do (Go \<lparr>goName = name, goUses = uses, goStops = [Signal, Cancelled ''ctx''], goFails = fails\<rparr>)"

definition server :: "string \<Rightarrow> string list \<Rightarrow> on_failure \<Rightarrow> stmt" where
  "server name uses fails = Do (Go \<lparr>goName = name, goUses = uses, goStops = [Stopped name], goFails = fails\<rparr>)"

definition Shutdown :: "string \<Rightarrow> stmt list" where
  "Shutdown name = [Defer (Raise (Cancelled ''deadline'')), Do (Raise (Stopped name)), Do (JoinOr name)]"

definition GracefulStop :: "string \<Rightarrow> stmt list" where
  "GracefulStop name = [Do (Raise (Stopped name)), Do (Join name)]"

definition NotifyContext :: stmt where
  "NotifyContext = Defer (Raise (Cancelled ''ctx''))"

definition agg_life :: "bool \<Rightarrow> stmt list" where
  "agg_life timescale =
     [NotifyContext] @ (if timescale then [Do (TryOpen ''writer'')] else []) @
     [loop ''consume'' [''consumer''] Logs, loop ''tick'' [''writer''] NeverFails, server ''http'' [] Logs, Do (Await Signal)] @
     Shutdown ''http'' @ [Do (Raise (Closed ''consumer'')), Do (Raise (Closed ''writer''))]"

definition val_life :: "stmt list" where
  "val_life =
     [NotifyContext, loop ''consume'' [''consumer''] Logs, server ''http'' [] Logs, Do (Await Signal)] @
     Shutdown ''http'' @ [Do (Raise (Closed ''consumer''))]"

definition lb_life :: "bool \<Rightarrow> bool \<Rightarrow> stmt list" where
  "lb_life redis seed =
     [NotifyContext] @ (if redis then [Do (TryOpen ''store'')] else []) @
     [loop (if seed then ''seeder'' else ''ingest'') [''store''] NeverFails, server ''http'' [''store''] Logs, Do (Await Signal)] @
     Shutdown ''http'' @ [Do (Raise (Closed ''store''))]"

text \<open>The streams of the bots are handlers of the gRPC server that return when the bot has ended them.\<close>

definition ing_life :: "stmt list" where
  "ing_life =
     [NotifyContext,
      Do (Go \<lparr>goName = ''drain'', goUses = [''producer''], goStops = [Closed ''buffer''], goFails = NeverFails\<rparr>),
      Do (TryOpen ''listener''), server ''grpc'' [] Logs,
      Do (Go \<lparr>goName = ''grpc'', goUses = [''buffer''], goStops = [PeerDone ''bots''], goFails = NeverFails\<rparr>),
      Do (Await Signal)] @
     GracefulStop ''grpc'' @ [Do (Raise (Closed ''buffer'')), Do (Join ''drain''), Do (Raise (Closed ''producer''))]"

definition coord_life :: "bool \<Rightarrow> stmt list" where
  "coord_life k8s =
     (if k8s then [Do (TryOpen ''cluster'')] else []) @ [NotifyContext, server ''http'' [''cluster''] Exits, Do (Await Signal)] @ Shutdown ''http''"

definition sandbox_life :: "stmt list" where
  "sandbox_life =
     [Do (TryOpen ''cluster''), Do (TryOpen ''listener''), NotifyContext, loop ''watch'' [''cluster''] Logs,
      server ''http'' [] Logs, server ''grpc'' [''cluster''] Logs, Do (Await Signal)] @ Shutdown ''http'' @ GracefulStop ''grpc''"

definition gw_life :: "stmt list" where
  "gw_life = [Do (TryOpen ''proxy''), NotifyContext, server ''http'' [''proxy''] Exits, Do (Await Signal)] @ Shutdown ''http''"

definition sub_life :: "bool \<Rightarrow> stmt list" where
  "sub_life sandbox =
     (let sb = (if sandbox then [''sandbox''] else []) in
     [Do (TryOpen ''objects''), Do (TryOpen ''repo''), Defer (Raise (Closed ''repo'')), Defer (Raise (Cancelled ''root''))] @
     (if sandbox then [Do (TryOpen ''sandbox''), Defer (Raise (Closed ''sandbox''))] else []) @
     [Do (TryOpen ''builder''),
      Do (Go \<lparr>goName = ''worker'', goUses = [''repo'', ''objects''] @ sb, goStops = [Cancelled ''root''], goFails = NeverFails\<rparr>),
      server ''http'' [''repo'', ''objects''] Exits, Do (Await Signal)] @
     Shutdown ''http'' @ [Do (Raise (Cancelled ''root'')), Do (JoinOr ''worker'')])"

text \<open>A bot starts \<open>n\<close> workers, which stop early when they cannot make their client.\<close>

definition bot_life :: "nat \<Rightarrow> bool \<Rightarrow> stmt list" where
  "bot_life n burst =
     [Do (TryOpen ''profile''), NotifyContext] @ (if burst then [loop ''burst'' [] NeverFails] else []) @
     [Do (TryOpen ''factory'')] @ replicate n (loop ''worker'' [''telemetry''] Logs) @
     [server ''http'' [] Logs, Do (Await Signal)] @ Shutdown ''http'' @ [Do (Join ''worker''), Do (Raise (Closed ''telemetry''))]"

definition ref_life :: "stmt list" where
  "ref_life = [NotifyContext, server ''http'' [] Exits, Do (Await Signal)] @ Shutdown ''http''"

definition smoke_life :: "stmt list" where
  "smoke_life = [server ''http'' [] Exits, Do (Await Signal)] @ Shutdown ''http''"

section \<open>Runs\<close>

datatype ending = Returned | ExitedWithError

record process =
  prMain :: "act list"
  prLive :: "goroutine list"
  prFacts :: "fact set"
  prEnd :: "ending option"

definition start :: "act list \<Rightarrow> process" where
  "start as = \<lparr>prMain = as, prLive = [], prFacts = {}, prEnd = None\<rparr>"

datatype proc_label = MainStep act | TimerFires string | OpenFails string | MainEnds
  | Uses goroutine string | Returns goroutine | Fails goroutine | SignalArrives | PeerLeaves string

definition finished :: "string \<Rightarrow> goroutine list \<Rightarrow> bool" where
  "finished t live \<longleftrightarrow> list_all (\<lambda>g. goName g \<noteq> t) live"

definition told_to_stop :: "goroutine \<Rightarrow> fact set \<Rightarrow> bool" where
  "told_to_stop g facts \<longleftrightarrow> list_ex (\<lambda>f. f \<in> facts) (goStops g)"

inductive proc_step :: "process \<Rightarrow> proc_label \<Rightarrow> process \<Rightarrow> bool" where
  main_open: "prEnd s = None \<Longrightarrow> prMain s = TryOpen r # as \<Longrightarrow> proc_step s (MainStep (TryOpen r)) (s\<lparr>prMain := as\<rparr>)"
| main_open_fails: "prEnd s = None \<Longrightarrow> prMain s = TryOpen r # as \<Longrightarrow> proc_step s (OpenFails r) (s\<lparr>prEnd := Some ExitedWithError\<rparr>)"
| main_go: "prEnd s = None \<Longrightarrow> prMain s = Go g # as \<Longrightarrow> proc_step s (MainStep (Go g)) (s\<lparr>prMain := as, prLive := g # prLive s\<rparr>)"
| main_await: "prEnd s = None \<Longrightarrow> prMain s = Await f # as \<Longrightarrow> f \<in> prFacts s \<Longrightarrow> proc_step s (MainStep (Await f)) (s\<lparr>prMain := as\<rparr>)"
| main_raise: "prEnd s = None \<Longrightarrow> prMain s = Raise f # as \<Longrightarrow>
    proc_step s (MainStep (Raise f)) (s\<lparr>prMain := as, prFacts := insert f (prFacts s)\<rparr>)"
| main_join: "prEnd s = None \<Longrightarrow> prMain s = Join t # as \<Longrightarrow> finished t (prLive s) \<Longrightarrow> proc_step s (MainStep (Join t)) (s\<lparr>prMain := as\<rparr>)"
| main_join_or: "prEnd s = None \<Longrightarrow> prMain s = JoinOr t # as \<Longrightarrow> finished t (prLive s) \<Longrightarrow> proc_step s (MainStep (JoinOr t)) (s\<lparr>prMain := as\<rparr>)"
| timer: "prEnd s = None \<Longrightarrow> prMain s = JoinOr t # as \<Longrightarrow> proc_step s (TimerFires t) (s\<lparr>prMain := as\<rparr>)"
| main_ends: "prEnd s = None \<Longrightarrow> prMain s = [] \<Longrightarrow> proc_step s MainEnds (s\<lparr>prEnd := Some Returned\<rparr>)"
| uses: "prEnd s = None \<Longrightarrow> g \<in> set (prLive s) \<Longrightarrow> r \<in> set (goUses g) \<Longrightarrow> proc_step s (Uses g r) s"
| returns: "prEnd s = None \<Longrightarrow> g \<in> set (prLive s) \<Longrightarrow> told_to_stop g (prFacts s) \<Longrightarrow>
    proc_step s (Returns g) (s\<lparr>prLive := remove1 g (prLive s)\<rparr>)"
| fails_logged: "prEnd s = None \<Longrightarrow> g \<in> set (prLive s) \<Longrightarrow> goFails g = Logs \<Longrightarrow> proc_step s (Fails g) (s\<lparr>prLive := remove1 g (prLive s)\<rparr>)"
| fails_exits: "prEnd s = None \<Longrightarrow> g \<in> set (prLive s) \<Longrightarrow> goFails g = Exits \<Longrightarrow> proc_step s (Fails g) (s\<lparr>prEnd := Some ExitedWithError\<rparr>)"
| signal: "prEnd s = None \<Longrightarrow> proc_step s SignalArrives (s\<lparr>prFacts := insert Signal (prFacts s)\<rparr>)"
| peer: "prEnd s = None \<Longrightarrow> proc_step s (PeerLeaves p) (s\<lparr>prFacts := insert (PeerDone p) (prFacts s)\<rparr>)"

inductive proc_run :: "process \<Rightarrow> proc_label list \<Rightarrow> process \<Rightarrow> bool" where
  proc_nil: "proc_run s [] s"
| proc_cons: "proc_step s l s1 \<Longrightarrow> proc_run s1 ls s2 \<Longrightarrow> proc_run s (l # ls) s2"

inductive_simps proc_step_simps:
  "proc_step s (MainStep a) s'" "proc_step s (TimerFires t) s'" "proc_step s (OpenFails r) s'" "proc_step s MainEnds s'"
  "proc_step s (Uses g r) s'" "proc_step s (Returns g) s'" "proc_step s (Fails g) s'" "proc_step s SignalArrives s'" "proc_step s (PeerLeaves p) s'"

inductive_simps proc_run_simps: "proc_run s [] s'" "proc_run s (l # ls) s'"

inductive_cases proc_stepE: "proc_step s l s'"

section \<open>Nothing is used after it was closed\<close>

text \<open>
  The discipline: what a goroutine uses is closed only after \<open>main\<close> has waited for it, and no goroutine is
  started on something closed. \<open>L\<close> are the goroutines that may be live, \<open>C\<close> what has been closed.
\<close>

definition uses_none :: "string list \<Rightarrow> goroutine list \<Rightarrow> bool" where
  "uses_none C L \<longleftrightarrow> list_all (\<lambda>g. list_all (\<lambda>r. r \<notin> set C) (goUses g)) L"

fun orderly :: "goroutine list \<Rightarrow> string list \<Rightarrow> act list \<Rightarrow> bool" where
  "orderly L C [] = True"
| "orderly L C (Go g # as) = (uses_none C [g] \<and> orderly (g # L) C as)"
| "orderly L C (Raise (Closed r) # as) = (uses_none [r] L \<and> orderly L (r # C) as)"
| "orderly L C (Join t # as) = orderly (filter (\<lambda>g. goName g \<noteq> t) L) C as"
| "orderly L C (JoinOr t # as) = orderly (filter (\<lambda>g. goName g \<noteq> t) L) C as"
| "orderly L C (a # as) = orderly L C as"

definition tidy :: "process \<Rightarrow> bool" where
  "tidy s \<longleftrightarrow> (\<exists>L C. orderly L C (prMain s) \<and> uses_none C L \<and> set (prLive s) \<subseteq> set L \<and> (\<forall>r. Closed r \<in> prFacts s \<longrightarrow> r \<in> set C))"

lemma tidy_step:
  assumes "proc_step s l s'" "tidy s" "\<forall>t. l \<noteq> TimerFires t"
  shows "tidy s'"
proof -
  from assms(2) obtain L C where inv: "orderly L C (prMain s)" "uses_none C L" "set (prLive s) \<subseteq> set L"
    "\<forall>r. Closed r \<in> prFacts s \<longrightarrow> r \<in> set C" by (auto simp: tidy_def)
  have removed: "set (remove1 g (prLive s)) \<subseteq> set L" for g using inv(3) by (meson notin_set_remove1 subset_code(1))
  from assms(1) show ?thesis
  proof (cases rule: proc_step.cases)
    case (main_go g as)
    then show ?thesis using inv unfolding tidy_def
      by (intro exI [of _ "g # L"] exI [of _ C]) (auto simp: uses_none_def)
  next
    case (main_raise f as)
    then show ?thesis
    proof (cases f)
      case (Closed r)
      then show ?thesis using inv main_raise unfolding tidy_def
        by (intro exI [of _ L] exI [of _ "r # C"]) (auto simp: uses_none_def list_all_iff)
    qed (use inv main_raise in \<open>auto simp: tidy_def\<close>)
  next
    case (main_join t as)
    then show ?thesis using inv unfolding tidy_def
      by (intro exI [of _ "filter (\<lambda>g. goName g \<noteq> t) L"] exI [of _ C]) (auto simp: uses_none_def list_all_iff finished_def)
  next
    case (main_join_or t as)
    then show ?thesis using inv unfolding tidy_def
      by (intro exI [of _ "filter (\<lambda>g. goName g \<noteq> t) L"] exI [of _ C]) (auto simp: uses_none_def list_all_iff finished_def)
  next
    case (returns g)
    then show ?thesis using inv removed [of g] unfolding tidy_def by (intro exI [of _ L] exI [of _ C]) simp
  next
    case (fails_logged g)
    then show ?thesis using inv removed [of g] unfolding tidy_def by (intro exI [of _ L] exI [of _ C]) simp
  qed (use inv assms(2,3) in \<open>auto simp: tidy_def\<close>)
qed

lemma tidy_run: "proc_run s ls s' \<Longrightarrow> tidy s \<Longrightarrow> \<forall>t. TimerFires t \<notin> set ls \<Longrightarrow> tidy s'"
proof (induction rule: proc_run.induct)
  case (proc_cons s l s1 ls s2)
  then have "\<forall>t. l \<noteq> TimerFires t" "\<forall>t. TimerFires t \<notin> set ls" by auto
  with tidy_step [OF proc_cons(1)] proc_cons show ?case by blast
qed

lemma tidy_uses: "tidy s \<Longrightarrow> g \<in> set (prLive s) \<Longrightarrow> r \<in> set (goUses g) \<Longrightarrow> Closed r \<notin> prFacts s"
  by (auto simp: tidy_def uses_none_def list_all_iff subset_iff)

lemma orderly_is_safe:
  assumes "orderly [] [] as" "proc_run (start as) ls s" "\<forall>t. TimerFires t \<notin> set ls" "proc_step s (Uses g r) s'"
  shows "Closed r \<notin> prFacts s"
proof -
  have "tidy (start as)" unfolding tidy_def by (intro exI [of _ "[]"]) (simp add: start_def uses_none_def assms(1))
  from tidy_run [OF assms(2) this assms(3)] show ?thesis using tidy_uses assms(4) by (auto simp: proc_step_simps)
qed

text \<open>Starting \<open>n\<close> copies of a goroutine is as starting one.\<close>

lemma with_defers_append_Do: "with_defers ds (map Do as @ ss) = as @ with_defers ds ss"
  by (induction as) auto

lemma orderly_mono: "orderly L' C as \<Longrightarrow> set L \<subseteq> set L' \<Longrightarrow> orderly L C as"
proof (induction L C as arbitrary: L' rule: orderly.induct)
  case (2 L C g as)
  from 2(1) [of "g # L'"] 2(2,3) show ?case by auto
next
  case (3 L C r as)
  from 3(1) [of L'] 3(2,3) show ?case by (auto simp: uses_none_def list_all_iff)
next
  case (4 L C t as)
  have "set (filter (\<lambda>g. goName g \<noteq> t) L) \<subseteq> set (filter (\<lambda>g. goName g \<noteq> t) L')" using 4(3) by auto
  from 4(1) [OF _ this] 4(2) show ?case by simp
next
  case (5 L C t as)
  have "set (filter (\<lambda>g. goName g \<noteq> t) L) \<subseteq> set (filter (\<lambda>g. goName g \<noteq> t) L')" using 5(3) by auto
  from 5(1) [OF _ this] 5(2) show ?case by simp
qed auto

lemma orderly_replicate: "orderly L C (Go g # as) \<Longrightarrow> orderly L C (replicate n (Go g) @ as)"
proof (induction n arbitrary: L)
  case 0
  then show ?case by (auto intro: orderly_mono)
next
  case (Suc n)
  have "orderly (g # L) C (Go g # as)" using Suc(2) by (auto intro: orderly_mono)
  from Suc(1) [OF this] Suc(2) show ?case by simp
qed

section \<open>The way to the end is never blocked\<close>

text \<open>
  What \<open>main\<close> waits for has been told to stop by then, or a timer bounds the wait. \<open>F\<close> are facts that have
  happened, \<open>L\<close> the goroutines that may be live.
\<close>

fun unblocked :: "fact list \<Rightarrow> goroutine list \<Rightarrow> act list \<Rightarrow> bool" where
  "unblocked F L [] = True"
| "unblocked F L (Go g # as) = unblocked F (g # L) as"
| "unblocked F L (Await f # as) = (f \<in> set F \<and> unblocked F L as)"
| "unblocked F L (Raise f # as) = unblocked (f # F) L as"
| "unblocked F L (Join t # as) = (list_all (\<lambda>g. goName g \<noteq> t \<or> told_to_stop g (set F)) L \<and> unblocked F (filter (\<lambda>g. goName g \<noteq> t) L) as)"
| "unblocked F L (JoinOr t # as) = unblocked F L as"
| "unblocked F L (TryOpen r # as) = unblocked F L as"

text \<open>The steps that bring a process nearer to its end, and how many there can still be.\<close>

fun progress :: "proc_label \<Rightarrow> bool" where
  "progress (MainStep a) = True"
| "progress (TimerFires t) = True"
| "progress (OpenFails r) = True"
| "progress MainEnds = True"
| "progress (Returns g) = True"
| "progress l = False"

fun act_work :: "act \<Rightarrow> nat" where
  "act_work (Go g) = 2"
| "act_work a = 1"

definition work :: "process \<Rightarrow> nat" where
  "work s = (if prEnd s = None then 1 + sum_list (map act_work (prMain s)) + length (prLive s) else 0)"

lemma work_remove: "g \<in> set live \<Longrightarrow> Suc (length (remove1 g live)) = length live"
  by (simp add: length_remove1) (metis Suc_pred length_pos_if_in_set)

lemma work_step: "proc_step s l s' \<Longrightarrow> (if progress l then work s' < work s else work s' \<le> work s)"
  by (erule proc_stepE) (auto simp: work_def dest: work_remove)

lemma work_run: "proc_run s ls s' \<Longrightarrow> length (filter progress ls) + work s' \<le> work s"
proof (induction rule: proc_run.induct)
  case (proc_cons s l s1 ls s2)
  then show ?case using work_step [OF proc_cons(1)] by (auto split: if_splits)
qed simp

definition heading :: "fact list \<Rightarrow> process \<Rightarrow> bool" where
  "heading E s \<longleftrightarrow> (\<exists>F L. unblocked F L (prMain s) \<and> set (prLive s) \<subseteq> set L \<and> set F \<subseteq> prFacts s \<union> set E)"

lemma heading_step:
  assumes "proc_step s l s'" "heading E s"
  shows "heading E s'"
proof -
  from assms(2) obtain F L where inv: "unblocked F L (prMain s)" "set (prLive s) \<subseteq> set L" "set F \<subseteq> prFacts s \<union> set E"
    by (auto simp: heading_def)
  have removed: "set (remove1 g (prLive s)) \<subseteq> set L" for g using inv(2) by (meson notin_set_remove1 subset_code(1))
  from assms(1) show ?thesis
  proof (cases rule: proc_step.cases)
    case (main_go g as)
    then show ?thesis using inv unfolding heading_def by (intro exI [of _ F] exI [of _ "g # L"]) auto
  next
    case (main_raise f as)
    then show ?thesis using inv unfolding heading_def by (intro exI [of _ "f # F"] exI [of _ L]) auto
  next
    case (main_join t as)
    then show ?thesis using inv unfolding heading_def
      by (intro exI [of _ F] exI [of _ "filter (\<lambda>g. goName g \<noteq> t) L"]) (auto simp: finished_def list_all_iff)
  next
    case (returns g)
    then show ?thesis using inv removed [of g] unfolding heading_def by (intro exI [of _ F] exI [of _ L]) simp
  next
    case (fails_logged g)
    then show ?thesis using inv removed [of g] unfolding heading_def by (intro exI [of _ F] exI [of _ L]) simp
  next
    case signal
    then show ?thesis using inv unfolding heading_def by (intro exI [of _ F] exI [of _ L]) auto
  next
    case (peer p)
    then show ?thesis using inv unfolding heading_def by (intro exI [of _ F] exI [of _ L]) auto
  qed (use inv in \<open>auto simp: heading_def\<close>)
qed

lemma heading_run: "proc_run s ls s' \<Longrightarrow> heading E s \<Longrightarrow> heading E s'"
  by (induction rule: proc_run.induct) (auto dest: heading_step)

lemma told_to_stop_mono: "told_to_stop g F \<Longrightarrow> F \<subseteq> F' \<Longrightarrow> told_to_stop g F'"
  by (auto simp: told_to_stop_def list_ex_iff)

lemma heading_progresses:
  assumes "heading E s" "set E \<subseteq> prFacts s" "prEnd s = None"
  shows "\<exists>l s'. proc_step s l s' \<and> progress l"
proof -
  have "prFacts s \<union> set E = prFacts s" using assms(2) by blast
  with assms(1) obtain F L where inv: "unblocked F L (prMain s)" "set (prLive s) \<subseteq> set L" "set F \<subseteq> prFacts s"
    by (auto simp: heading_def)
  show ?thesis
  proof (cases "prMain s")
    case Nil
    from main_ends [OF assms(3) this] show ?thesis by fastforce
  next
    case (Cons a as)
    show ?thesis
    proof (cases a)
      case (TryOpen r)
      from main_open [OF assms(3) Cons [unfolded this]] show ?thesis by fastforce
    next
      case (Go g)
      from main_go [OF assms(3) Cons [unfolded this]] show ?thesis by fastforce
    next
      case (Await f)
      with inv Cons have "f \<in> prFacts s" by auto
      from main_await [OF assms(3) Cons [unfolded Await] this] show ?thesis by fastforce
    next
      case (Raise f)
      from main_raise [OF assms(3) Cons [unfolded this]] show ?thesis by fastforce
    next
      case (Join t)
      show ?thesis
      proof (cases "finished t (prLive s)")
        case True
        from main_join [OF assms(3) Cons [unfolded Join] this] show ?thesis by fastforce
      next
        case False
        then obtain g where g: "g \<in> set (prLive s)" "goName g = t" by (auto simp: finished_def list_all_iff)
        with inv(1,2) Cons Join have "told_to_stop g (set F)" by (auto simp: list_all_iff subset_iff)
        from returns [OF assms(3) g(1) told_to_stop_mono [OF this inv(3)]] show ?thesis by fastforce
      qed
    next
      case (JoinOr t)
      from timer [OF assms(3) Cons [unfolded this]] show ?thesis by fastforce
    qed
  qed
qed

lemma unblocked_never_stuck:
  assumes "unblocked E [] as" "proc_run (start as) ls s" "set E \<subseteq> prFacts s"
  shows "(prEnd s = None \<longrightarrow> (\<exists>l s'. proc_step s l s' \<and> progress l)) \<and> (\<forall>ls' s'. proc_run s ls' s' \<longrightarrow> length (filter progress ls') \<le> work s)"
proof -
  have "heading E (start as)" unfolding heading_def
    by (intro exI [of _ E] exI [of _ "[]"]) (simp add: start_def assms(1))
  from heading_progresses [OF heading_run [OF assms(2) this] assms(3)] work_run show ?thesis by fastforce
qed

lemma unblocked_replicate:
  "unblocked F (replicate n g @ L) as \<Longrightarrow> unblocked F L (replicate n (Go g) @ as)"
proof (induction n arbitrary: L)
  case (Suc n)
  have "unblocked F (replicate n g @ g # L) as" using Suc(2) by (simp add: replicate_app_Cons_same)
  from Suc(1) [OF this] show ?case by simp
qed simp

section \<open>The platform\<close>

lemmas main_defs = agg_life_def val_life_def lb_life_def ing_life_def coord_life_def sandbox_life_def gw_life_def sub_life_def
  ref_life_def smoke_life_def loop_def server_def Shutdown_def GracefulStop_def NotifyContext_def Let_def

lemmas discipline_defs = main_defs uses_none_def told_to_stop_def

text \<open>The mains that wait for every goroutine before they close what it uses.\<close>

definition waiting_mains :: "bool \<Rightarrow> nat \<Rightarrow> stmt list list" where
  "waiting_mains option n = [ing_life, sub_life option, bot_life n option, coord_life option, sandbox_life, gw_life, ref_life, smoke_life]"

definition all_mains :: "bool \<Rightarrow> bool \<Rightarrow> nat \<Rightarrow> stmt list list" where
  "all_mains option seed n = waiting_mains option n @ [agg_life option, val_life, lb_life option seed]"

definition bot_worker :: goroutine where
  "bot_worker = \<lparr>goName = ''worker'', goUses = [''telemetry''], goStops = [Signal, Cancelled ''ctx''], goFails = Logs\<rparr>"

lemma bot_acts:
  "\<exists>before rest. acts_of (bot_life n burst) = before @ replicate n (Go bot_worker) @ rest
     \<and> orderly [] [] (before @ Go bot_worker # rest) \<and> (\<forall>F. Signal \<in> set F \<longrightarrow> unblocked F [] (before @ replicate n (Go bot_worker) @ rest))"
proof -
  define tail where "tail = [server ''http'' [] Logs, Do (Await Signal)] @ Shutdown ''http'' @ [Do (Join ''worker''), Do (Raise (Closed ''telemetry''))]"
  let ?rest = "with_defers [Raise (Cancelled ''ctx'')] tail"
  let ?burst = "if burst then [Go \<lparr>goName = ''burst'', goUses = [], goStops = [Signal, Cancelled ''ctx''], goFails = NeverFails\<rparr>] else []"
  let ?before = "[TryOpen ''profile''] @ ?burst @ [TryOpen ''factory'']"
  have loops: "loop ''burst'' [] NeverFails = Do (Go \<lparr>goName = ''burst'', goUses = [], goStops = [Signal, Cancelled ''ctx''], goFails = NeverFails\<rparr>)"
    by (simp add: loop_def)
  have "replicate n (loop ''worker'' [''telemetry''] Logs) = map Do (replicate n (Go bot_worker))" by (simp add: loop_def bot_worker_def)
  then have workers: "with_defers ds (replicate n (loop ''worker'' [''telemetry''] Logs) @ ss) = replicate n (Go bot_worker) @ with_defers ds ss"
    for ds ss by (simp only: with_defers_append_Do)
  have "acts_of (bot_life n burst) = ?before @ replicate n (Go bot_worker) @ ?rest"
    unfolding bot_life_def tail_def [symmetric] append_assoc by (simp add: workers loops NotifyContext_def)
  moreover have "orderly [] [] (?before @ Go bot_worker # ?rest)" by (simp add: tail_def bot_worker_def discipline_defs)
  moreover have "unblocked F (replicate n bot_worker @ L) ?rest"
    if "Signal \<in> set F" "list_all (\<lambda>g. goName g \<noteq> ''worker'') L" for F L
    using that by (auto simp: tail_def bot_worker_def discipline_defs list_all_iff)
  then have "unblocked F L (replicate n (Go bot_worker) @ ?rest)"
    if "Signal \<in> set F" "list_all (\<lambda>g. goName g \<noteq> ''worker'') L" for F L using that by (intro unblocked_replicate) blast
  then have "Signal \<in> set F \<Longrightarrow> unblocked F [] (?before @ replicate n (Go bot_worker) @ ?rest)" for F by simp
  ultimately show ?thesis by blast
qed

lemma orderly_bot: "orderly [] [] (acts_of (bot_life n burst))"
proof -
  have into: "orderly L C (before @ Go g # rest) \<Longrightarrow> orderly L C (before @ replicate n (Go g) @ rest)" for L C before g rest
  proof (induction L C before rule: orderly.induct)
    case (1 L C)
    then show ?case by (simp add: orderly_replicate)
  qed simp_all
  from bot_acts [of n burst] into show ?thesis by metis
qed

lemma unblocked_bot: "Signal \<in> set F \<Longrightarrow> unblocked F [] (acts_of (bot_life n burst))"
  using bot_acts [of n burst] by metis

lemma orderly_mains:
  "orderly [] [] (acts_of ing_life)" "orderly [] [] (acts_of (sub_life option))" "orderly [] [] (acts_of (coord_life option))"
  "orderly [] [] (acts_of sandbox_life)" "orderly [] [] (acts_of gw_life)" "orderly [] [] (acts_of ref_life)" "orderly [] [] (acts_of smoke_life)"
  by (simp_all add: discipline_defs)

lemma unblocked_mains:
  assumes "Signal \<in> set F"
  shows "unblocked F [] (acts_of (sub_life option))" "unblocked F [] (acts_of (coord_life option))"
    "unblocked F [] (acts_of sandbox_life)" "unblocked F [] (acts_of gw_life)" "unblocked F [] (acts_of ref_life)" "unblocked F [] (acts_of smoke_life)"
    "unblocked F [] (acts_of (agg_life option))" "unblocked F [] (acts_of val_life)" "unblocked F [] (acts_of (lb_life option seed))"
    "PeerDone ''bots'' \<in> set F \<Longrightarrow> unblocked F [] (acts_of ing_life)"
  using assms by (simp_all add: discipline_defs)

lemma waiting_orderly: "ss \<in> set (waiting_mains option n) \<Longrightarrow> orderly [] [] (acts_of ss)"
  by (simp only: waiting_mains_def list.set insert_iff empty_iff, elim disjE) (simp_all only: orderly_bot orderly_mains)

lemma all_unblocked:
  "ss \<in> set (all_mains option seed n) \<Longrightarrow> Signal \<in> set F \<Longrightarrow> ss = ing_life \<longrightarrow> PeerDone ''bots'' \<in> set F \<Longrightarrow> unblocked F [] (acts_of ss)"
  by (simp only: all_mains_def waiting_mains_def set_append list.set Un_iff insert_iff empty_iff, elim disjE)
    (simp_all only: unblocked_bot unblocked_mains simp_thms)

text \<open>C36: Nothing is used after it was closed: in the telemetry ingester, the submission service, a bot, the coordinator, the sandbox
  runner, the gateway and the two sample servers, however their goroutines interleave with \<open>main\<close>, fail and are
  signalled, no goroutine uses what \<open>main\<close> has closed, as long as no deadline of the shutdown passes.\<close>

theorem nothing_used_after_close:
  assumes "ss \<in> set (waiting_mains option n)" "proc_run (start (acts_of ss)) ls s" "\<forall>t. TimerFires t \<notin> set ls"
    and "proc_step s (Uses g r) s'"
  shows "Closed r \<notin> prFacts s"
  using orderly_is_safe [OF waiting_orderly [OF assms(1)] assms(2-4)] .

definition drainer :: goroutine where
  "drainer = \<lparr>goName = ''drain'', goUses = [''producer''], goStops = [Closed ''buffer''], goFails = NeverFails\<rparr>"

lemma ing_acts: "\<exists>rest. acts_of ing_life = Go drainer # rest"
  by (simp add: ing_life_def NotifyContext_def drainer_def)

theorem nothing_used_after_close_witness:
  "\<exists>ls s s'. proc_run (start (acts_of ing_life)) ls s \<and> proc_step s (Uses drainer ''producer'') s' \<and> Closed ''producer'' \<notin> prFacts s"
proof -
  obtain rest where acts: "acts_of ing_life = Go drainer # rest" using ing_acts by blast
  define s where "s = (start (acts_of ing_life))\<lparr>prMain := rest, prLive := [drainer]\<rparr>"
  have "proc_step (start (acts_of ing_life)) (MainStep (Go drainer)) s"
    by (simp add: proc_step_simps s_def acts start_def)
  then have run: "proc_run (start (acts_of ing_life)) [MainStep (Go drainer)] s" by (blast intro: proc_run.intros)
  have use: "proc_step s (Uses drainer ''producer'') s" by (simp add: proc_step_simps s_def start_def drainer_def)
  have "ing_life \<in> set (waiting_mains True 1)" by (simp add: waiting_mains_def)
  from nothing_used_after_close [OF this run _ use] run use show ?thesis by auto
qed



section \<open>The mains that break a discipline\<close>

text \<open>
  Aggregator, validator and leaderboard close the consumer, the writer and the store without waiting for the goroutines
  that use them: a window flushed as the signal arrives can meet a closed writer, with no deadline passed.
\<close>

definition shut_http :: "goroutine list \<Rightarrow> fact list \<Rightarrow> proc_label list" where
  "shut_http gs closes = map (MainStep \<circ> Go) gs @ [SignalArrives, MainStep (Await Signal), MainStep (Raise (Stopped ''http'')), Returns (last gs), MainStep (JoinOr ''http'')]
     @ map (MainStep \<circ> Raise) closes"

abbreviation ticker :: goroutine where
  "ticker \<equiv> \<lparr>goName = ''tick'', goUses = [''writer''], goStops = [Signal, Cancelled ''ctx''], goFails = NeverFails\<rparr>"

abbreviation consuming :: goroutine where
  "consuming \<equiv> \<lparr>goName = ''consume'', goUses = [''consumer''], goStops = [Signal, Cancelled ''ctx''], goFails = Logs\<rparr>"

abbreviation listening :: "string list \<Rightarrow> goroutine" where
  "listening uses \<equiv> \<lparr>goName = ''http'', goUses = uses, goStops = [Stopped ''http''], goFails = Logs\<rparr>"

abbreviation ingesting :: goroutine where
  "ingesting \<equiv> \<lparr>goName = ''ingest'', goUses = [''store''], goStops = [Signal, Cancelled ''ctx''], goFails = NeverFails\<rparr>"

lemmas run_simps = proc_run_simps proc_step_simps start_def shut_http_def finished_def told_to_stop_def discipline_defs

lemma aggregator_writes_after_close:
  "\<exists>s. proc_run (start (acts_of (agg_life False))) (shut_http [consuming, ticker, listening []] [Closed ''consumer'', Closed ''writer'']) s
     \<and> proc_step s (Uses ticker ''writer'') s \<and> Closed ''writer'' \<in> prFacts s"
  by (simp add: run_simps)

lemma validator_reads_after_close:
  "\<exists>s. proc_run (start (acts_of val_life)) (shut_http [consuming, listening []] [Closed ''consumer'']) s
     \<and> proc_step s (Uses consuming ''consumer'') s \<and> Closed ''consumer'' \<in> prFacts s"
  by (simp add: run_simps)

lemma leaderboard_stores_after_close:
  "\<exists>s. proc_run (start (acts_of (lb_life False False))) (shut_http [ingesting, listening [''store'']] [Closed ''store'']) s
     \<and> proc_step s (Uses ingesting ''store'') s \<and> Closed ''store'' \<in> prFacts s"
  by (simp add: run_simps)

text \<open>A listener that fails is only logged there: the process lives on without its API until it is signalled.\<close>

lemma aggregator_outlives_its_api:
  "\<exists>s. proc_run (start (acts_of (agg_life False))) (map (MainStep \<circ> Go) [consuming, ticker, listening []] @ [Fails (listening [])]) s
     \<and> prEnd s = None \<and> finished ''http'' (prLive s) \<and> (\<forall>a s'. \<not> proc_step s (MainStep a) s')"
  by (simp add: run_simps)

text \<open>With a bot's stream open the ingester waits in \<open>GracefulStop\<close>, without a deadline: no step of its own is left.\<close>

abbreviation stream_handler :: goroutine where
  "stream_handler \<equiv> \<lparr>goName = ''grpc'', goUses = [''buffer''], goStops = [PeerDone ''bots''], goFails = NeverFails\<rparr>"

abbreviation grpc_listener :: goroutine where
  "grpc_listener \<equiv> \<lparr>goName = ''grpc'', goUses = [], goStops = [Stopped ''grpc''], goFails = Logs\<rparr>"

definition stuck :: "process \<Rightarrow> bool" where
  "stuck s \<longleftrightarrow> prEnd s = None \<and> (\<forall>l s'. proc_step s l s' \<longrightarrow> \<not> progress l)"

lemma stuck_join:
  "stuck \<lparr>prMain = Join t # as, prLive = live, prFacts = F, prEnd = None\<rparr>"
  if "\<not> finished t live" "list_all (\<lambda>g. \<not> told_to_stop g F) live"
  using that by (auto simp: stuck_def list_all_iff elim!: proc_stepE)

lemma ingester_waits_for_bots:
  "\<exists>s. proc_run (start (acts_of ing_life))
       [MainStep (Go drainer), MainStep (TryOpen ''listener''), MainStep (Go grpc_listener), MainStep (Go stream_handler), SignalArrives,
        MainStep (Await Signal), MainStep (Raise (Stopped ''grpc'')), Returns grpc_listener] s \<and> stuck s"
  by (simp add: run_simps drainer_def stuck_join)

end
