(* ===== verification/BuildWorker.thy ===== *)
theory BuildWorker
  imports Submission
begin

text \<open>
  The life of the build worker (\<open>submission-svc/internal/build/buildkit.go\<close>: \<open>Run\<close>, \<open>process\<close>, \<open>cancelAll\<close>, \<open>execRunCmd\<close>)
  among the uploads that arrive while it works and a shutdown at any moment. A job is taken in one step and finished in
  a later one, so that uploads and the end of the context fall in between. The lemmas show what a
  shutdown leaves behind, that the two steps together are \<open>bk_process\<close>, and how the output of a command gets to
  the readers of the build log.
\<close>

section \<open>The worker\<close>

text \<open>
  The goroutine of \<open>Run\<close> is at its \<open>select\<close>, in the middle of a build, or has returned. \<open>bdCancelled\<close> are the
  builds whose cancel function \<open>cancelAll\<close> called; \<open>bdAccepted\<close> is a history of the uploads that were accepted.
\<close>

datatype worker_pc = AtSelect | InBuild string Submission | WorkerReturned

record 's worker =
  bdRepo :: 's
  bdQueue :: "string chan"
  bdPc :: worker_pc
  bdInFlight :: "string set"
  bdDone :: bool
  bdCancelled :: "string set"
  bdCalls :: "sandbox_call list"
  bdLog :: "(string \<times> string \<times> string) list"
  bdAccepted :: "string list"

definition new_worker :: "'s \<Rightarrow> 's worker" where
  "new_worker s0 = \<lparr>bdRepo = s0, bdQueue = new_queue, bdPc = AtSelect, bdInFlight = {}, bdDone = False, bdCancelled = {},
     bdCalls = [], bdLog = [], bdAccepted = []\<rparr>"

text \<open>The deferred calls of \<open>process\<close>: the entry of \<open>inFlight\<close> is deleted and the worker is back at its \<open>select\<close>.\<close>

definition process_returns :: "string \<Rightarrow> 's worker \<Rightarrow> 's worker" where
  "process_returns i w = w\<lparr>bdInFlight := bdInFlight w - {i}, bdPc := AtSelect\<rparr>"

definition process_starts :: "'s Repository \<Rightarrow> instant \<Rightarrow> string \<Rightarrow> 's worker \<Rightarrow> 's worker" where
  "process_starts repo now i w0 = (let w = w0\<lparr>bdInFlight := insert i (bdInFlight w0)\<rparr> in
     case rpGet repo i (bdRepo w) of None \<Rightarrow> process_returns i w
     | Some sub \<Rightarrow> (case rpUpdateStatus repo now i StatusBuilding '''' '''' (bdRepo w) of
         (Some e, s1) \<Rightarrow> process_returns i (w\<lparr>bdRepo := s1\<rparr>)
       | (None, s1) \<Rightarrow> w\<lparr>bdRepo := s1, bdPc := InBuild i sub, bdLog := bdLog w @ [(i, ''status'', ''Build started'')]\<rparr>))"

definition process_ends :: "'s Repository \<Rightarrow> BuildKit \<Rightarrow> bool \<Rightarrow> build_env \<Rightarrow> instant \<Rightarrow> string \<Rightarrow> Submission \<Rightarrow> 's worker \<Rightarrow> 's worker" where
  "process_ends repo b has_sandbox env now i sub w = process_returns i (case runBuild b env sub of
     Inl err \<Rightarrow> w\<lparr>bdLog := bdLog w @ [(i, ''status'', ''Build failed: '' @ truncate_to 512 err)],
                  bdRepo := snd (rpUpdateStatus repo now i StatusBuildFailed '''' (truncate_to 4096 err) (bdRepo w))\<rparr>
   | Inr ref \<Rightarrow> (case rpUpdateStatus repo now i StatusReady ref '''' (bdRepo w) of
       (Some e, s2) \<Rightarrow> w\<lparr>bdRepo := s2\<rparr>
     | (None, s2) \<Rightarrow> w\<lparr>bdRepo := s2, bdLog := bdLog w @ [(i, ''status'', ''Image ready: '' @ ref)],
                      bdCalls := bdCalls w @ (if has_sandbox then [(i, sbContestantID sub, ref)] else [])\<rparr>))"

definition cancelAll :: "'s worker \<Rightarrow> 's worker" where
  "cancelAll w = w\<lparr>bdCancelled := bdCancelled w \<union> bdInFlight w\<rparr>"

text \<open>
  What can happen: an upload is handled, the \<open>select\<close> takes a job, the build of the job comes to its end, the context
  ends, the \<open>select\<close> sees that. With the context ended and a job waiting the \<open>select\<close> may take either.
  An event that is not possible in a state changes nothing.
\<close>

datatype worker_event = Upload string instant upload | TakeJob instant | BuildEnds build_env instant | ContextEnds | SelectDone

fun worker_step :: "'s Repository \<Rightarrow> (string \<Rightarrow> string \<Rightarrow> string + string) \<Rightarrow> int64 \<Rightarrow> BuildKit \<Rightarrow> bool \<Rightarrow> 's worker \<Rightarrow> worker_event \<Rightarrow> 's worker" where
  "worker_step repo put maxBytes b sb w (Upload i now up) =
     (case createSubmission repo put maxBytes i now up \<lparr>svRepo = bdRepo w, svQueue = bdQueue w, svLogs = None\<rparr> of
        (reply, sv) \<Rightarrow> w\<lparr>bdRepo := svRepo sv, bdQueue := svQueue sv,
          bdAccepted := (case reply of Accepted sub \<Rightarrow> bdAccepted w @ [i] | _ \<Rightarrow> bdAccepted w)\<rparr>)"
| "worker_step repo put maxBytes b sb w (TakeJob now) =
     (if bdPc w \<noteq> AtSelect then w
      else case Dequeue (bdQueue w) of None \<Rightarrow> w | Some (i, q) \<Rightarrow> process_starts repo now i (w\<lparr>bdQueue := q\<rparr>))"
| "worker_step repo put maxBytes b sb w (BuildEnds env now) =
     (case bdPc w of InBuild i sub \<Rightarrow> process_ends repo b sb env now i sub w | _ \<Rightarrow> w)"
| "worker_step repo put maxBytes b sb w ContextEnds = w\<lparr>bdDone := True\<rparr>"
| "worker_step repo put maxBytes b sb w SelectDone =
     (if bdPc w = AtSelect \<and> bdDone w then (cancelAll w)\<lparr>bdPc := WorkerReturned\<rparr> else w)"

section \<open>The two steps of a job\<close>

text \<open>With nothing in between they are \<open>bk_process\<close>.\<close>

lemma job_in_two_steps:
  assumes "bdPc w = AtSelect" "Dequeue (bdQueue w) = Some (i, q)"
    and "bk_process repo b sb env clk i (bdRepo w) = (s', calls, logs)"
    and "w' = worker_step repo put maxBytes b sb (worker_step repo put maxBytes b sb w (TakeJob (jcBuilding clk))) (BuildEnds env (jcFinal clk))"
  shows "bdRepo w' = s' \<and> bdCalls w' = bdCalls w @ calls \<and> bdLog w' = bdLog w @ map (\<lambda>t. (i, ''status'', t)) logs \<and> bdPc w' = AtSelect \<and> bdQueue w' = q"
  using assms(3) unfolding assms(4)
  by (auto simp: assms(1,2) bk_process_def process_starts_def process_ends_def process_returns_def Let_def
      split: option.splits prod.splits sum.splits)

section \<open>What a shutdown leaves\<close>

definition uploaded :: "Submission option \<Rightarrow> bool" where
  "uploaded x \<longleftrightarrow> (\<exists>sub. x = Some sub \<and> sbStatus sub = StatusUploaded)"

text \<open>
  Between two events: the entry of \<open>inFlight\<close> is that of the build under way, what waits in the queue is stored as
  uploaded, once, and every accepted upload waits, is being built or is settled.
\<close>

definition busy_with :: "'s worker \<Rightarrow> string set" where
  "busy_with w = (case bdPc w of InBuild i sub \<Rightarrow> {i} | _ \<Rightarrow> {})"

definition worker_ok :: "'s Repository \<Rightarrow> 's worker \<Rightarrow> bool" where
  "worker_ok repo w \<longleftrightarrow> bdInFlight w = busy_with w \<and> bdCancelled w = {} \<and> distinct (chBuf (bdQueue w))
     \<and> (\<forall>i \<in> set (chBuf (bdQueue w)). uploaded (rpGet repo i (bdRepo w))) \<and> busy_with w \<inter> set (chBuf (bdQueue w)) = {}
     \<and> (\<forall>i \<in> busy_with w. rpGet repo i (bdRepo w) \<noteq> None)
     \<and> (\<forall>i \<in> set (bdAccepted w). i \<in> set (chBuf (bdQueue w)) \<or> i \<in> busy_with w \<or> settled (rpGet repo i (bdRepo w)))"

lemma Dequeue_Some: "Dequeue q = Some (i, q') \<Longrightarrow> chBuf q = i # chBuf q'"
  by (auto simp: Dequeue_def chan_recv_def split: recv_result.splits list.splits if_splits)

context repository
begin

lemma create_effect:
  assumes "createSubmission repo put maxBytes i now up sv = (reply, sv')"
  shows "(\<exists>sub. reply = Accepted sub \<and> rpGet repo i (svRepo sv) = None \<and> sbStatus sub = StatusUploaded \<and> chBuf (svQueue sv') = chBuf (svQueue sv) @ [i]
       \<and> (\<forall>k. rpGet repo k (svRepo sv') = (if k = i then Some sub else rpGet repo k (svRepo sv))))
   \<or> ((\<forall>sub. reply \<noteq> Accepted sub) \<and> svQueue sv' = svQueue sv \<and> (\<forall>k. rpGet repo k (svRepo sv) \<noteq> None \<longrightarrow> rpGet repo k (svRepo sv') = rpGet repo k (svRepo sv)))"
proof -
  have create: "rpGet repo (sbID s) m = None \<and> (\<forall>k. rpGet repo k m' = (if k = sbID s then Some s else rpGet repo k m))"
    if "rpCreate repo s m = (None, m')" for s m m'
    using that create_dup [of s m] create_new [of s m] by (cases "rpGet repo (sbID s) m") auto
  have failed: "m' = m" if "rpCreate repo s m = (Some e, m')" for s m m' e
    using that create_dup [of s m] create_new [of s m] by (cases "rpGet repo (sbID s) m") auto
  have sub: "sbID (new_submission i now uri up) = i" "sbStatus (new_submission i now uri up) = StatusUploaded" for uri
    by (simp_all add: new_submission_def)
  show ?thesis
    using assms unfolding createSubmission_def
    by (auto simp: Let_def sub split: form_parse.splits option.splits prod.splits if_splits sum.splits bool.splits
        dest!: create failed Enqueue_cases)
qed

lemma update_effect:
  assumes "rpUpdateStatus repo now i st img err m = (e, m')"
  shows "(rpGet repo i m = None \<and> m' = m \<and> e \<noteq> None)
   \<or> (rpGet repo i m \<noteq> None \<and> e = None \<and> (\<forall>k. rpGet repo k m' =
        (if k = i then map_option (with_status now st img err) (rpGet repo i m) else rpGet repo k m)))"
  using assms update_known [of i m _ now st img err] update_missing [of i m now st img err] by (cases "rpGet repo i m") auto

lemma ok_upload:
  assumes "worker_ok repo w"
  shows "worker_ok repo (worker_step repo put maxBytes b sb w (Upload i now up))"
proof -
  obtain reply sv where c: "createSubmission repo put maxBytes i now up \<lparr>svRepo = bdRepo w, svQueue = bdQueue w, svLogs = None\<rparr> = (reply, sv)"
    by fastforce
  from create_effect [OF c] show ?thesis
  proof (elim disjE exE conjE)
    fix sub
    assume a: "reply = Accepted sub" "rpGet repo i (svRepo \<lparr>svRepo = bdRepo w, svQueue = bdQueue w, svLogs = None\<rparr>) = None"
      "sbStatus sub = StatusUploaded"
      "chBuf (svQueue sv) = chBuf (svQueue \<lparr>svRepo = bdRepo w, svQueue = bdQueue w, svLogs = None\<rparr>) @ [i]"
      "\<forall>k. rpGet repo k (svRepo sv) = (if k = i then Some sub else rpGet repo k (svRepo \<lparr>svRepo = bdRepo w, svQueue = bdQueue w, svLogs = None\<rparr>))"
    from a(2) assms have "i \<notin> set (chBuf (bdQueue w))" "i \<notin> busy_with w" by (auto simp: worker_ok_def uploaded_def)
    with a assms show ?thesis by (auto simp: worker_ok_def c busy_with_def uploaded_def settled_def)
  next
    assume "\<forall>sub. reply \<noteq> Accepted sub"
    then have r: "(case reply of Accepted sub \<Rightarrow> bdAccepted w @ [i] | _ \<Rightarrow> bdAccepted w) = bdAccepted w" by (auto split: sub_reply.splits)
    assume "svQueue sv = svQueue \<lparr>svRepo = bdRepo w, svQueue = bdQueue w, svLogs = None\<rparr>"
      "\<forall>k. rpGet repo k (svRepo \<lparr>svRepo = bdRepo w, svQueue = bdQueue w, svLogs = None\<rparr>) \<noteq> None \<longrightarrow>
         rpGet repo k (svRepo sv) = rpGet repo k (svRepo \<lparr>svRepo = bdRepo w, svQueue = bdQueue w, svLogs = None\<rparr>)"
    with assms show ?thesis
      by (auto simp: worker_ok_def c r busy_with_def uploaded_def settled_def cong: worker_pc.case_cong split: worker_pc.splits)
  qed
qed

lemma ok_take:
  assumes "worker_ok repo w"
  shows "worker_ok repo (worker_step repo put maxBytes b sb w (TakeJob now))"
proof (cases "bdPc w = AtSelect \<and> Dequeue (bdQueue w) \<noteq> None")
  case True
  then obtain i q where d: "bdPc w = AtSelect" "Dequeue (bdQueue w) = Some (i, q)" by auto
  note buf = Dequeue_Some [OF d(2)]
  from assms buf obtain sub where sub: "rpGet repo i (bdRepo w) = Some sub" by (auto simp: worker_ok_def uploaded_def)
  obtain e s1 where u: "rpUpdateStatus repo now i StatusBuilding [] [] (bdRepo w) = (e, s1)" by fastforce
  from update_effect [OF u] sub have e: "e = None"
    "rpGet repo k s1 = (if k = i then Some (with_status now StatusBuilding [] [] sub) else rpGet repo k (bdRepo w))" for k by auto
  show ?thesis using assms buf d(1)
    by (auto simp: d(2) process_starts_def Let_def sub u e worker_ok_def busy_with_def uploaded_def settled_def)
next
  case False
  then have "worker_step repo put maxBytes b sb w (TakeJob now) = w" by (auto split: option.splits)
  with assms show ?thesis by simp
qed

lemma ok_ends:
  assumes "worker_ok repo w"
  shows "worker_ok repo (worker_step repo put maxBytes b sb w (BuildEnds env now))"
proof (cases "bdPc w")
  case (InBuild i sub)
  from assms InBuild obtain cur where cur: "rpGet repo i (bdRepo w) = Some cur" by (auto simp: worker_ok_def busy_with_def)
  define st where "st = (case runBuild b env sub of Inl err \<Rightarrow> (StatusBuildFailed, [], truncate_to 4096 err) | Inr ref \<Rightarrow> (StatusReady, ref, []))"
  obtain status img err where s: "st = (status, img, err)" by (cases st)
  obtain e s1 where u: "rpUpdateStatus repo now i status img err (bdRepo w) = (e, s1)" by fastforce
  from update_effect [OF u] cur have e: "e = None"
    "rpGet repo k s1 = (if k = i then Some (with_status now status img err cur) else rpGet repo k (bdRepo w))" for k by auto
  have fin: "status = StatusReady \<or> status = StatusBuildFailed" using s by (auto simp: st_def split: sum.splits)
  define w1 where "w1 = worker_step repo put maxBytes b sb w (BuildEnds env now)"
  have w': "bdRepo w1 = s1" "bdQueue w1 = bdQueue w" "bdPc w1 = AtSelect" "bdInFlight w1 = bdInFlight w - {i}"
    "bdCancelled w1 = bdCancelled w" "bdAccepted w1 = bdAccepted w"
    using InBuild s u e(1) by (auto simp: w1_def process_ends_def process_returns_def st_def split: sum.splits)
  have "worker_ok repo w1" using assms InBuild fin
    by (auto simp: worker_ok_def w' e(2) busy_with_def uploaded_def settled_def)
  then show ?thesis by (simp only: w1_def)
qed (use assms in simp_all)

lemma ok_step: "worker_ok repo w \<Longrightarrow> worker_ok repo (worker_step repo put maxBytes b sb w ev)"
proof (cases ev)
  case SelectDone
  then show "worker_ok repo w \<Longrightarrow> ?thesis" by (auto simp: worker_ok_def cancelAll_def busy_with_def)
qed (simp_all only: ok_upload ok_take ok_ends, simp add: worker_ok_def busy_with_def)

lemma ok_new: "worker_ok repo (new_worker s0)"
  by (simp add: worker_ok_def new_worker_def busy_with_def new_queue_def make_chan_def)

lemma ok_run: "worker_ok repo w \<Longrightarrow> worker_ok repo (foldl (worker_step repo put maxBytes b sb) w evs)"
  by (induction evs arbitrary: w) (auto simp del: worker_step.simps simp: ok_step)

end

text \<open>C37: Whatever uploads arrive and whenever the service is stopped, a worker that is not in the middle of a build leaves nothing half
  built: every accepted upload is ready or failed, or still waits in the queue and is stored as uploaded. No entry of
  \<open>inFlight\<close> is left, and \<open>cancelAll\<close> has found none to cancel.\<close>

theorem shutdown_leaves_nothing_half_built:
  assumes "repository repo ok" "w = foldl (worker_step repo put maxBytes b sb) (new_worker s0) evs" "\<forall>i sub. bdPc w \<noteq> InBuild i sub"
  shows "(\<forall>i \<in> set (bdAccepted w). settled (rpGet repo i (bdRepo w)) \<or> (i \<in> set (chBuf (bdQueue w)) \<and> uploaded (rpGet repo i (bdRepo w))))
     \<and> bdInFlight w = {} \<and> bdCancelled w = {}"
proof -
  have "worker_ok repo w" unfolding assms(2) by (rule repository.ok_run [OF assms(1) repository.ok_new [OF assms(1)]])
  moreover have "busy_with w = {}" using assms(3) by (simp add: busy_with_def split: worker_pc.splits)
  ultimately show ?thesis by (auto simp: worker_ok_def)
qed

definition two_uploads :: "worker_event list" where
  "two_uploads = [Upload ''s1'' 7 sample_upload, TakeJob 8, Upload ''s2'' 9 sample_upload, ContextEnds, BuildEnds smooth_env 10, SelectDone]"

definition stopped_worker :: "Memory worker" where
  "stopped_worker = foldl (worker_step memory_repo (minio_Put (\<lambda>_ _. None) ''subs'') 100 sample_kit True) (new_worker NewMemory) two_uploads"

lemma sample_fields:
  "upForm sample_upload = FormOK" "upContestantID sample_upload = ''alice''" "upEntrypoint sample_upload = ''/app/ob''"
  "upLanguage sample_upload = ''go''" "upFile sample_upload = Some (3, [char_of (0x1f :: nat), char_of (0x8b :: nat), CHR ''x''])"
  "sbID (new_submission i now uri up) = i"
  by (simp_all add: sample_upload_def new_submission_def)

lemma stopped_worker_state:
  "bdPc stopped_worker = WorkerReturned \<and> bdAccepted stopped_worker = [''s1'', ''s2''] \<and> chBuf (bdQueue stopped_worker) = [''s2'']"
proof -
  have v: "ValidateRequest ''alice'' ''/app/ob'' ''go'' = None" by code_simp
  have build: "runBuild sample_kit smooth_env (new_submission i 7 uri sample_upload) = Inr (image_ref sample_kit i)" for i uri
    by (simp add: runBuild_def smooth_env_def sample_kit_def NewBuildKit_def dockerfileFor_def new_submission_def sample_upload_def
        image_ref_def pushWithRetry_def push_loop.simps Let_def)
  show ?thesis
    by (simp add: stopped_worker_def two_uploads_def new_worker_def createSubmission_def v is_gzip_def object_key_def minio_Put_def Let_def
        memory_repo_def mem_Create_def mem_Get_def mem_UpdateStatus_def NewMemory_def Enqueue_def try_send_def new_queue_def make_chan_def
        Dequeue_def chan_recv_def process_starts_def process_ends_def process_returns_def build cancelAll_def sample_fields)
qed

theorem shutdown_leaves_nothing_half_built_witness:
  "settled (rpGet memory_repo ''s1'' (bdRepo stopped_worker)) \<or> uploaded (rpGet memory_repo ''s1'' (bdRepo stopped_worker))"
  using shutdown_leaves_nothing_half_built [OF mem.repository_axioms stopped_worker_def] stopped_worker_state by auto

text \<open>What waits when the worker returns is not built by anything that happens later in the process.\<close>

lemma returned_worker_builds_nothing:
  assumes "repository repo ok" "bdPc w = WorkerReturned" "uploaded (rpGet repo i (bdRepo w))"
  shows "bdPc (foldl (worker_step repo put maxBytes b sb) w evs) = WorkerReturned \<and> uploaded (rpGet repo i (bdRepo (foldl (worker_step repo put maxBytes b sb) w evs)))"
  using assms(2,3)
proof (induction evs arbitrary: w)
  case (Cons ev evs)
  have "bdPc (worker_step repo put maxBytes b sb w ev) = WorkerReturned \<and> uploaded (rpGet repo i (bdRepo (worker_step repo put maxBytes b sb w ev)))"
  proof (cases ev)
    case (Upload j now up)
    obtain reply sv where c: "createSubmission repo put maxBytes j now up \<lparr>svRepo = bdRepo w, svQueue = bdQueue w, svLogs = None\<rparr> = (reply, sv)"
      by fastforce
    from repository.create_effect [OF assms(1) c] Cons.prems(2) have "rpGet repo i (svRepo sv) = rpGet repo i (bdRepo w)"
      by (auto simp: uploaded_def)
    then show ?thesis using Cons.prems by (simp add: Upload c)
  qed (use Cons.prems in auto)
  with Cons.IH show ?case by simp
qed simp

lemma shutdown_drops_waiting_jobs:
  "uploaded (rpGet memory_repo ''s2'' (bdRepo (foldl (worker_step memory_repo (minio_Put (\<lambda>_ _. None) ''subs'') 100 sample_kit True) stopped_worker evs)))"
proof -
  have "worker_ok memory_repo stopped_worker" unfolding stopped_worker_def by (rule mem.ok_run [OF mem.ok_new])
  then have "uploaded (rpGet memory_repo ''s2'' (bdRepo stopped_worker))" using stopped_worker_state by (simp add: worker_ok_def)
  with returned_worker_builds_nothing [OF mem.repository_axioms] stopped_worker_state show ?thesis by blast
qed

section \<open>The output of a command\<close>

text \<open>
  \<open>appendLog\<close> drops what it is given when no buffer is configured. \<open>execRunCmd\<close> hands every chunk the process writes to
  the writer of its stream, and its result is that of the process; the chunks come in the order the process wrote them.
\<close>

definition appendLog :: "int64 \<Rightarrow> string \<Rightarrow> string \<Rightarrow> string \<Rightarrow> LogBuffer option \<Rightarrow> LogBuffer option" where
  "appendLog nowMs i stream txt logs = map_option (log_Append nowMs i stream txt) logs"

definition execRunCmd :: "(string \<Rightarrow> string \<Rightarrow> 'b \<Rightarrow> 'b) \<Rightarrow> (string \<times> string) list \<Rightarrow> string option \<Rightarrow> 'b \<Rightarrow> string option \<times> 'b" where
  "execRunCmd sink chunks outcome st = (outcome, foldl (\<lambda>st c. snd (logWriter_Write (sink (fst c)) (snd c) st)) st chunks)"

text \<open>The lines of the chunks, with the stream each came on.\<close>

definition output_lines :: "(string \<times> string) list \<Rightarrow> (string \<times> string) list" where
  "output_lines chunks = concat (map (\<lambda>c. map (Pair (fst c)) (written_lines (snd c))) chunks)"

definition logged_as :: "int64 \<Rightarrow> string \<Rightarrow> string \<times> string \<Rightarrow> log_event" where
  "logged_as nowMs i sl = \<lparr>leAtMs = nowMs, leSubmission = i, leStream = fst sl, leText = snd sl\<rparr>"

lemma execRunCmd_logs:
  "execRunCmd (\<lambda>stream txt. appendLog nowMs i stream txt) chunks outcome (Some lb) =
     (outcome, Some (foldl log_step lb (map (logged_as nowMs i) (output_lines chunks))))"
proof -
  have lines: "foldl (\<lambda>st l. appendLog nowMs i stream l st) (Some lb) ls = Some (foldl log_step lb (map (logged_as nowMs i) (map (Pair stream) ls)))"
    for stream ls lb by (induction ls arbitrary: lb) (simp_all add: appendLog_def log_step_def logged_as_def)
  show ?thesis unfolding execRunCmd_def output_lines_def
    by (induction chunks arbitrary: lb) (simp_all add: logWriter_Write_def lines del: map_map)
qed

lemma written_lines_nonempty: "l \<in> set (written_lines p) \<Longrightarrow> l \<noteq> []"
  by (auto simp: written_lines_def)

lemma output_lines_nonempty: "sl \<in> set (output_lines chunks) \<Longrightarrow> snd sl \<noteq> []"
  by (auto simp: output_lines_def dest: written_lines_nonempty)

text \<open>What a build command prints reaches the reader of the build log: a reader who has seen everything before the command and polls
  after it gets exactly the lines the command wrote, on both streams, in order, as long as they are no more than the
  bound. A command that writes whole lines in each chunk is shown line by line.\<close>

theorem command_output_reaches_reader:
  assumes "i \<noteq> []" "lb = foldl log_step (NewLogBuffer m) es" "before = filter (\<lambda>e. log_key e = Some i) es"
    and "execRunCmd (\<lambda>stream txt. appendLog nowMs i stream txt) chunks outcome (Some lb) = (r, Some lb')"
    and "int (length before) + int (length (output_lines chunks)) < 2 ^ 63" "int (length (output_lines chunks)) \<le> lbMax lb"
  shows "r = outcome \<and> map (\<lambda>ln. (lnStream ln, lnText ln)) (fst (log_Since i (lbSeq lb i) lb')) = output_lines chunks
     \<and> (\<forall>chunk \<in> set chunks. \<forall>ls. ls \<noteq> [] \<and> (\<forall>l \<in> set ls. l \<noteq> [] \<and> LF \<notin> set l) \<and> snd chunk = join_on LF ls @ [LF] \<longrightarrow> written_lines (snd chunk) = ls)"
proof -
  let ?out = "map (logged_as nowMs i) (output_lines chunks)"
  have lb': "r = outcome" "lb' = foldl log_step (NewLogBuffer m) (es @ ?out)"
    using assms(4) unfolding execRunCmd_logs assms(2) by auto
  have "filter (\<lambda>e. log_key e = Some i) ?out = ?out"
    using assms(1) by (auto simp: filter_id_conv log_key_def logged_as_def dest: output_lines_nonempty)
  then have own: "before @ ?out = filter (\<lambda>e. log_key e = Some i) (es @ ?out)" using assms(3) by simp
  have "int (length before) < 2 ^ 63" using assms(5) by linarith
  note s = log_state [OF assms(3) this assms(2)] log_state [OF own _ lb'(2)]
  have bound: "int (length (before @ ?out)) < 2 ^ 63" using assms(5) by simp
  have "lbMax lb' = lbMax lb" using s(1) s(4) [OF bound] by simp
  then have k: "length (before @ ?out) - nat (lbMax lb') \<le> length before" using assms(6) by simp
  have "fst (log_Since i (int (length before)) lb') = drop (length before) (numbered (before @ ?out))"
    using since_numbered [of "int (length before)"] s(5) [OF bound] k
    by (simp add: log_Since_def take_last_def numbered_def [THEN arg_cong [where f = length]] max_absorb1)
  moreover have "map (\<lambda>ln. (lnStream ln, lnText ln)) (numbered xs) = map (\<lambda>e. (leStream e, leText e)) xs" for xs
    by (rule nth_equalityI) (simp_all add: numbered_def line_of_def)
  ultimately have "map (\<lambda>ln. (lnStream ln, lnText ln)) (fst (log_Since i (lbSeq lb i) lb')) = map (\<lambda>e. (leStream e, leText e)) ?out"
    using s(3) by (simp add: drop_map [symmetric])
  then show ?thesis using lb'(1) written_lines_joined by (auto simp: logged_as_def comp_def)
qed

definition docker_chunks :: "(string \<times> string) list" where
  "docker_chunks = [(''stdout'', ''step 1'' @ [LF] @ ''step 2'' @ [LF]), (''stderr'', ''warning'')]"

theorem command_output_reaches_reader_witness:
  "\<exists>lb'. execRunCmd (\<lambda>stream txt. appendLog 5 ''s1'' stream txt) docker_chunks None (Some (NewLogBuffer 10)) = (None, Some lb')
     \<and> map (\<lambda>ln. (lnStream ln, lnText ln)) (fst (log_Since ''s1'' (lbSeq (NewLogBuffer 10) ''s1'') lb'))
       = [(''stdout'', ''step 1''), (''stdout'', ''step 2''), (''stderr'', ''warning'')]"
proof -
  have lines: "output_lines docker_chunks = [(''stdout'', ''step 1''), (''stdout'', ''step 2''), (''stderr'', ''warning'')]" by code_simp
  have m: "lbMax (NewLogBuffer 10) = 10" by (simp add: NewLogBuffer_def)
  have "map (\<lambda>ln. (lnStream ln, lnText ln)) (fst (log_Since ''s1'' (lbSeq (NewLogBuffer 10) ''s1'')
      (foldl log_step (NewLogBuffer 10) (map (logged_as 5 ''s1'') (output_lines docker_chunks))))) = output_lines docker_chunks"
    using command_output_reaches_reader [where i = "''s1''" and es = "[]" and before = "[]" and m = 10 and lb = "NewLogBuffer 10"
        and chunks = docker_chunks and nowMs = 5 and outcome = None, OF _ _ _ execRunCmd_logs] by (simp add: lines m)
  then show ?thesis unfolding execRunCmd_logs by (simp add: lines)
qed

end
