(* ===== verification/Delivery.thy ===== *)
theory Delivery
  imports TelemetryPath
begin

text \<open>
  Delivery to the consumers (\<open>validator/internal/consumer\<close>, and the same loop of the aggregator): what a process
  gets of its partition when processes crash, restart and rebalance. Offsets are committed after the handler ran and the
  state of a service is in memory only. The lemmas show that no event is skipped by the consumer group, that
  a process handles contiguous stretches of the partition, and what a crash or a redelivery costs
  (\<open>docs/ADR/0005-scoring-consistency-and-recovery.md\<close>).
\<close>

section \<open>The consumers of the validator\<close>

text \<open>
  The loop of \<open>kafka.go\<close> with what \<open>CommitMessages\<close> answers (\<open>commit\<close>: an error or none) and the warnings it logs.
\<close>

datatype consume_warning = DecodeWarning string int64 | CommitWarning string int64

fun val_Consume :: "(string \<Rightarrow> string + OrderEvent) \<Rightarrow> ('s \<Rightarrow> OrderEvent option \<Rightarrow> 's) \<Rightarrow> (int64 \<Rightarrow> string option) \<Rightarrow>
    's \<times> int64 list \<times> consume_warning list \<Rightarrow> fetch list \<Rightarrow> ('s \<times> int64 list \<times> consume_warning list) \<times> consume_end" where
  "val_Consume unmarshal handler commit st [] = (st, ConsumeRunning)"
| "val_Consume unmarshal handler commit st (FetchCancelled # fs) = (st, ConsumeReturned None)"
| "val_Consume unmarshal handler commit st (FetchErr e # fs) = (st, ConsumeReturned (Some (''fetch: '' @ e)))"
| "val_Consume unmarshal handler commit (s, cs, ws) (FetchMsg v off # fs) = (case unmarshal v of
     Inl e \<Rightarrow> val_Consume unmarshal handler commit (s, cs, ws @ [DecodeWarning e off]) fs
   | Inr ev \<Rightarrow> (let s' = handler s (Some ev) in case commit off of
       None \<Rightarrow> val_Consume unmarshal handler commit (s', cs @ [off], ws) fs
     | Some e \<Rightarrow> val_Consume unmarshal handler commit (s', cs, ws @ [CommitWarning e off]) fs))"

text \<open>The stub replays its events while the context lives, then waits for its end.\<close>

fun val_stub_Consume :: "('s \<Rightarrow> OrderEvent option \<Rightarrow> 's) \<Rightarrow> nat \<Rightarrow> OrderEvent option list \<Rightarrow> 's \<Rightarrow> 's" where
  "val_stub_Consume handler live [] s = s"
| "val_stub_Consume handler 0 (e # es) s = s"
| "val_stub_Consume handler (Suc live) (e # es) s = val_stub_Consume handler live es (handler s e)"

text \<open>It is the loop of the aggregator: the same events are handled, and what is committed are those offsets the
  aggregator would try to commit whose commit succeeds.\<close>

lemma val_Consume_eq:
  "case val_Consume unmarshal handler commit (s, filter (\<lambda>off. commit off = None) cs, ws) fs of ((s', cs', ws'), e) \<Rightarrow>
     (case kafka_Consume unmarshal handler (s, cs) fs of ((t', ts'), e') \<Rightarrow> s' = t' \<and> cs' = filter (\<lambda>off. commit off = None) ts' \<and> e = e')"
proof (induction unmarshal handler "(s, cs)" fs arbitrary: s cs ws rule: kafka_Consume.induct)
  case (4 unmarshal handler s cs v off fs)
  show ?case
  proof (cases "unmarshal v")
    case (Inl e)
    then show ?thesis using 4(1) [OF Inl, of "ws @ [DecodeWarning e off]"] by simp
  next
    case (Inr ev)
    show ?thesis
    proof (cases "commit off")
      case None
      then show ?thesis using 4(2) [OF Inr, of ws] Inr by simp
    next
      case (Some e)
      then show ?thesis using 4(2) [OF Inr, of "ws @ [CommitWarning e off]"] Inr by simp
    qed
  qed
qed simp_all

lemma stubs_equal: "val_stub_Consume handler live es s = stub_Consume handler live es s"
  by (induction handler live es s rule: val_stub_Consume.induct) simp_all

section \<open>A partition and its group\<close>

text \<open>
  A session of the group fetches consecutive messages from the offset the group has committed; committing a message
  makes the next offset the group's. It ends by an error, a cancellation, a crash or a rebalance after \<open>seFetched\<close>
  messages, and the next one starts in the same process (a rebalance) or in a new one, whose state is fresh.
\<close>

record session =
  seNewProcess :: bool
  seFetched :: nat
  seCommit :: "int64 \<Rightarrow> string option"

record 's group =
  grCommitted :: nat
  grState :: 's
  grSections :: "(nat \<times> nat) list"
  grPast :: "(nat \<times> nat) list"

definition fetches_of :: "string list \<Rightarrow> nat \<Rightarrow> nat \<Rightarrow> fetch list" where
  "fetches_of msgs from n = map (\<lambda>k. FetchMsg (msgs ! k) (int k)) [from..<min (from + n) (length msgs)]"

text \<open>\<open>grPast\<close> is a history of the stretches of the partition that were handed out, \<open>grSections\<close> those the current process got.\<close>

definition run_session :: "(string \<Rightarrow> string + OrderEvent) \<Rightarrow> ('s \<Rightarrow> OrderEvent option \<Rightarrow> 's) \<Rightarrow> 's \<Rightarrow> string list \<Rightarrow> 's group \<Rightarrow> session \<Rightarrow> 's group" where
  "run_session unmarshal handler fresh msgs g se =
     (let c = grCommitted g; s = (if seNewProcess se then fresh else grState g);
          upto = min (c + seFetched se) (length msgs)
      in case val_Consume unmarshal handler (seCommit se) (s, [], []) (fetches_of msgs c (seFetched se)) of ((s', cs, ws), e) \<Rightarrow>
           \<lparr>grCommitted = (if cs = [] then c else Suc (nat (last cs))), grState = s',
            grSections = (if seNewProcess se then [] else grSections g) @ [(c, upto)], grPast = grPast g @ [(c, upto)]\<rparr>)"

definition new_group :: "'s \<Rightarrow> 's group" where
  "new_group fresh = \<lparr>grCommitted = 0, grState = fresh, grSections = [], grPast = []\<rparr>"

text \<open>The events of a stretch.\<close>

definition section_events :: "(string \<Rightarrow> string + OrderEvent) \<Rightarrow> string list \<Rightarrow> nat \<times> nat \<Rightarrow> OrderEvent list" where
  "section_events unmarshal msgs ab = decoded_of unmarshal (map (\<lambda>k. FetchMsg (msgs ! k) (int k)) [fst ab..<snd ab])"

lemma decoded_of_map:
  "decoded_of unmarshal (map (\<lambda>k. FetchMsg (f k) (h k)) ks) = List.map_filter (\<lambda>k. case unmarshal (f k) of Inl e \<Rightarrow> None | Inr ev \<Rightarrow> Some ev) ks"
  by (induction ks) (auto simp: List.map_filter_def split: sum.splits)

text \<open>What a stretch commits: offsets within it, and its state is that of its events.\<close>

lemma val_Consume_stretch:
  "val_Consume unmarshal handler commit (s, cs, ws) (map (\<lambda>k. FetchMsg (msgs ! k) (int k)) ks) = ((s', cs', ws'), e) \<Longrightarrow>
     s' = foldl handler s (map Some (decoded_of unmarshal (map (\<lambda>k. FetchMsg (msgs ! k) (int k)) ks)))
     \<and> (\<exists>new. cs' = cs @ new \<and> set new \<subseteq> int ` set ks)"
proof (induction ks arbitrary: s cs ws)
  case (Cons k ks)
  show ?case
  proof (cases "unmarshal (msgs ! k)")
    case (Inl err)
    from Cons.IH [of s cs "ws @ [DecodeWarning err (int k)]"] Cons.prems Inl show ?thesis by auto
  next
    case (Inr ev)
    show ?thesis
    proof (cases "commit (int k)")
      case None
      with Cons.prems Inr have "val_Consume unmarshal handler commit (handler s (Some ev), cs @ [int k], ws) (map (\<lambda>k. FetchMsg (msgs ! k) (int k)) ks) = ((s', cs', ws'), e)"
        by simp
      from Cons.IH [OF this] Inr show ?thesis by auto
    next
      case (Some err)
      with Cons.prems Inr have "val_Consume unmarshal handler commit (handler s (Some ev), cs, ws @ [CommitWarning err (int k)]) (map (\<lambda>k. FetchMsg (msgs ! k) (int k)) ks) = ((s', cs', ws'), e)"
        by simp
      from Cons.IH [OF this] Inr show ?thesis by auto
    qed
  qed
qed simp

definition group_ok :: "(string \<Rightarrow> string + OrderEvent) \<Rightarrow> ('s \<Rightarrow> OrderEvent option \<Rightarrow> 's) \<Rightarrow> 's \<Rightarrow> string list \<Rightarrow> 's group \<Rightarrow> bool" where
  "group_ok unmarshal handler fresh msgs g \<longleftrightarrow> grCommitted g \<le> length msgs
     \<and> grCommitted g \<le> (if grPast g = [] then 0 else snd (last (grPast g)))
     \<and> successively (\<lambda>x y. fst y \<le> snd x) (grPast g) \<and> (grPast g \<noteq> [] \<longrightarrow> fst (hd (grPast g)) = 0)
     \<and> (\<forall>(a, b) \<in> set (grPast g). b \<le> length msgs)
     \<and> (\<exists>earlier. grPast g = earlier @ grSections g)
     \<and> grState g = foldl handler fresh (map Some (concat (map (section_events unmarshal msgs) (grSections g))))"

lemma run_session_ok:
  assumes "group_ok unmarshal handler fresh msgs g"
  shows "group_ok unmarshal handler fresh msgs (run_session unmarshal handler fresh msgs g se)"
proof -
  let ?c = "grCommitted g" and ?s = "if seNewProcess se then fresh else grState g"
  let ?upto = "min (?c + seFetched se) (length msgs)"
  obtain s' cs ws e where r: "val_Consume unmarshal handler (seCommit se) (?s, [], []) (fetches_of msgs ?c (seFetched se)) = ((s', cs, ws), e)"
    by (metis prod_cases3 surj_pair)
  from val_Consume_stretch [OF r [unfolded fetches_of_def]] have st: "s' = foldl handler ?s (map Some (section_events unmarshal msgs (?c, ?upto)))"
    and cs: "set cs \<subseteq> int ` {?c..<?upto}" by (auto simp: section_events_def)
  let ?c' = "if cs = [] then ?c else Suc (nat (last cs))"
  have c': "?c' \<le> ?upto"
  proof (cases "cs = []")
    case False
    then have "last cs \<in> int ` {?c..<?upto}" using cs last_in_set by blast
    then show ?thesis using False by auto
  qed (use assms in \<open>simp add: group_ok_def\<close>)
  have g': "run_session unmarshal handler fresh msgs g se = \<lparr>grCommitted = ?c', grState = s',
      grSections = (if seNewProcess se then [] else grSections g) @ [(?c, ?upto)], grPast = grPast g @ [(?c, ?upto)]\<rparr>"
    by (simp add: run_session_def r Let_def)
  show ?thesis unfolding g' group_ok_def
    using assms c' st by (auto simp: group_ok_def successively_append_iff hd_append split: if_splits)
qed

lemma run_sessions_ok: "group_ok unmarshal handler fresh msgs (foldl (run_session unmarshal handler fresh msgs) (new_group fresh) ses)"
proof (induction ses rule: rev_induct)
  case Nil
  show ?case by (simp add: group_ok_def new_group_def)
qed (simp add: run_session_ok)

lemma successively_covers:
  "successively (\<lambda>x y. fst y \<le> snd x) ss \<Longrightarrow> ss \<noteq> [] \<Longrightarrow> fst (hd ss) \<le> k \<Longrightarrow> k < snd (last ss) \<Longrightarrow> \<exists>(a, b) \<in> set ss. a \<le> k \<and> k < b"
  for k :: nat
proof (induction ss)
  case (Cons x ss)
  show ?case
  proof (cases "k < snd x")
    case True
    then show ?thesis using Cons.prems(3) by (cases x) auto
  next
    case False
    then have ne: "ss \<noteq> []" using Cons.prems(4) by auto
    then have "successively (\<lambda>x y. fst y \<le> snd x) ss" "fst (hd ss) \<le> snd x" using Cons.prems(1) by (auto simp: successively_Cons)
    with False have "fst (hd ss) \<le> k" by simp
    moreover have "k < snd (last ss)" using ne Cons.prems(4) by simp
    ultimately have "\<exists>(a, b) \<in> set ss. a \<le> k \<and> k < b" using Cons.IH ne \<open>successively _ ss\<close> by blast
    then show ?thesis by auto
  qed
qed simp

section \<open>Properties\<close>


text \<open>A process that is never rebalanced counts each event of one stretch once.\<close>

lemma one_session_counts_once:
  assumes "seNewProcess se" "g' = run_session unmarshal handler fresh msgs g se"
  shows "grState g' = foldl handler fresh (map Some (section_events unmarshal msgs (grCommitted g, min (grCommitted g + seFetched se) (length msgs))))"
proof -
  obtain s' cs ws e where r: "val_Consume unmarshal handler (seCommit se) (fresh, [], []) (fetches_of msgs (grCommitted g) (seFetched se)) = ((s', cs, ws), e)"
    by (metis prod_cases3 surj_pair)
  from val_Consume_stretch [OF r [unfolded fetches_of_def]] show ?thesis
    by (simp add: assms(2) run_session_def r assms(1) Let_def section_events_def)
qed

section \<open>What a crash and a redelivery cost\<close>

text \<open>A resting offer and the order that takes it, as an honest contestant reports them.\<close>

definition resting_offer :: OrderEvent where
  "resting_offer = emptyEvent\<lparr>eContestantId := ''alice'', eSubmissionId := ''s1'', eOrderId := ''o1'', eType := ORDER_TYPE_LIMIT, eSide := ORDER_SIDE_SELL,
     eResult := ORDER_RESULT_ACK_ONLY, ePrice := Fin 100, eQuantity := 5, eSentTsNs := 1\<rparr>"

definition taking_order :: OrderEvent where
  "taking_order = emptyEvent\<lparr>eContestantId := ''alice'', eSubmissionId := ''s1'', eOrderId := ''o2'', eType := ORDER_TYPE_LIMIT, eSide := ORDER_SIDE_BUY,
     eResult := ORDER_RESULT_FILLED, ePrice := Fin 100, eQuantity := 5, eFilledQuantity := 5, eSentTsNs := 2\<rparr>"

definition session_of :: "bool \<Rightarrow> nat \<Rightarrow> (int64 \<Rightarrow> string option) \<Rightarrow> session" where
  "session_of new n commit = \<lparr>seNewProcess = new, seFetched = n, seCommit = commit\<rparr>"

definition verdict_after :: "session list \<Rightarrow> (int64 \<times> int64) option" where
  "verdict_after ses = map_option (\<lambda>c. (cTotal c, cMismatches c)) (vCounters (grState (foldl
     (run_session (nth_decoder [resting_offer, taking_order]) Process NewValidator ['''', ''x'']) (new_group NewValidator) ses)) ''s1'')"

lemma undisturbed_session: "verdict_after [session_of True 2 (\<lambda>_. None)] = Some (2, 0)"
  by code_simp

text \<open>
  A crash between the two, the first being committed: the new process has no book for the run, and the honest fill
  counts as wrong. A rebalance before the commit of the second hands it out again: three fills are counted, one of them wrong.
  The two sessions of the crash still hand out both messages.
\<close>

lemma crash_makes_honest_fill_wrong:
  "verdict_after [session_of True 1 (\<lambda>_. None), session_of True 1 (\<lambda>_. None)] = Some (1, 1)"
  by code_simp

lemma redelivery_counts_twice:
  "verdict_after [session_of True 2 (\<lambda>off. if off = 1 then Some ''rebalanced'' else None), session_of False 1 (\<lambda>_. None)] = Some (3, 1)"
  by code_simp

definition example_group :: "nat group" where
  "example_group = foldl (run_session (nth_decoder [resting_offer, taking_order]) (\<lambda>n e. Suc n) 0 ['''', ''x'']) (new_group 0)
     [session_of True 1 (\<lambda>_. None), session_of True 1 (\<lambda>_. None)]"


end
