(* ===== verification/Routes.thy ===== *)
theory Routes
  imports SubmissionHttp TelemetryPath Gateway BotFleet
begin

text \<open>
  The HTTP surface of the services: the route tables their \<open>Handler\<close> functions register (aggregator, validator,
  leaderboard, coordinator, sandbox runner, bot, gateway, reference contestant and smoke sample), which of two matching patterns
  \<open>http.ServeMux\<close> takes, and what the replies of the handlers send. The lemmas show that callers meet the handlers they
  mean: the gateway and the submission service, the leaderboard and its three sources, a bot and the contestant.
\<close>

section \<open>The more specific pattern wins\<close>

text \<open>
  Of the patterns that match a request the one that is at least as specific as all the others serves it: a literal
  segment is more specific than a wildcard.
\<close>

definition pat_le :: "pat_seg list \<Rightarrow> pat_seg list \<Rightarrow> bool" where
  "pat_le p q \<longleftrightarrow> list_all2 (\<lambda>a b. a = b \<or> b = Wild) p q"

type_synonym 'r routes = "(string \<times> pat_seg list \<times> 'r) list"

definition matching :: "'r routes \<Rightarrow> string \<Rightarrow> string list \<Rightarrow> 'r routes" where
  "matching ps m ss = filter (\<lambda>(pm, pat, r). method_matches pm m \<and> match_segs pat ss \<noteq> None) ps"

definition mux_best :: "'r routes \<Rightarrow> string \<Rightarrow> string list \<Rightarrow> ('r \<times> string list) option" where
  "mux_best ps m ss = (let ms = matching ps m ss in
     map_option (\<lambda>(pm, pat, r). (r, the (match_segs pat ss))) (find (\<lambda>(pm, pat, r). list_all (\<lambda>(pm', pat', r'). pat_le pat pat') ms) ms))"

definition mux_route :: "'r routes \<Rightarrow> string \<Rightarrow> string \<Rightarrow> 'r mux_result" where
  "mux_route ps m escaped =
     (let p = cleanPath escaped; ss = path_segments p in
      if p \<noteq> escaped then MuxRedirect p
      else (case mux_best ps m ss of
          Some (r, vs) \<Rightarrow> MuxRoute r vs
        | None \<Rightarrow> if list_ex (\<lambda>(pm, pat, r). match_segs pat ss \<noteq> None) ps then MuxNotAllowed else MuxNotFound))"

text \<open>What a router sends when no handler runs; \<open>redirect\<close> is the status of a redirect.\<close>

definition no_handler :: "nat \<Rightarrow> 'r mux_result \<Rightarrow> 'a write_op list" where
  "no_handler redirect res = (case res of MuxRedirect p \<Rightarrow> [SetHeader ''Location'' p, WriteHeader redirect]
     | MuxNotAllowed \<Rightarrow> http_Error 405 ''Method Not Allowed'' | _ \<Rightarrow> http_Error 404 ''404 page not found'')"

section \<open>Replies\<close>

definition json_ops :: "'a \<Rightarrow> 'a write_op list" where
  "json_ops x = [SetHeader ''Content-Type'' ''application/json'', WriteJSON x]"

definition api_ops :: "('a \<Rightarrow> 'b) \<Rightarrow> 'a reply \<Rightarrow> 'b write_op list" where
  "api_ops f rep = (case rep of JSON x \<Rightarrow> json_ops (f x) | HttpError n e \<Rightarrow> http_Error n e | StatusOnly n \<Rightarrow> [WriteHeader n])"

text \<open>What a client that wants 200 and a JSON body makes of it, as the leaderboard's \<open>getJSON\<close> does.\<close>

definition client_get :: "('b \<Rightarrow> 'c option) \<Rightarrow> 'b write_op list \<Rightarrow> 'c http_get" where
  "client_get dec ops = (if sent_status ops \<noteq> 200 then GetStatus (sent_status ops)
     else case snBody (response_of ops) of [WriteJSON x] \<Rightarrow> (case dec x of Some y \<Rightarrow> GetBody (Inr y) | None \<Rightarrow> GetBody (Inl ''decode''))
        | _ \<Rightarrow> GetBody (Inl ''decode''))"

lemma json_ops_sent: "sent_status (json_ops x) = 200" "snBody (response_of (json_ops x)) = [WriteJSON x]"
  by (simp_all add: json_ops_def sent_status_def response_of_def new_response_def send_status_def Let_def)

section \<open>The tables\<close>

datatype agg_route = AggHealth | AggAll | AggMergedAll | AggOne | AggMerged

definition agg_routes :: "agg_route routes" where
  "agg_routes = [(''GET'', [Lit ''healthz''], AggHealth), (''GET'', [Lit ''metrics''], AggAll),
     (''GET'', [Lit ''metrics'', Lit ''merged''], AggMergedAll), (''GET'', [Lit ''metrics'', Wild], AggOne),
     (''GET'', [Lit ''metrics'', Lit ''merged'', Wild], AggMerged)]"

datatype agg_body = Snaps "WSnapshot list" | OneSnap WSnapshot | MergedSnaps "MergedSnapshot list" | OneMerged MergedSnapshot

text \<open>\<open>ids\<close> and \<open>ls\<close> are the orders in which the maps are visited; \<open>q\<close> reads the query.\<close>

definition agg_Handler :: "'h hdr \<Rightarrow> string list \<Rightarrow> string list \<Rightarrow> nat \<Rightarrow> 'h Aggregator \<Rightarrow> string \<Rightarrow> string \<Rightarrow> (string \<Rightarrow> string) \<Rightarrow> agg_body write_op list" where
  "agg_Handler H ids ls redirect a m escaped q = (case mux_route agg_routes m escaped of
     MuxRoute AggHealth vs \<Rightarrow> api_ops Snaps agg_handleHealth
   | MuxRoute AggAll vs \<Rightarrow> api_ops Snaps (agg_handleAll ls a)
   | MuxRoute AggMergedAll vs \<Rightarrow> api_ops MergedSnaps (handleMergedAll H ids ls a (q ''windows''))
   | MuxRoute AggOne vs \<Rightarrow> api_ops OneSnap (agg_handleOne ls a (hd vs))
   | MuxRoute AggMerged vs \<Rightarrow> api_ops OneMerged (handleMerged H ls a (hd vs) (q ''windows''))
   | res \<Rightarrow> no_handler redirect res)"

datatype val_route = ValHealth | ValAll | ValOne

definition val_routes :: "val_route routes" where
  "val_routes = [(''GET'', [Lit ''healthz''], ValHealth), (''GET'', [Lit ''validate''], ValAll), (''GET'', [Lit ''validate'', Wild], ValOne)]"

datatype val_body = Reports "Report list" | OneReport Report

definition val_Handler :: "string list \<Rightarrow> nat \<Rightarrow> Validator \<Rightarrow> string \<Rightarrow> string \<Rightarrow> val_body write_op list" where
  "val_Handler ks redirect v m escaped = (case mux_route val_routes m escaped of
     MuxRoute ValHealth vs \<Rightarrow> api_ops Reports val_handleHealth
   | MuxRoute ValAll vs \<Rightarrow> api_ops Reports (val_handleAll ks v)
   | MuxRoute ValOne vs \<Rightarrow> api_ops OneReport (val_handleOne ks v (hd vs))
   | res \<Rightarrow> no_handler redirect res)"

datatype lb_route = LbHealth | LbBoard | LbLive

definition lb_routes :: "lb_route routes" where
  "lb_routes = [(''GET'', [Lit ''healthz''], LbHealth), (''GET'', [Lit ''leaderboard''], LbBoard), (''GET'', [Lit ''live''], LbLive)]"

text \<open>\<open>live\<close> stands for the upgrade to a web socket, whose board messages are those of \<open>LiveFeed\<close>.\<close>

definition lb_Handler :: "('s, 'o) Store \<Rightarrow> 'o \<Rightarrow> nat \<Rightarrow> Entry list write_op list \<Rightarrow> 's \<Rightarrow> string \<Rightarrow> string \<Rightarrow> (string \<Rightarrow> string) \<Rightarrow> Entry list write_op list" where
  "lb_Handler st env redirect live s m escaped q = (case mux_route lb_routes m escaped of
     MuxRoute LbHealth vs \<Rightarrow> api_ops id lb_handleHealth
   | MuxRoute LbBoard vs \<Rightarrow> api_ops id (handleLeaderboard st env (q ''top'') s)
   | MuxRoute LbLive vs \<Rightarrow> live
   | res \<Rightarrow> no_handler redirect res)"

datatype sandbox_route = SbHealth | SbCrashes

definition sandbox_routes :: "sandbox_route routes" where
  "sandbox_routes = [(''GET'', [Lit ''healthz''], SbHealth), (''GET'', [Lit ''crashes''], SbCrashes)]"

definition sandbox_http :: "string list \<Rightarrow> crashKey list \<Rightarrow> nat \<Rightarrow> CrashTracker \<Rightarrow> string \<Rightarrow> string \<Rightarrow> CrashCount list write_op list" where
  "sandbox_http ks os redirect t m escaped = (case mux_route sandbox_routes m escaped of
     MuxRoute SbHealth vs \<Rightarrow> [WriteHeader 200]
   | MuxRoute SbCrashes vs \<Rightarrow> json_ops (crash_report ks os t)
   | res \<Rightarrow> no_handler redirect res)"

datatype coord_route = CoHealth | CoStart | CoStatus | CoStop

definition coord_routes :: "coord_route routes" where
  "coord_routes = [(''GET'', [Lit ''healthz''], CoHealth), (''POST'', [Lit ''benchmarks''], CoStart),
     (''GET'', [Lit ''benchmarks'', Wild], CoStatus), (''DELETE'', [Lit ''benchmarks'', Wild], CoStop)]"

definition coord_ops :: "coord_reply \<Rightarrow> coord_reply write_op list" where
  "coord_ops rep = (case rep of Healthy \<Rightarrow> [WriteHeader 200] | NoContent \<Rightarrow> [WriteHeader 204] | CoordError n e \<Rightarrow> http_Error n e
     | Started i \<Rightarrow> [SetHeader ''Content-Type'' ''application/json'', WriteHeader 201, WriteJSON rep] | Status_is st \<Rightarrow> json_ops rep)"

definition coord_Handler :: "'s JobSpawner \<Rightarrow> nat \<Rightarrow> startReq option \<Rightarrow> string \<Rightarrow> string \<Rightarrow> 's \<Rightarrow> coord_reply write_op list \<times> 's" where
  "coord_Handler sp redirect body m escaped s = (case mux_route coord_routes m escaped of
     MuxRoute CoHealth vs \<Rightarrow> (coord_ops handle_Health, s)
   | MuxRoute CoStart vs \<Rightarrow> apfst coord_ops (handleStart sp body s)
   | MuxRoute CoStatus vs \<Rightarrow> apfst coord_ops (handleStatus sp (hd vs) s)
   | MuxRoute CoStop vs \<Rightarrow> apfst coord_ops (handleStop sp (hd vs) s)
   | res \<Rightarrow> (no_handler redirect res, s))"

definition bot_routes :: "bot_route routes" where
  "bot_routes = [(''GET'', [Lit ''healthz''], GetHealthz), (''GET'', [Lit ''metrics''], GetMetrics), (''GET'', [Lit ''time''], GetTime)]"

datatype ref_route = RefHealth | RefPlace | RefCancel | RefBook

definition ref_routes :: "ref_route routes" where
  "ref_routes = [(''GET'', [Lit ''health''], RefHealth), (''POST'', [Lit ''order''], RefPlace),
     (''DELETE'', [Lit ''order'', Wild], RefCancel), (''GET'', [Lit ''orderbook''], RefBook)]"

definition ref_ops :: "response \<Rightarrow> response write_op list" where
  "ref_ops rep = (case rep of RStatus n \<Rightarrow> [WriteHeader n] | RError n e \<Rightarrow> http_Error n e
     | RPlaced i fs \<Rightarrow> json_ops rep | RSnapshot bs as \<Rightarrow> json_ops rep)"

text \<open>\<open>body\<close> is the decoded body, \<open>now\<close> the clock, \<open>bks\<close> and \<open>aks\<close> the orders of the level maps.\<close>

definition ref_Handler :: "nat \<Rightarrow> string + placeReq \<Rightarrow> int64 \<Rightarrow> f64 list \<Rightarrow> f64 list \<Rightarrow> string \<Rightarrow> string \<Rightarrow> ref_server \<Rightarrow> ref_server \<times> response write_op list" where
  "ref_Handler redirect body now bks aks m escaped sv = (case mux_route ref_routes m escaped of
     MuxRoute RefHealth vs \<Rightarrow> apsnd ref_ops (serve sv request.ReqHealth)
   | MuxRoute RefPlace vs \<Rightarrow> apsnd ref_ops (serve sv (ReqPlace body now))
   | MuxRoute RefCancel vs \<Rightarrow> apsnd ref_ops (serve sv (ReqCancel (hd vs)))
   | MuxRoute RefBook vs \<Rightarrow> apsnd ref_ops (serve sv (ReqSnapshot bks aks))
   | res \<Rightarrow> (sv, no_handler redirect res))"

text \<open>
  The smoke sample (\<open>samples/smoke-go\<close>) answers constants, whatever the method; its pattern \<open>/\<close> takes every other path.
\<close>

definition smoke_http :: "nat \<Rightarrow> string \<Rightarrow> string write_op list" where
  "smoke_http redirect escaped =
     (let p = cleanPath escaped; ss = path_segments p; line = (\<lambda>s. WriteText (s @ [CHR 0x0A])) in
      if p \<noteq> escaped then [SetHeader ''Location'' p, WriteHeader redirect]
      else if ss = [''health''] then [WriteHeader 200, line ''ok'']
      else if ss = [''order''] then [SetHeader ''Content-Type'' ''application/json'',
         line (''{'' @ [CHR 0x22] @ ''status'' @ [CHR 0x22] @ '':'' @ [CHR 0x22] @ ''ack'' @ [CHR 0x22] @ ''}'')]
      else [line ''smoke-go ok''])"

definition smoke_addr :: "(string \<Rightarrow> string) \<Rightarrow> string" where
  "smoke_addr env = '':'' @ (if env ''RUNTIME_PORT'' = [] then ''9100'' else env ''RUNTIME_PORT'')"

definition ref_addr :: "(string \<Rightarrow> string) \<Rightarrow> string" where
  "ref_addr env = '':'' @ (if env ''RUNTIME_PORT'' = [] then ''9100'' else env ''RUNTIME_PORT'')"

section \<open>The gateway\<close>

definition gw_routes :: "route routes" where
  "gw_routes = [(''GET'', [Lit ''healthz''], RtHealth), (''POST'', [Lit ''auth'', Lit ''token''], RtToken),
     (''POST'', [Lit ''submissions''], RtSubmissions), (''GET'', [Lit ''submissions'', Wild], RtSubmissions),
     (''GET'', [Lit ''submissions'', Wild, Lit ''logs''], RtSubmissions), (''GET'', [Lit ''submissions''], RtSubmissions)]"

text \<open>What the handlers read of a request; \<open>decode\<close> is the contestant of a token body that decodes.\<close>

definition gw_request_of :: "('b \<Rightarrow> string option) \<Rightarrow> 'b http_request \<Rightarrow> gw_request" where
  "gw_request_of decode r = \<lparr>gqRemoteAddr = hqRemoteAddr r, gqXFF = hqHeader r ''X-Forwarded-For'', gqAuthorization = hqHeader r ''Authorization'',
     gqContestantHeader = hqHeader r ''X-Contestant-ID'', gqRequestID = hqHeader r ''X-Request-ID'', gqInternalToken = hqHeader r ''X-Internal-Token'',
     gqRoute = RtNotFound, gqTokenBody = decode (hqBody r)\<rparr>"

datatype 'a gw_body = TokenBody string int | Proxied 'a

definition gw_write :: "(gw_request \<Rightarrow> 'a write_op list) \<Rightarrow> gw_response \<Rightarrow> 'a gw_body write_op list" where
  "gw_write upstream resp = (case resp of GwStatus n \<Rightarrow> [WriteHeader n] | GwError n e \<Rightarrow> http_Error n e
     | GwToken t n \<Rightarrow> json_ops (TokenBody t n) | GwForward r \<Rightarrow> map (map_write_op Proxied) (upstream r))"

definition gw_dispatch :: "token_prims \<Rightarrow> instant \<Rightarrow> gw_config \<Rightarrow> nat \<Rightarrow> (gw_request \<Rightarrow> 'a write_op list) \<Rightarrow> string \<Rightarrow> string \<Rightarrow> gw_request \<Rightarrow> 'a gw_body write_op list" where
  "gw_dispatch P now cfg redirect upstream m escaped g = (case mux_route gw_routes m escaped of
     MuxRoute rt vs \<Rightarrow> gw_write upstream (gw_mux P now cfg (g\<lparr>gqRoute := rt\<rparr>)) | res \<Rightarrow> no_handler redirect res)"

record gw_log =
  glMethod :: string
  glPath :: string
  glStatus :: nat
  glLatencyMs :: int
  glRemote :: string

text \<open>
  \<open>buildHandler\<close>: the access log around the request id around the limiter around the router. \<open>began\<close> and \<open>ended\<close> are the clock
  at both ends of the request.
\<close>

definition gw_AccessLog :: "instant \<Rightarrow> instant \<Rightarrow> 'b http_request \<Rightarrow> 'a write_op list \<Rightarrow> gw_log" where
  "gw_AccessLog began ended r ops = \<lparr>glMethod = hqMethod r, glPath = hqPath r, glStatus = statusRecorder ops,
     glLatencyMs = go_div (time_Sub ended began) Millisecond, glRemote = hqRemoteAddr r\<rparr>"

definition gw_buildHandler :: "token_prims \<Rightarrow> gw_config \<Rightarrow> nat \<Rightarrow> (gw_request \<Rightarrow> 'a write_op list) \<Rightarrow> ('b \<Rightarrow> string option) \<Rightarrow> reads \<Rightarrow> instant \<Rightarrow> string
    \<Rightarrow> instant \<times> instant \<Rightarrow> 'b http_request \<Rightarrow> IPLimiter \<Rightarrow> IPLimiter \<times> 'a gw_body write_op list \<times> gw_log" where
  "gw_buildHandler P cfg redirect upstream decode rd now fresh clock r il =
     (let g = gw_request_of decode r in
      case Allow rd (clientIP (gqRemoteAddr g) (gqXFF g) (ilTrustedHops il)) il of (il', allowed) \<Rightarrow>
        let inner = (if allowed then gw_dispatch P now cfg redirect upstream (hqMethod r) (hqEscapedPath r) g else http_Error 429 ''rate limit exceeded'');
            ops = SetHeader ''X-Request-ID'' (RequestID fresh g) # inner
        in (il', ops, gw_AccessLog (fst clock) (snd clock) r ops))"

section \<open>Paths\<close>

text \<open>A path segment that the router leaves as it is, and the path of such segments.\<close>

definition safe_segment :: "string \<Rightarrow> bool" where
  "safe_segment s \<longleftrightarrow> normal s \<and> CHR ''%'' \<notin> set s"

lemma unescape_path_plain: "CHR ''%'' \<notin> set s \<Longrightarrow> unescape_path s = Some s"
  by (induction s) auto

lemma segment_safe [simp]: "safe_segment s \<Longrightarrow> segment s = s"
  by (simp add: segment_def safe_segment_def normal_def unescape_path_plain)

lemma safe_path:
  assumes "ss \<noteq> []" "\<forall>s \<in> set ss. safe_segment s"
  shows "cleanPath (abs_dir ss) = abs_dir ss" "path_segments (abs_dir ss) = ss"
proof -
  have n: "\<forall>s \<in> set ss. normal s" using assms(2) by (simp add: safe_segment_def)
  have j: "split_on (CHR ''/'') (join_on (CHR ''/'') ss) = ss" using assms(1) n normal_no_slash by (intro split_join) auto
  have p: "HasPrefix (abs_dir ss) ''/''" by (simp add: abs_dir_def HasPrefix_def)
  have "clean_comps (abs_dir ss) = ss" using clean_push [OF n, of True "[]"] p j by (simp add: clean_comps_def) (simp add: abs_dir_def j)
  then have c: "Clean (abs_dir ss) = abs_dir ss" using p by (simp add: Clean_def IsAbs_def) (simp add: abs_dir_def)
  have "last (abs_dir ss) \<noteq> CHR ''/''"
  proof -
    have "join_on (CHR ''/'') ss \<noteq> [] \<and> last (join_on (CHR ''/'') ss) \<noteq> CHR ''/''" using assms(1) n
    proof (induction "CHR ''/''" ss rule: join_on.induct)
      case (2 q)
      then show ?case by (auto simp: normal_def dest: last_in_set)
    next
      case (3 q r qs)
      then show ?case by auto
    qed simp
    then show ?thesis by (simp add: abs_dir_def)
  qed
  then show "cleanPath (abs_dir ss) = abs_dir ss" using p c by (simp add: cleanPath_def Let_def) (simp add: abs_dir_def)
  show "path_segments (abs_dir ss) = ss" using assms(2) by (simp add: path_segments_def abs_dir_def j map_idI)
qed

lemma mux_route_safe:
  assumes "ss \<noteq> []" "\<forall>s \<in> set ss. safe_segment s"
  shows "mux_route ps m (abs_dir ss) = (case mux_best ps m ss of Some (r, vs) \<Rightarrow> MuxRoute r vs
     | None \<Rightarrow> if list_ex (\<lambda>(pm, pat, r). match_segs pat ss \<noteq> None) ps then MuxNotAllowed else MuxNotFound)"
  by (simp add: mux_route_def Let_def safe_path [OF assms])

lemmas route_defs = mux_best_def matching_def pat_le_def method_matches_def Let_def

section \<open>The gateway and the submission service\<close>

lemma length_cases: "ss = [] \<or> (\<exists>a. ss = [a]) \<or> (\<exists>a b. ss = [a, b]) \<or> (\<exists>a b c. ss = [a, b, c]) \<or> (\<exists>a b c d rest. ss = a # b # c # d # rest)"
  by (metis list.exhaust)

lemma gateway_best_iff:
  "(\<exists>vs. mux_best gw_routes m ss = Some (RtSubmissions, vs)) \<longleftrightarrow> (\<exists>rt vs. mux_find sub_routes m ss = Some (rt, vs) \<and> rt \<noteq> RHealthz)"
  using length_cases [of ss]
  by (elim disjE exE) (auto simp: gw_routes_def sub_routes_def route_defs split: if_splits)

text \<open>C39: The gateway proxies exactly what the submission service serves, its health check aside: a method and a path reach the proxy if and only
  if the router of the service has a handler for them. So no forwarded request is answered with an unknown
  path or method, and no handler of the service is out of reach.\<close>

theorem gateway_and_service_routes_agree:
  "(\<exists>vs. mux_route gw_routes m escaped = MuxRoute RtSubmissions vs) \<longleftrightarrow>
   (\<exists>rt vs. mux_serve sub_routes m escaped = MuxRoute rt vs \<and> rt \<noteq> RHealthz)"
  using gateway_best_iff [of m "path_segments (cleanPath escaped)"]
  by (auto simp: mux_route_def mux_serve_def Let_def split: option.splits)

section \<open>The access log of the gateway\<close>

text \<open>Replies that set headers first and then write: with a status, or with bodies alone, which send 200.\<close>

definition orderly_reply :: "'a write_op list \<Rightarrow> bool" where
  "orderly_reply ops \<longleftrightarrow> plain_reply ops \<or> (\<exists>hs bs. ops = hs @ bs \<and> list_all is_header hs \<and> list_all is_body bs)"

lemma bodies_sent:
  assumes "list_all is_header hs" "list_all is_body bs"
  shows "sent_status (hs @ bs) = 200" "statusRecorder (hs @ bs) = 200"
    "sent_header (hs @ bs) k = snHeader (foldl write_step new_response hs) k"
proof -
  have n: "snStatus (foldl write_step new_response hs) = None"
    using write_headers [OF assms(1), of new_response] by (simp add: new_response_def)
  have st: "snStatus (response_of (hs @ bs)) = Some (200, snHeader (foldl write_step new_response hs))"
  proof (cases bs)
    case Nil
    then show ?thesis using n by (simp add: response_of_def send_status_def)
  next
    case (Cons b bs')
    then have "is_body b" "list_all is_body bs'" using assms(2) by simp_all
    then have "snStatus (foldl write_step new_response (hs @ bs)) = Some (200, snHeader (foldl write_step new_response hs))"
      unfolding Cons by (cases b) (simp_all add: is_body_def n write_bodies send_status_def Let_def)
    then show ?thesis by (simp add: response_of_def send_status_def)
  qed
  then show "sent_status (hs @ bs) = 200" "sent_header (hs @ bs) k = snHeader (foldl write_step new_response hs) k"
    by (simp_all add: sent_status_def sent_header_def)
  show "statusRecorder (hs @ bs) = 200" by (simp add: statusRecorder_def record_headers [OF assms(1)] record_bodies [OF assms(2)])
qed

lemma orderly_first_header:
  assumes "orderly_reply ops" "\<forall>v. SetHeader k v \<notin> set ops"
  shows "statusRecorder (SetHeader k v # ops) = sent_status (SetHeader k v # ops) \<and> sent_header (SetHeader k v # ops) k = Some v"
proof (cases "plain_reply ops")
  case True
  from first_header_sent [OF True assms(2), of v] show ?thesis by (simp add: recorded_is_sent)
next
  case False
  with assms(1) obtain hs bs where ops: "ops = hs @ bs" "list_all is_header hs" "list_all is_body bs" by (auto simp: orderly_reply_def)
  then have h: "list_all is_header (SetHeader k v # hs)" by (simp add: is_header_def)
  have "snHeader (foldl write_step new_response (SetHeader k v # hs)) k = Some v"
    using write_headers [OF ops(2), of "write_step new_response (SetHeader k v)"] assms(2) ops(1) by simp
  with bodies_sent [OF h ops(3)] show ?thesis by (simp add: ops(1))
qed

lemma orderly_replies [simp]:
  "orderly_reply (http_Error n e)" "orderly_reply [WriteHeader n]" "orderly_reply (json_ops x)" "orderly_reply (no_handler rd res)"
proof -
  show p: "orderly_reply (http_Error n e)" for n e by (simp add: orderly_reply_def)
  show "orderly_reply [WriteHeader n]" unfolding orderly_reply_def plain_reply_def by (rule disjI1, rule exI [of _ "[]"]) simp
  show "orderly_reply (json_ops x)" unfolding orderly_reply_def
    by (rule disjI2, rule exI [of _ "[SetHeader ''Content-Type'' ''application/json'']"]) (simp add: json_ops_def is_header_def is_body_def)
  show "orderly_reply (no_handler rd res)"
    using p by (auto simp: no_handler_def orderly_reply_def split: mux_result.splits)
qed

lemma is_header_map [simp]: "is_header (map_write_op f op) = is_header op"
  by (cases op) (auto simp: is_header_def)

lemma is_body_map [simp]: "is_body (map_write_op f op) = is_body op"
  by (cases op) (auto simp: is_body_def)

lemma orderly_proxied: "orderly_reply ops \<Longrightarrow> orderly_reply (map (map_write_op f) ops)"
  unfolding orderly_reply_def plain_reply_def
proof (elim disjE exE conjE)
  fix hs c bs
  assume "ops = hs @ WriteHeader c # bs" "list_all is_header hs" "list_all is_body bs"
  then show "(\<exists>hs c bs. map (map_write_op f) ops = hs @ WriteHeader c # bs \<and> list_all is_header hs \<and> list_all is_body bs)
      \<or> (\<exists>hs bs. map (map_write_op f) ops = hs @ bs \<and> list_all is_header hs \<and> list_all is_body bs)"
    by (intro disjI1 exI [of _ "map (map_write_op f) hs"] exI [of _ c] exI [of _ "map (map_write_op f) bs"]) (simp add: list_all_iff)
next
  fix hs bs
  assume "ops = hs @ bs" "list_all is_header hs" "list_all is_body bs"
  then show "(\<exists>hs c bs. map (map_write_op f) ops = hs @ WriteHeader c # bs \<and> list_all is_header hs \<and> list_all is_body bs)
      \<or> (\<exists>hs bs. map (map_write_op f) ops = hs @ bs \<and> list_all is_header hs \<and> list_all is_body bs)"
    by (intro disjI2 exI [of _ "map (map_write_op f) hs"] exI [of _ "map (map_write_op f) bs"]) (simp add: list_all_iff)
qed

lemma orderly_recorded: "orderly_reply ops \<Longrightarrow> statusRecorder ops = sent_status ops"
  unfolding orderly_reply_def using recorded_is_sent bodies_sent(1,2) by metis

lemma orderly_header:
  assumes "orderly_reply ops"
  shows "orderly_reply (SetHeader k v # ops)"
proof -
  have h: "list_all is_header (SetHeader k v # hs) = list_all is_header hs" for hs by (simp add: is_header_def)
  from assms show ?thesis unfolding orderly_reply_def plain_reply_def by (metis append_Cons h)
qed

lemma gw_dispatch_orderly: "\<forall>g. orderly_reply (upstream g) \<Longrightarrow> orderly_reply (gw_dispatch P now cfg rd upstream m escaped g)"
  by (simp add: gw_dispatch_def gw_write_def orderly_proxied split: mux_result.splits gw_response.splits)

text \<open>Every request is logged once, with the status its client is sent; the reply carries the id of the request unless the proxied
  service has set one.\<close>

theorem gateway_logs_what_it_sends:
  assumes "\<forall>g. orderly_reply (upstream g)"
    and "gw_buildHandler P cfg rd upstream decode reads now fresh clock r il = (il', ops, entry)"
  shows "glStatus entry = sent_status ops \<and> glMethod entry = hqMethod r \<and> glPath entry = hqPath r
     \<and> ((\<forall>v. SetHeader ''X-Request-ID'' v \<notin> set (tl ops)) \<longrightarrow> sent_header ops ''X-Request-ID'' = Some (RequestID fresh (gw_request_of decode r)))"
proof -
  from assms(2) obtain inner where ops: "ops = SetHeader ''X-Request-ID'' (RequestID fresh (gw_request_of decode r)) # inner"
    "entry = gw_AccessLog (fst clock) (snd clock) r ops" "orderly_reply inner"
    using gw_dispatch_orderly [OF assms(1)] by (auto simp: gw_buildHandler_def Let_def split: prod.splits if_splits)
  have "glStatus entry = sent_status ops" using orderly_recorded [OF orderly_header [OF ops(3)]] by (simp add: ops(1,2) gw_AccessLog_def)
  moreover have "(\<forall>v. SetHeader ''X-Request-ID'' v \<notin> set inner) \<Longrightarrow> sent_header ops ''X-Request-ID'' = Some (RequestID fresh (gw_request_of decode r))"
    using orderly_first_header [OF ops(3)] by (simp add: ops(1))
  ultimately show ?thesis by (simp add: ops(1,2) gw_AccessLog_def)
qed

section \<open>The leaderboard and its sources\<close>

definition merged_rows :: "agg_body \<Rightarrow> mergedRow list option" where
  "merged_rows b = (case b of MergedSnaps ms \<Rightarrow> Some (map row_of_merged ms) | _ \<Rightarrow> None)"

definition report_rows :: "val_body \<Rightarrow> ValReport list option" where
  "report_rows b = (case b of Reports rs \<Rightarrow> Some (map row_of_report rs) | _ \<Rightarrow> None)"

definition crash_rows :: "CrashCount list \<Rightarrow> CrashReport list option" where
  "crash_rows cs = Some (map (\<lambda>r. \<lparr>crContestantID = ccContestantID r, crSubmissionID = ccSubmissionID r, crCrashes = ccCrashes r\<rparr>) cs)"

lemma source_paths:
  "abs_dir [''metrics'', ''merged''] = ''/metrics/merged''" "abs_dir [''validate''] = ''/validate''" "abs_dir [''crashes''] = ''/crashes''"
  by (simp_all add: abs_dir_def)

lemma source_segments:
  "safe_segment ''metrics''" "safe_segment ''merged''" "safe_segment ''validate''" "safe_segment ''crashes''"
  by (simp_all add: safe_segment_def normal_def)

lemma source_routes:
  "mux_route agg_routes ''GET'' ''/metrics/merged'' = MuxRoute AggMergedAll []"
  "mux_route val_routes ''GET'' ''/validate'' = MuxRoute ValAll []"
  "mux_route sandbox_routes ''GET'' ''/crashes'' = MuxRoute SbCrashes []"
  using mux_route_safe [of "[''metrics'', ''merged'']" agg_routes "''GET''"] mux_route_safe [of "[''validate'']" val_routes "''GET''"]
    mux_route_safe [of "[''crashes'']" sandbox_routes "''GET''"]
  by (simp_all add: source_paths source_segments route_defs agg_routes_def val_routes_def sandbox_routes_def)

text \<open>The three addresses the leaderboard polls are routes of its three sources, whose replies it decodes: it gets the whole-run
  metrics of every run (no window bound), every verdict, and every crash count.\<close>

theorem leaderboard_reads_its_sources:
  "fetch_Snapshots aggURL (client_get merged_rows (agg_Handler H ids ls rd a ''GET'' ''/metrics/merged'' (\<lambda>_. [])))
     = Inr (map (snapshot_of_row \<circ> row_of_merged) (AllMerged H ids ls a 0))
   \<and> fetch_Reports valURL (client_get report_rows (val_Handler ks rd v ''GET'' ''/validate'')) = Inr (map row_of_report (All_reports ks v))
   \<and> fetch_Crashes sandboxURL (client_get crash_rows (sandbox_http ks os rd t ''GET'' ''/crashes''))
     = Inr (if sandboxURL = [] then [] else the (crash_rows (crash_report ks os t)))"
  by (simp add: fetch_Snapshots_def fetch_Reports_def fetch_Crashes_def getJSON_def client_get_def agg_Handler_def val_Handler_def
      sandbox_http_def source_routes api_ops_def handleMergedAll_def val_handleAll_def json_ops_sent merged_rows_def report_rows_def crash_rows_def query_int_def)

section \<open>Requests that name an id\<close>

lemma more_segments:
  "safe_segment ''order''" "safe_segment ''benchmarks''"
  by (simp_all add: safe_segment_def normal_def)

lemmas id_routes = mux_route_safe [where ss = "[a, b]" for a b] mux_route_safe [where ss = "[a, b, c]" for a b c] mux_route_safe [where ss = "[a]" for a]

text \<open>An id that is a plain path segment is handed to the handler as it is.\<close>

theorem ids_reach_their_handlers:
  assumes "safe_segment i"
  shows "mux_route ref_routes ''DELETE'' (abs_dir [''order'', i]) = MuxRoute RefCancel [i]
     \<and> mux_route coord_routes ''GET'' (abs_dir [''benchmarks'', i]) = MuxRoute CoStatus [i]
     \<and> mux_route coord_routes ''DELETE'' (abs_dir [''benchmarks'', i]) = MuxRoute CoStop [i]
     \<and> mux_route val_routes ''GET'' (abs_dir [''validate'', i]) = MuxRoute ValOne [i]
     \<and> mux_route agg_routes ''GET'' (abs_dir [''metrics'', ''merged'', i]) = MuxRoute AggMerged [i]
     \<and> mux_route agg_routes ''GET'' (abs_dir [''metrics'', i]) = (if i = ''merged'' then MuxRoute AggMergedAll [] else MuxRoute AggOne [i])"
proof -
  have i: "i \<noteq> ''/''" using assms by (auto simp: safe_segment_def normal_def)
  show ?thesis
    by (auto simp: id_routes assms source_segments more_segments i route_defs ref_routes_def coord_routes_def val_routes_def agg_routes_def)
qed

text \<open>The snapshot of a contestant called \<open>merged\<close> is out of reach: its address is that of the whole-run metrics.\<close>

lemma contestant_called_merged_is_hidden:
  "agg_Handler H ids ls rd a ''GET'' (abs_dir [''metrics'', ''merged'']) q = json_ops (MergedSnaps (AllMerged H ids ls a (query_int 0 (q ''windows''))))"
  by (simp add: agg_Handler_def source_paths source_routes api_ops_def handleMergedAll_def)

text \<open>A benchmark may be started under the id \<open>..\<close>, which no request can then name: its address is redirected.\<close>

lemma dotted_benchmark_is_out_of_reach:
  "\<not> bad_id ''..'' \<and> coord_Handler sp rd body ''DELETE'' ''/benchmarks/..'' s = ([SetHeader ''Location'' ''/'', WriteHeader rd], s)"
proof -
  have c: "cleanPath ''/benchmarks/..'' = ''/''" by code_simp
  have "\<not> bad_id ''..''" by code_simp
  then show ?thesis by (simp add: coord_Handler_def mux_route_def Let_def c no_handler_def)
qed

section \<open>A bot and its contestant over HTTP\<close>

definition http_reply_of :: "response write_op list \<Rightarrow> http_reply" where
  "http_reply_of ops = Reply (sent_status ops) (case snBody (response_of ops) of [WriteJSON (RPlaced i fs)] \<Rightarrow> Some (i, map fQty fs) | _ \<Rightarrow> None)"

definition routed_place :: "ref_link \<Rightarrow> rest_req \<Rightarrow> ref_link \<times> http_reply \<times> int64" where
  "routed_place l pr = (case l of (sv, clock) \<Rightarrow>
     let (now, lat) = (case clock of [] \<Rightarrow> (0, 0) | t # _ \<Rightarrow> t)
     in case ref_Handler 301 (Inr \<lparr>prID = '''', prSide = rqSide pr, prKind = rqKind pr, prPrice = rqPrice pr, prQty = rqQty pr\<rparr>) now [] [] ''POST'' ''/order'' sv of
          (sv', ops) \<Rightarrow> ((sv', tl clock), http_reply_of ops, lat))"

definition routed_cancel :: "ref_link \<Rightarrow> string \<Rightarrow> ref_link \<times> http_reply \<times> int64" where
  "routed_cancel l i = (case l of (sv, clock) \<Rightarrow>
     case ref_Handler 301 (Inl ''no body'') 0 [] [] ''DELETE'' (''/order/'' @ i) sv of (sv', ops) \<Rightarrow> ((sv', clock), http_reply_of ops, 0))"

lemma http_Error_body: "snBody (response_of (http_Error n e)) = [WriteText (e @ [CHR 0x0A])]"
  by (simp add: http_Error_def response_of_def new_response_def send_status_def Let_def)

lemma http_reply_of_ops: "http_reply_of (ref_ops r) = reply_of r"
proof (cases r)
  case (RStatus n)
  then show ?thesis
    by (simp add: http_reply_of_def ref_ops_def reply_of_def sent_status_def response_of_def new_response_def send_status_def)
next
  case (RError n e)
  then show ?thesis by (simp add: http_reply_of_def ref_ops_def reply_of_def http_Error_body)
qed (simp_all add: http_reply_of_def ref_ops_def reply_of_def json_ops_sent)

lemma order_path: "mux_route ref_routes ''POST'' ''/order'' = MuxRoute RefPlace []"
  using mux_route_safe [of "[''order'']" ref_routes "''POST''"] more_segments(1) by (simp add: abs_dir_def route_defs ref_routes_def)

text \<open>The ids the reference contestant gives out are plain segments.\<close>

lemma given_id_is_safe: "safe_segment (''ord-'' @ show_nat n)"
proof -
  have "CHR ''/'' \<notin> set (show_nat n)" "CHR ''%'' \<notin> set (show_nat n)"
    using show_nat_is_digits(2) [of n] by (auto simp: list_all_iff is_digit_def)
  then show ?thesis by (simp add: safe_segment_def normal_def)
qed

text \<open>What the bot's REST client exchanges with the contestant through its routes is what \<open>ref_client\<close> exchanges with its handlers directly,
  for the orders and for the cancels of the ids the contestant gave out.\<close>

theorem routes_carry_the_exchange:
  "routed_place l pr = link_place l pr \<and> routed_cancel l (''ord-'' @ show_nat n) = link_cancel l (''ord-'' @ show_nat n)"
proof -
  obtain sv clock where l: "l = (sv, clock)" by (cases l)
  have c: "mux_route ref_routes ''DELETE'' (''/order/'' @ ''ord-'' @ show_nat n) = MuxRoute RefCancel [''ord-'' @ show_nat n]"
    using ids_reach_their_handlers [OF given_id_is_safe [of n]] by (simp add: abs_dir_def)
  have "routed_place l pr = link_place l pr"
    by (auto simp: l routed_place_def link_place_def ref_Handler_def order_path serve_def http_reply_of_ops Let_def split: prod.splits list.splits)
  moreover have "routed_cancel l (''ord-'' @ show_nat n) = link_cancel l (''ord-'' @ show_nat n)"
    unfolding routed_cancel_def ref_Handler_def l prod.case c
    by (simp add: link_cancel_def serve_def http_reply_of_ops split: prod.splits)
  ultimately show ?thesis by blast
qed

end
