(* ===== verification/FixSession.thy ===== *)
theory FixSession
  imports FixClient BotEvents Delivery
begin

text \<open>
  The FIX session around the calls of \<open>FixClient\<close>: the settings the initiator is started with, connecting, what of an
  inbound message is read, and the client as one worker drives it (\<open>bot-worker/internal/client/fix.go\<close>). The lemmas show what
  the worker reports of an order, and what the code loses: only the first execution report of an order counts, its
  status is not read, and the identifiers of two bots of one benchmark coincide.
\<close>

section \<open>The session\<close>

definition line :: "string \<Rightarrow> string" where
  "line s = s @ [CHR 0x0A]"

definition fix_settings :: "FIXConfig \<Rightarrow> string" where
  "fix_settings c = concat (map line
     ['''', ''[DEFAULT]'', ''ConnectionType=initiator'', ''HeartBtInt=30'', ''ResetOnLogon=Y'',
      ''SenderCompID='' @ fgSenderCompID c, ''TargetCompID='' @ fgTargetCompID c, '''',
      ''[SESSION]'', ''BeginString=FIX.4.4'', ''SocketConnectHost='' @ fgTargetHost c, ''SocketConnectPort='' @ show_int (fgTargetPort c)])"

text \<open>The parser of the settings and the initiator are quickfix: \<open>parses\<close> and \<open>created\<close> say how they end.\<close>

definition NewFIX_session :: "(string \<Rightarrow> bool) \<Rightarrow> bool \<Rightarrow> FIXConfig \<Rightarrow> FIXClient option" where
  "NewFIX_session parses created = NewFIX (\<lambda>c. parses (fix_settings c) \<and> created)"

text \<open>\<open>Connect\<close> returns when the first logon has closed \<open>ready\<close> or its context has ended; \<open>None\<close> is waiting.\<close>

definition FIX_Connect :: "go_error option \<Rightarrow> go_error option \<Rightarrow> FIXClient \<Rightarrow> go_error option option" where
  "FIX_Connect started ctx_end c = (case started of Some e \<Rightarrow> Some (Some e)
     | None \<Rightarrow> (case ctx_end of Some e \<Rightarrow> Some (Some e) | None \<Rightarrow> if fcReady c then Some None else None))"

text \<open>A logout is only logged: the session id stays.\<close>

definition OnLogout :: "string \<Rightarrow> FIXClient \<Rightarrow> FIXClient" where
  "OnLogout sessionID c = c"

text \<open>The fields \<open>FromApp\<close> reads of a message; \<open>get_int\<close> is the library's reading of an integer field.\<close>

definition read_report :: "(string \<Rightarrow> int option) \<Rightarrow> (nat \<Rightarrow> string option) \<Rightarrow> fix_report" where
  "read_report get_int msg = \<lparr>rpMsgType = msg 35, rpClOrdID = msg 11, rpOrderID = msg 37, rpCumQty = Option.bind (msg 14) get_int\<rparr>"

section \<open>The client of a worker\<close>

text \<open>
  One worker on the session: the exchange is the list of what happens during each call, the reports that arrive and how
  the call would end if none was for it. A report for the call ends it before that.
\<close>

record fix_turn =
  ftReports :: "fix_report list"
  ftEnd :: fix_outcome
  ftLatency :: int64
  ftNow :: string

type_synonym fix_link = "FIXClient \<times> fix_turn list"

definition idle_turn :: fix_turn where
  "idle_turn = \<lparr>ftReports = [], ftEnd = After5s, ftLatency = 0, ftNow = []\<rparr>"

definition arrive :: "fix_report list \<Rightarrow> FIXClient \<Rightarrow> FIXClient" where
  "arrive = fold (\<lambda>rep c. case FromApp rep c of None \<Rightarrow> c | Some c' \<Rightarrow> c')"

definition turn_outcome :: "nat \<Rightarrow> fix_turn \<Rightarrow> FIXClient \<Rightarrow> fix_outcome" where
  "turn_outcome h t c = (case ftEnd t of SendFails e \<Rightarrow> SendFails e
     | out \<Rightarrow> if fix_take h (arrive (ftReports t) c) \<noteq> None then GotReport else out)"

definition next_turn :: "fix_turn list \<Rightarrow> fix_turn" where
  "next_turn ts = (case ts of [] \<Rightarrow> idle_turn | t # _ \<Rightarrow> t)"

text \<open>A call that still waits at the end of its turn has not returned; here it ends with the five seconds.\<close>

definition fix_link_place :: "string \<Rightarrow> string option \<Rightarrow> int64 \<Rightarrow> fix_link \<Rightarrow> fix_link \<times> PlaceResult \<times> go_error option" where
  "fix_link_place side price qty l = (case l of (c, ts) \<Rightarrow> let t = next_turn ts in
     (case place_begin side price qty (ftNow t) c of (i, h, msg, c1) \<Rightarrow>
       (case sendNewOrder (arrive (ftReports t)) (turn_outcome h t c1) (ftLatency t) (ftNow t) side price qty c of
          Some (c', res, e) \<Rightarrow> ((c', tl ts), res, e)
        | None \<Rightarrow> ((fix_unregister i (arrive (ftReports t) c1), tl ts), noResult, Some plain_error))))"

definition fix_link_cancel :: "string \<Rightarrow> fix_link \<Rightarrow> fix_link \<times> int64 \<times> go_error option" where
  "fix_link_cancel orig l = (case l of (c, ts) \<Rightarrow> let t = next_turn ts in
     (case cancel_begin orig (ftNow t) c of (i, h, msg, c1) \<Rightarrow>
       (case FIX_CancelOrder (arrive (ftReports t)) (turn_outcome h t c1) (ftLatency t) (ftNow t) orig c of
          Some (c', lat, e) \<Rightarrow> ((c', tl ts), lat, e)
        | None \<Rightarrow> ((fix_unregister i (arrive (ftReports t) c1), tl ts), 0, Some plain_error))))"

text \<open>\<open>show_price\<close> is the format \<open>%.2f\<close>.\<close>

definition fix_client :: "(f64 \<Rightarrow> string) \<Rightarrow> fix_link OrderClient" where
  "fix_client show_price =
     \<lparr>clPlaceOrder = (\<lambda>l side price qty. fix_link_place side (Some (show_price price)) qty l),
      clPlaceMarketOrder = (\<lambda>l side qty. fix_link_place side None qty l),
      clCancelOrder = (\<lambda>l orig. fix_link_cancel orig l)\<rparr>"

section \<open>Fresh identifiers\<close>

text \<open>
  What a worker needs of a client so that no two of its orders have one id: an acknowledged order has an id that was not
  used before, as long as the client has some left, and a call uses up at most one.
\<close>

definition placed_ids :: "OrderEvent list \<Rightarrow> string list" where
  "placed_ids es = map eOrderId (filter (\<lambda>e. eType e \<noteq> ORDER_TYPE_CANCEL \<and> \<not> event_failed e) es)"

lemma placed_ids_append [simp]: "placed_ids [] = []" "placed_ids (es @ es') = placed_ids es @ placed_ids es'"
  by (simp_all add: placed_ids_def)

locale fresh_ids =
  fixes cl :: "'c OrderClient" and used :: "'c \<Rightarrow> string set" and left :: "'c \<Rightarrow> nat"
  assumes limit: "clPlaceOrder cl c side p q = (c', res, e) \<Longrightarrow> 0 < left c \<Longrightarrow>
      used c \<subseteq> used c' \<and> left c \<le> Suc (left c') \<and> (e = None \<longrightarrow> plID res \<in> used c' - used c)"
    and market: "clPlaceMarketOrder cl c side q = (c', res, e) \<Longrightarrow> 0 < left c \<Longrightarrow>
      used c \<subseteq> used c' \<and> left c \<le> Suc (left c') \<and> (e = None \<longrightarrow> plID res \<in> used c' - used c)"
    and cancel: "clCancelOrder cl c i = (c', lat, e) \<Longrightarrow> 0 < left c \<Longrightarrow> used c \<subseteq> used c' \<and> left c \<le> Suc (left c')"
begin

definition fresh_so_far :: "nat \<Rightarrow> 'c worker \<Rightarrow> bool" where
  "fresh_so_far n w \<longleftrightarrow> distinct (placed_ids (wkEmitted w)) \<and> set (placed_ids (wkEmitted w)) \<subseteq> used (wkClient w) \<and> n \<le> left (wkClient w)"

lemma cancel_turn_fresh:
  assumes "fresh_so_far (Suc n) w" shows "fresh_so_far n (cancel_turn cl i cfg a w)"
proof (cases "wkLive w")
  case Nil
  then show ?thesis using assms by (simp add: cancel_turn_def fresh_so_far_def)
next
  case (Cons pick rest)
  obtain c' lat e where call: "clCancelOrder cl (wkClient w) pick = (c', lat, e)" by (metis prod_cases3)
  have "0 < left (wkClient w)" using assms by (simp add: fresh_so_far_def)
  from cancel [OF call this] assms show ?thesis
    by (auto simp: cancel_turn_def Cons call fresh_so_far_def BotWorker.emit_def Let_def placed_ids_def split: option.splits)
qed

lemma place_turn_fresh:
  assumes "fresh_so_far (Suc n) w" shows "fresh_so_far n (place_turn cl i cfg a w)"
proof -
  let ?ord = "gen_Next cfg (arDraws a)"
  obtain c' res e where call: "(if goKind ?ord = Market then clPlaceMarketOrder cl (wkClient w) (goSide ?ord) (goQty ?ord)
      else clPlaceOrder cl (wkClient w) (goSide ?ord) (goPrice ?ord) (goQty ?ord)) = (c', res, e)" by (metis prod_cases3)
  have some: "0 < left (wkClient w)" using assms by (simp add: fresh_so_far_def)
  have law: "used (wkClient w) \<subseteq> used c'" "left (wkClient w) \<le> Suc (left c')" "e = None \<Longrightarrow> plID res \<in> used c' - used (wkClient w)"
    using call limit [OF _ some] market [OF _ some] by (metis (full_types))+
  obtain result filled where cf: "classify_fill res (goQty ?ord) = (result, filled)" by fastforce
  have failed: "eResult ev = resultForErr x \<Longrightarrow> event_failed ev" for ev x by (simp add: event_failed_def resultForErr_def)
  show ?thesis
  proof (cases e)
    case None
    with law assms have "plID res \<notin> set (placed_ids (wkEmitted w))" "plID res \<in> used c'" by (auto simp: fresh_so_far_def)
    with None law assms show ?thesis
      by (auto simp: place_turn_def call cf Let_def BotWorker.emit_def fresh_so_far_def placed_ids_def)
  next
    case (Some x)
    with law assms show ?thesis by (auto simp: place_turn_def call Let_def BotWorker.emit_def fresh_so_far_def placed_ids_def failed)
  qed
qed

lemma worker_tick_fresh: "fresh_so_far (Suc (Suc n)) w \<Longrightarrow> fresh_so_far n (worker_tick cl i cfg w a)"
  using cancel_turn_fresh [of "Suc n" w i cfg a] place_turn_fresh [of n "cancel_turn cl i cfg a w" i cfg a]
  by (auto simp: worker_tick_def Let_def) (auto simp: fresh_so_far_def)

lemma runWorker_fresh:
  assumes "2 * length as \<le> left c" shows "distinct (placed_ids (wkEmitted (runWorker cl i cfg c as)))"
proof -
  have "fresh_so_far 0 (foldl (worker_tick cl i cfg) w as)" if "fresh_so_far (2 * length as) w" for w
    using that by (induction as arbitrary: w) (simp_all add: worker_tick_fresh)
  moreover have "fresh_so_far (2 * length as) \<lparr>wkClient = c, wkLive = [], wkRec = NewRecorder, wkEmitted = [], wkStopped = False\<rparr>"
    using assms by (simp add: fresh_so_far_def)
  ultimately have "fresh_so_far 0 (runWorker cl i cfg c as)" by (simp add: runWorker_def)
  then show ?thesis by (simp add: fresh_so_far_def)
qed

end

section \<open>The FIX client has fresh identifiers\<close>

text \<open>The identifier of an order; its number is what the counter of the client was raised to.\<close>

definition bot_id :: "nat \<Rightarrow> string" where
  "bot_id n = ''bot-'' @ show_nat n"

definition fix_used :: "fix_link \<Rightarrow> string set" where
  "fix_used l = bot_id ` {1..unat (fcSeq (fst l))}"

definition fix_left :: "fix_link \<Rightarrow> nat" where
  "fix_left l = 2 ^ 64 - 1 - unat (fcSeq (fst l))"

lemma deliver_keeps_counter: "FromApp rep c = Some c' \<Longrightarrow> fcSeq c' = fcSeq c \<and> fcSides c' = fcSides c"
  by (auto simp: FromApp_def fix_route_def fix_deliver_def fix_unregister_def split: option.splits prod.splits send_result.splits if_splits)

lemma arrive_keeps_counter [simp]: "fcSeq (arrive rs c) = fcSeq c"
proof -
  have "fcSeq (fold (\<lambda>rep c. case FromApp rep c of None \<Rightarrow> c | Some c' \<Rightarrow> c') rs c) = fcSeq c"
    by (induction rs arbitrary: c) (auto dest: deliver_keeps_counter split: option.splits)
  then show ?thesis by (simp add: arrive_def)
qed

lemma take_keeps_counter: "fix_take h c = Some (r, c') \<Longrightarrow> fcSeq c' = fcSeq c"
  by (auto simp: fix_take_def split: recv_result.splits)

lemma place_raises_counter:
  assumes "fix_link_place side price qty l = (l', res, e)"
  shows "fcSeq (fst l') = fcSeq (fst l) + 1" "e = None \<Longrightarrow> plID res = bot_id (unat (fcSeq (fst l) + 1))"
  using assms by (auto simp: fix_link_place_def sendNewOrder_def place_begin_def fix_register_def fix_unregister_def bot_id_def Let_def
      dest!: take_keeps_counter split: prod.splits option.splits)

lemma cancel_raises_counter: "fix_link_cancel orig l = (l', lat, e) \<Longrightarrow> fcSeq (fst l') = fcSeq (fst l) + 1"
  by (auto simp: fix_link_cancel_def FIX_CancelOrder_def cancel_begin_def fix_register_def fix_unregister_def Let_def
      dest!: take_keeps_counter split: prod.splits option.splits)

lemma counter_raised:
  assumes "fcSeq (fst l') = fcSeq (fst l) + 1" "0 < fix_left l"
  shows "unat (fcSeq (fst l')) = Suc (unat (fcSeq (fst l)))" "fix_used l \<subseteq> fix_used l'" "fix_left l \<le> Suc (fix_left l')"
    "bot_id (unat (fcSeq (fst l) + 1)) \<in> fix_used l' - fix_used l"
proof -
  have "unat (fcSeq (fst l)) + 1 < 2 ^ 64" using assms(2) by (simp add: fix_left_def)
  then have "unat (fcSeq (fst l) + 1) = unat (fcSeq (fst l)) + 1" by (simp add: unat_word_ariths)
  then show n: "unat (fcSeq (fst l')) = Suc (unat (fcSeq (fst l)))" by (simp add: assms(1))
  then show "fix_used l \<subseteq> fix_used l'" "fix_left l \<le> Suc (fix_left l')" by (auto simp: fix_used_def fix_left_def)
  have "inj bot_id" by (auto simp: inj_def bot_id_def)
  then show "bot_id (unat (fcSeq (fst l) + 1)) \<in> fix_used l' - fix_used l" using n
    by (auto simp: fix_used_def assms(1) dest: injD)
qed

lemma place_is_fresh:
  assumes "fix_link_place side price qty l = (l', res, e)" "0 < fix_left l"
  shows "fix_used l \<subseteq> fix_used l' \<and> fix_left l \<le> Suc (fix_left l') \<and> (e = None \<longrightarrow> plID res \<in> fix_used l' - fix_used l)"
  using counter_raised [OF place_raises_counter(1) [OF assms(1)] assms(2)] place_raises_counter(2) [OF assms(1)] by simp

lemma cancel_is_fresh:
  assumes "fix_link_cancel orig l = (l', lat, e)" "0 < fix_left l"
  shows "fix_used l \<subseteq> fix_used l' \<and> fix_left l \<le> Suc (fix_left l')"
  using counter_raised [OF cancel_raises_counter [OF assms(1)] assms(2)] by simp

interpretation fixc: fresh_ids "fix_client show_price" fix_used fix_left for show_price
  by (unfold_locales, unfold fix_client_def OrderClient.simps) (erule place_is_fresh cancel_is_fresh, assumption)+

text \<open>
  However the exchange answers, the orders a FIX worker reports as acknowledged have distinct identifiers, those of its cancels
  are among them, and each is cancelled at most once.
\<close>

theorem fix_worker_orders_are_distinct:
  assumes "NewFIX ok cfg = Some c" "2 * length as < 2 ^ 64"
  shows "distinct (placed_ids (wkEmitted (runWorker (fix_client show_price) i g (c, ts) as)))"
    "distinct (cancelled_ids (wkEmitted (runWorker (fix_client show_price) i g (c, ts) as)))"
proof -
  let ?es = "wkEmitted (runWorker (fix_client show_price) i g (c, ts) as)"
  have "fcSeq c = 0" using assms(1) by (auto simp: NewFIX_def Let_def split: if_splits)
  then have "2 * length as \<le> fix_left (c, ts)" using assms(2) by (simp add: fix_left_def)
  from fixc.runWorker_fresh [OF this] show d: "distinct (placed_ids ?es)" .
  obtain rest where r: "resting_ids ?es = cancelled_ids ?es @ rest"
    using runWorker_inv [of i "fix_client show_price" g "(c, ts)" as] by (auto simp: worker_inv_def)
  have "resting_ids es = map eOrderId (filter (\<lambda>e. eType e = ORDER_TYPE_LIMIT) (filter (\<lambda>e. eType e \<noteq> ORDER_TYPE_CANCEL \<and> \<not> event_failed e) es))" for es
    unfolding resting_ids_def filter_filter by (rule arg_cong [where f = "map eOrderId"], rule filter_cong) auto
  then have "distinct (resting_ids ?es)" using d by (simp only: placed_ids_def distinct_map_filter)
  then show "distinct (cancelled_ids ?es)" by (simp add: r)
qed

section \<open>What is lost of an execution report\<close>

text \<open>The status of a report is not read: a refused order and an accepted one look the same.\<close>

lemma status_is_not_read:
  "read_report get_int (msg(39 \<mapsto> status, 150 \<mapsto> exec)) = read_report get_int msg"
  by (simp add: read_report_def)

text \<open>
  The first report for a pending order ends the call; one that follows finds no entry and is dropped. An exchange that
  announces an order before its fill, both with the cumulative quantity, is therefore credited the quantity of the announcement.
\<close>

lemma first_report_decides:
  assumes "report_result rep = Some (i, r)" "report_result rep' = Some (i, r')" "fcPending c i \<noteq> None" "FromApp rep c = Some c1"
  shows "FromApp rep' c1 = Some c1"
  using assms by (auto simp: FromApp_def fix_route_def fix_deliver_def fix_unregister_def split: option.splits send_result.splits)

definition fix_text :: "(nat \<times> string) list \<Rightarrow> fix_report" where
  "fix_text body = read_report (\<lambda>s. if list_all is_digit s then Some (int (read_nat s)) else None) (map_of body)"

definition announced_then_filled :: "fix_report list" where
  "announced_then_filled = map fix_text
     [[(35, ''8''), (11, ''bot-1''), (37, ''x1''), (39, ''0''), (14, ''0'')],
      [(35, ''8''), (11, ''bot-1''), (37, ''x1''), (39, ''2''), (14, ''5'')]]"

lemma fill_after_announcement_is_lost:
  "fst (snd (fix_link_place ''buy'' (Some ''100.00'') 5 (fix_sample, [idle_turn\<lparr>ftReports := announced_then_filled\<rparr>])))
     = \<lparr>plID = ''bot-1'', plFilled = 0, plFillKnown = True, plLatencyNs = 0\<rparr>"
  by code_simp

text \<open>What the validator says of it: the taking order of an honest contestant counts as wrong.\<close>

lemma announced_fill_counts_wrong:
  "classify_fill \<lparr>plID = ''bot-1'', plFilled = 0, plFillKnown = True, plLatencyNs = 0\<rparr> 5 = (ORDER_RESULT_ACK_ONLY, 0)"
  "map_option (\<lambda>c. (cTotal c, cMismatches c)) (vCounters
     (foldl (\<lambda>v e. Process v (Some e)) NewValidator [resting_offer, taking_order\<lparr>eResult := ORDER_RESULT_ACK_ONLY, eFilledQuantity := 0\<rparr>]) ''s1'') = Some (2, 1)"
  by code_simp+

text \<open>
  Every FIX client calls its first order \<open>bot-1\<close>, and the book of a run knows orders by their identifier only: when two bots
  of one benchmark trade over FIX, the cancel of one takes the order of the other.
\<close>

lemma bots_share_identifiers:
  assumes "NewFIX ok cfg = Some c" shows "fst (place_begin side price qty now c) = ''bot-1''"
proof -
  have "fcSeq c = 0" using assms by (auto simp: NewFIX_def Let_def split: if_splits)
  then show ?thesis by (simp add: place_begin_def fix_register_def Let_def show_nat.simps digit_def) code_simp
qed

definition bid_of_one_bot :: OrderEvent where
  "bid_of_one_bot = resting_offer\<lparr>eBotId := ''pod-a'', eOrderId := ''bot-1'', eSide := ORDER_SIDE_BUY, ePrice := Fin 90\<rparr>"

definition offer_of_another :: OrderEvent where
  "offer_of_another = resting_offer\<lparr>eBotId := ''pod-b'', eOrderId := ''bot-1''\<rparr>"

lemma cancel_takes_the_other_order:
  "map_option (\<lambda>b. (length (bids b), length (asks b))) (vBooks (foldl (\<lambda>v e. Process v (Some e)) NewValidator
     [bid_of_one_bot, offer_of_another, offer_of_another\<lparr>eType := ORDER_TYPE_CANCEL\<rparr>]) ''s1'') = Some (0, 1)"
  by code_simp

end
