(* ===== verification/Sharding.thy ===== *)
theory Sharding
  imports Delivery Services
begin

text \<open>
  The topic between ingester and consumers with its partitions: the producer keys a message by its contestant
  (\<open>telemetry-ingester/internal/producer/kafka.go\<close>), the writer's hash balancer gives a key one partition, and the consumers of
  one group (\<open>validator/internal/consumer/kafka.go\<close>) share the partitions, each reading its own in any interleaving. The lemmas
  show that one consumer sees all events of a run, in the order they were written.
\<close>

section \<open>Writing\<close>

text \<open>
  A partition is the list of its messages, key and value. \<open>balance\<close> is the hash balancer: the partition of a key among so
  many. The writer appends in the order it is given the messages of one partition.
\<close>

type_synonym topic = "(string \<times> string) list list"

definition kafka_append :: "(string \<Rightarrow> nat \<Rightarrow> nat) \<Rightarrow> topic \<Rightarrow> string \<times> string \<Rightarrow> topic" where
  "kafka_append balance t m = (let p = balance (fst m) (length t) in t[p := t ! p @ [m]])"

text \<open>
  What a call of \<open>Publish\<close> writes: the messages of the batch that the brokers took, \<open>mask\<close> being their positions; none
  when an event does not marshal. The error of the call is only logged by the drain loop.
\<close>

definition batch_messages :: "(OrderEvent \<Rightarrow> string + string) \<Rightarrow> nat set \<times> OrderEvent list \<Rightarrow> (string \<times> string) list" where
  "batch_messages marshal mb = (case kafka_messages marshal (snd mb) [] of Inl e \<Rightarrow> [] | Inr ms \<Rightarrow> nths ms (fst mb))"

definition topic_after :: "(OrderEvent \<Rightarrow> string + string) \<Rightarrow> (string \<Rightarrow> nat \<Rightarrow> nat) \<Rightarrow> nat \<Rightarrow> (nat set \<times> OrderEvent list) list \<Rightarrow> topic" where
  "topic_after marshal balance n batches = foldl (kafka_append balance) (replicate n []) (concat (map (batch_messages marshal) batches))"

text \<open>The events written, in the order of publication.\<close>

definition batch_events :: "(OrderEvent \<Rightarrow> string + string) \<Rightarrow> nat set \<times> OrderEvent list \<Rightarrow> OrderEvent list" where
  "batch_events marshal mb = (if list_ex (\<lambda>e. isl (marshal e)) (snd mb) then [] else nths (snd mb) (fst mb))"

definition written_events :: "(OrderEvent \<Rightarrow> string + string) \<Rightarrow> (nat set \<times> OrderEvent list) list \<Rightarrow> OrderEvent list" where
  "written_events marshal batches = concat (map (batch_events marshal) batches)"

lemma kafka_messages_all:
  "kafka_messages marshal es ms = Inr ms' \<Longrightarrow>
     (\<forall>e \<in> set es. \<exists>d. marshal e = Inr d) \<and> ms' = ms @ map (\<lambda>e. (eContestantId e, projr (marshal e))) es"
  by (induction marshal es ms rule: kafka_messages.induct) (auto split: sum.splits)

lemma kafka_messages_fail: "kafka_messages marshal es ms = Inl err \<Longrightarrow> list_ex (\<lambda>e. isl (marshal e)) es"
  by (induction marshal es ms rule: kafka_messages.induct) (auto split: sum.splits)

definition message_of :: "(OrderEvent \<Rightarrow> string + string) \<Rightarrow> OrderEvent \<Rightarrow> string \<times> string" where
  "message_of marshal e = (eContestantId e, projr (marshal e))"

lemma batch_messages_eq:
  "batch_messages marshal mb = map (message_of marshal) (batch_events marshal mb)"
  "e \<in> set (batch_events marshal mb) \<Longrightarrow> \<exists>d. marshal e = Inr d"
proof -
  show "batch_messages marshal mb = map (message_of marshal) (batch_events marshal mb)"
  proof (cases "kafka_messages marshal (snd mb) []")
    case (Inl err)
    then show ?thesis using kafka_messages_fail [OF Inl] by (auto simp: batch_messages_def batch_events_def)
  next
    case (Inr ms)
    from kafka_messages_all [OF this] show ?thesis using Inr
      by (fastforce simp: batch_messages_def batch_events_def nths_map message_of_def [abs_def] list_ex_iff)
  qed
  show "\<exists>d. marshal e = Inr d" if "e \<in> set (batch_events marshal mb)"
    using that by (cases "marshal e") (auto simp: batch_events_def list_ex_iff dest!: in_set_nthsD split: if_splits)
qed

lemma written_messages:
  "concat (map (batch_messages marshal) batches) = map (message_of marshal) (written_events marshal batches)"
  by (simp add: written_events_def map_concat comp_def batch_messages_eq(1) [abs_def])

lemma written_marshal: "e \<in> set (written_events marshal batches) \<Longrightarrow> \<exists>d. marshal e = Inr d"
  using batch_messages_eq(2) by (fastforce simp: written_events_def)

text \<open>Each partition holds the messages of its keys, in the order they were written.\<close>

lemma partition_contents:
  assumes "\<And>c. balance c n < n" "p < n"
  shows "length (foldl (kafka_append balance) (replicate n []) ms) = n
     \<and> foldl (kafka_append balance) (replicate n []) ms ! p = filter (\<lambda>m. balance (fst m) n = p) ms"
  using assms by (induction ms rule: rev_induct) (auto simp: kafka_append_def Let_def nth_list_update)

section \<open>Reading\<close>

text \<open>
  A consumer reads one message at a time; \<open>reads\<close> is the partition each read is from, and \<open>cur\<close> the next offset of each. A
  read at the end of a partition finds nothing yet.
\<close>

fun polled :: "topic \<Rightarrow> (nat \<Rightarrow> nat) \<Rightarrow> nat list \<Rightarrow> (nat \<times> nat) list" where
  "polled t cur [] = []"
| "polled t cur (p # reads) = (if p < length t \<and> cur p < length (t ! p)
     then (p, cur p) # polled t (cur(p := Suc (cur p))) reads else polled t cur reads)"

definition message_at :: "topic \<Rightarrow> nat \<times> nat \<Rightarrow> string \<times> string" where
  "message_at t pk = t ! fst pk ! snd pk"

definition fetches :: "topic \<Rightarrow> nat list \<Rightarrow> fetch list" where
  "fetches t reads = map (\<lambda>pk. FetchMsg (snd (message_at t pk)) (int (snd pk))) (polled t (\<lambda>_. 0) reads)"

lemma polled_valid: "pk \<in> set (polled t cur reads) \<Longrightarrow> fst pk \<in> set reads \<and> fst pk < length t \<and> snd pk < length (t ! fst pk)"
  by (induction t cur reads rule: polled.induct) (auto split: if_splits)

lemma polled_partition:
  "p < length t \<Longrightarrow> map (message_at t) (filter (\<lambda>pk. fst pk = p) (polled t cur reads)) = take (count_list reads p) (drop (cur p) (t ! p))"
proof (induction t cur reads rule: polled.induct)
  case (2 t cur q reads)
  show ?case
  proof (cases "q < length t \<and> cur q < length (t ! q)")
    case True
    with 2 show ?thesis by (auto simp: fun_upd_def message_at_def Cons_nth_drop_Suc [symmetric])
  next
    case False
    with 2 have "q = p \<Longrightarrow> drop (cur p) (t ! p) = []" by simp
    with False 2 show ?thesis by auto
  qed
qed simp

lemma filter_take: "\<exists>j. filter P (take k xs) = take j (filter P xs)"
  by (metis append_eq_conv_conj append_take_drop_id filter_append)

section \<open>One run in the topic\<close>

lemma run_events_filter: "run_events k (map Some es) = filter (\<lambda>e. event_key (Some e) = Some k) es"
  by (induction es) (simp_all add: run_events_def)

lemma decoded_messages:
  "\<forall>x \<in> set xs. unmarshal (f x) = Inr (h x) \<Longrightarrow> decoded_of unmarshal (map (\<lambda>x. FetchMsg (f x) (g x)) xs) = map h xs"
  by (induction xs) auto

definition decodes_what_it_encodes :: "(OrderEvent \<Rightarrow> string + string) \<Rightarrow> (string \<Rightarrow> string + OrderEvent) \<Rightarrow> bool" where
  "decodes_what_it_encodes marshal unmarshal \<longleftrightarrow> (\<forall>e d. marshal e = Inr d \<longrightarrow> unmarshal d = Inr e)"

text \<open>What a read of a partition is: the event it was written for, under the key of its contestant.\<close>

definition event_at :: "(string \<Rightarrow> string + OrderEvent) \<Rightarrow> topic \<Rightarrow> nat \<times> nat \<Rightarrow> OrderEvent" where
  "event_at unmarshal t pk = projr (unmarshal (snd (message_at t pk)))"

lemma topic_partition:
  assumes "\<forall>c. balance c n < n" "t = topic_after marshal balance n batches" "p < n"
  shows "length t = n" "t ! p = map (message_of marshal) (filter (\<lambda>e. balance (eContestantId e) n = p) (written_events marshal batches))"
  using partition_contents [of balance n p "map (message_of marshal) (written_events marshal batches)"] assms
  by (simp_all add: topic_after_def written_messages filter_map comp_def message_of_def)

lemma decodes_written:
  "decodes_what_it_encodes marshal unmarshal \<Longrightarrow> e \<in> set (written_events marshal batches) \<Longrightarrow> unmarshal (snd (message_of marshal e)) = Inr e"
  using written_marshal [of e marshal batches] by (auto simp: decodes_what_it_encodes_def message_of_def)

lemma polled_event:
  assumes "decodes_what_it_encodes marshal unmarshal" "\<forall>c. balance c n < n" "t = topic_after marshal balance n batches"
    and "pk \<in> set (polled t cur reads)"
  shows "unmarshal (snd (message_at t pk)) = Inr (event_at unmarshal t pk)" "event_at unmarshal t pk \<in> set (written_events marshal batches)"
    "fst (message_at t pk) = eContestantId (event_at unmarshal t pk)" "balance (eContestantId (event_at unmarshal t pk)) n = fst pk"
proof -
  have len: "length t = n" using topic_partition(1) [OF assms(2,3)] assms(2) by blast
  from polled_valid [OF assms(4)] len have pk: "fst pk < n" "message_at t pk \<in> set (t ! fst pk)" by (simp_all add: message_at_def)
  then obtain e where e: "e \<in> set (written_events marshal batches)" "balance (eContestantId e) n = fst pk" "message_at t pk = message_of marshal e"
    using topic_partition(2) [OF assms(2,3) pk(1)] by auto
  moreover have "event_at unmarshal t pk = e" using decodes_written [OF assms(1) e(1)] e(3) by (simp add: event_at_def)
  ultimately show "unmarshal (snd (message_at t pk)) = Inr (event_at unmarshal t pk)" "event_at unmarshal t pk \<in> set (written_events marshal batches)"
    "fst (message_at t pk) = eContestantId (event_at unmarshal t pk)" "balance (eContestantId (event_at unmarshal t pk)) n = fst pk"
    using decodes_written [OF assms(1) e(1)] by (simp_all add: message_of_def)
qed

text \<open>The events of one contestant a consumer handles are those it read from the contestant's partition.\<close>

lemma handled_of_contestant:
  assumes codec: "decodes_what_it_encodes marshal unmarshal" and bal: "\<forall>c. balance c n < n"
    and t: "t = topic_after marshal balance n batches" and h: "handled = decoded_of unmarshal (fetches t reads)"
  shows "set handled \<subseteq> set (written_events marshal batches)"
    "filter (\<lambda>e. eContestantId e = c) handled = filter (\<lambda>e. eContestantId e = c)
       (take (count_list reads (balance c n)) (filter (\<lambda>e. balance (eContestantId e) n = balance c n) (written_events marshal batches)))"
proof -
  let ?L = "polled t (\<lambda>_. 0) reads" and ?P = "balance c n" and ?ev = "event_at unmarshal t"
  let ?W = "filter (\<lambda>e. balance (eContestantId e) n = ?P) (written_events marshal batches)"
  note ev = polled_event [OF codec bal t, of _ "\<lambda>_. 0" reads]
  have n: "?P < n" "length t = n" using topic_partition(1) [OF bal t] bal by blast+
  have handled: "handled = map ?ev ?L" unfolding h fetches_def by (rule decoded_messages) (use ev(1) in blast)
  then show "set handled \<subseteq> set (written_events marshal batches)" using ev(2) by auto
  have "filter (\<lambda>e. eContestantId e = c) handled = filter (\<lambda>e. eContestantId e = c) (map ?ev (filter (\<lambda>pk. fst pk = ?P) ?L))"
    unfolding handled filter_map comp_def filter_filter
    by (intro arg_cong [where f = "map ?ev"] filter_cong refl) (use ev(4) in auto)
  also have "map ?ev (filter (\<lambda>pk. fst pk = ?P) ?L) = map (\<lambda>m. projr (unmarshal (snd m))) (map (message_at t) (filter (\<lambda>pk. fst pk = ?P) ?L))"
    by (simp add: event_at_def)
  also have "map (message_at t) (filter (\<lambda>pk. fst pk = ?P) ?L) = take (count_list reads ?P) (map (message_of marshal) ?W)"
    using polled_partition [of ?P t "\<lambda>_. 0" reads] n topic_partition(2) [OF bal t n(1)] by simp
  also have "map (\<lambda>m. projr (unmarshal (snd m))) \<dots> = take (count_list reads ?P) ?W"
    using decodes_written [OF codec] by (auto simp: take_map intro!: map_idI dest!: in_set_takeD)
  finally show "filter (\<lambda>e. eContestantId e = c) handled = filter (\<lambda>e. eContestantId e = c) (take (count_list reads ?P) ?W)" .
qed

text \<open>A run belongs to one contestant, so its events are a prefix of those written for it.\<close>

lemma handled_of_run:
  assumes codec: "decodes_what_it_encodes marshal unmarshal" and bal: "\<forall>c. balance c n < n"
    and t: "t = topic_after marshal balance n batches" and h: "handled = decoded_of unmarshal (fetches t reads)"
    and own: "\<forall>e \<in> set (written_events marshal batches). event_key (Some e) = Some k \<longrightarrow> eContestantId e = c"
  shows "\<exists>j. run_events k (map Some handled) = take j (run_events k (map Some (written_events marshal batches)))"
    "length (t ! balance c n) \<le> count_list reads (balance c n) \<Longrightarrow>
       run_events k (map Some handled) = run_events k (map Some (written_events marshal batches))"
    "balance c n \<notin> set reads \<Longrightarrow> run_events k (map Some handled) = []"
proof -
  let ?W = "written_events marshal batches" and ?P = "balance c n" and ?own = "\<lambda>e. event_key (Some e) = Some k \<and> eContestantId e = c"
  let ?part = "filter (\<lambda>e. balance (eContestantId e) n = ?P) ?W" and ?j = "count_list reads ?P"
  note hc = handled_of_contestant [OF codec bal t h]
  have only: "run_events k (map Some es) = filter (\<lambda>e. event_key (Some e) = Some k) (filter (\<lambda>e. eContestantId e = c) es)" if "set es \<subseteq> set ?W" for es
    unfolding run_events_filter filter_filter by (rule filter_cong) (use own that in auto)
  have run: "run_events k (map Some handled) = filter ?own (take ?j ?part)"
    using hc(2) [of c] by (auto simp: only [OF hc(1)] conj_commute)
  have part: "filter ?own ?part = run_events k (map Some ?W)"
    unfolding only [OF order_refl] filter_filter by (rule filter_cong) auto
  have len: "length (t ! ?P) = length ?part" using topic_partition(2) [OF bal t] bal by simp
  obtain j where "filter ?own (take ?j ?part) = take j (filter ?own ?part)" using filter_take by blast
  then show "\<exists>j. run_events k (map Some handled) = take j (run_events k (map Some ?W))" using run part by auto
  show "run_events k (map Some handled) = run_events k (map Some ?W)" if "length (t ! ?P) \<le> ?j"
    using that run part len by simp
  show "run_events k (map Some handled) = []" if "?P \<notin> set reads" using that run by simp
qed

section \<open>Properties\<close>


section \<open>Two validators on two partitions\<close>

text \<open>An encoder for the events of a list: an event is as many letters as its position.\<close>

definition encode_in :: "OrderEvent list \<Rightarrow> OrderEvent \<Rightarrow> string + string" where
  "encode_in es e = (let k = length (takeWhile (\<lambda>x. x \<noteq> e) es) in if k < length es then Inr (replicate k (CHR ''x'')) else Inl ''unknown'')"

definition decode_in :: "OrderEvent list \<Rightarrow> string \<Rightarrow> string + OrderEvent" where
  "decode_in es d = (if length d < length es then Inr (es ! length d) else Inl ''garbage'')"

lemma list_codec: "decodes_what_it_encodes (encode_in es) (decode_in es)"
  using nth_length_takeWhile [where xs = es] by (fastforce simp: decodes_what_it_encodes_def encode_in_def decode_in_def Let_def split: if_splits)

definition order_of_bob :: OrderEvent where
  "order_of_bob = resting_offer\<lparr>eContestantId := ''bob'', eSubmissionId := ''s2''\<rparr>"

definition three_events :: "OrderEvent list" where
  "three_events = [resting_offer, order_of_bob, taking_order]"

definition two_partitions :: "string \<Rightarrow> nat \<Rightarrow> nat" where
  "two_partitions c n = (if c = ''alice'' then 0 else 1) mod n"

definition three_topic :: topic where
  "three_topic = topic_after (encode_in three_events) two_partitions 2 [({0, 1}, [resting_offer, order_of_bob]), ({0}, [taking_order])]"

lemma three_written: "written_events (encode_in three_events) [({0, 1}, [resting_offer, order_of_bob]), ({0}, [taking_order])] = three_events"
  by code_simp

lemma three_lengths: "length (three_topic ! 0) = 2" "length (three_topic ! 1) = 1"
  by code_simp+


end
