(* ===== verification/Connections.thy ===== *)
theory Connections
  imports Submission SubmissionHttp
begin

text \<open>
  What the services do when they connect to their stores and to the cluster: the object stores behind one interface
  (\<open>submission-svc/internal/storage\<close>), the bucket several replicas make sure of at once, the connection pools of Postgres and
  TimescaleDB, and where the cluster configuration comes from. The outcome of each call of a client library is an
  argument. The lemmas show that what was put is what one gets, that a service that starts has its bucket, and
  that a failing connect leaves nothing open.
\<close>

section \<open>Object stores\<close>

text \<open>The two operations clients use; an error of \<open>Put\<close> leaves the objects as they were.\<close>

locale object_store =
  fixes put :: "string \<Rightarrow> string \<Rightarrow> 's \<Rightarrow> (string + string) \<times> 's" and get :: "string \<Rightarrow> 's \<Rightarrow> string + string \<times> nat"
  assumes put_get: "put k v s = (Inr addr, s') \<Longrightarrow> get k s' = Inr (v, length v)"
    and put_other: "put k v s = (r, s') \<Longrightarrow> k' \<noteq> k \<Longrightarrow> get k' s' = get k' s"
    and put_fails: "put k v s = (Inl e, s') \<Longrightarrow> s' = s"
begin

definition put_all :: "(string \<times> string) list \<Rightarrow> 's \<Rightarrow> 's" where
  "put_all kvs s = fold (\<lambda>(k, v) s. snd (put k v s)) kvs s"

text \<open>Later uploads under other keys do not disturb an object.\<close>

lemma get_after_others:
  assumes "put k v s = (Inr addr, s')" "k \<notin> fst ` set kvs"
  shows "get k (put_all kvs s') = Inr (v, length v)"
proof -
  have "get k (fold (\<lambda>(k, v) s. snd (put k v s)) kvs s0) = get k s0" if "k \<notin> fst ` set kvs" for s0
    using that
  proof (induction kvs arbitrary: s0)
    case (Cons kv kvs)
    obtain k' v' where kv: "kv = (k', v')" by fastforce
    obtain r s1 where p: "put k' v' s0 = (r, s1)" by fastforce
    with Cons.prems have "get k s1 = get k s0" by (intro put_other) (auto simp: kv)
    moreover have "get k (fold (\<lambda>(k, v) s. snd (put k v s)) kvs s1) = get k s1" using Cons by simp
    ultimately show ?case using p by (simp add: kv)
  qed simp
  then show ?thesis using assms put_get by (simp add: put_all_def)
qed

end

text \<open>The objects of a bucket; \<open>fails\<close> is the outcome of the request, which takes place as a whole or not at all.\<close>

definition minio_put :: "(string \<Rightarrow> string \<Rightarrow> string option) \<Rightarrow> string \<Rightarrow> string \<Rightarrow> string \<Rightarrow> (string \<rightharpoonup> string) \<Rightarrow> (string + string) \<times> (string \<rightharpoonup> string)" where
  "minio_put fails bucket key content objs = (case minio_Put fails bucket key content of
     Inl e \<Rightarrow> (Inl e, objs) | Inr addr \<Rightarrow> (Inr addr, objs(key \<mapsto> content)))"

text \<open>\<open>GetObject\<close> does not look at the object yet; \<open>Stat\<close> does, and when it fails the object is closed.\<close>

definition minio_Get :: "string option \<Rightarrow> (string \<rightharpoonup> string) \<Rightarrow> string \<Rightarrow> string + string \<times> nat" where
  "minio_Get get_error objs key = (case get_error of Some e \<Rightarrow> Inl (''get object: '' @ e)
     | None \<Rightarrow> (case objs key of None \<Rightarrow> Inl ''stat object: The specified key does not exist.'' | Some d \<Rightarrow> Inr (d, length d)))"

definition memory_put :: "string \<Rightarrow> string \<Rightarrow> (string \<rightharpoonup> string) \<Rightarrow> (string + string) \<times> (string \<rightharpoonup> string)" where
  "memory_put key content m = (case memory_Put key content m of (addr, m') \<Rightarrow> (Inr addr, m'))"

interpretation minio: object_store "minio_put fails bucket" "\<lambda>k objs. minio_Get None objs k" for fails bucket
  by unfold_locales (auto simp: minio_put_def minio_Put_def minio_Get_def split: option.splits)

interpretation mem_objects: object_store memory_put memory_Get
  by unfold_locales (auto simp: memory_put_def memory_Put_def memory_Get_def)

text \<open>An archive stays what was uploaded while others are uploaded under their own keys.\<close>

lemma uploaded_archive_is_read_back:
  "minio_put fails bucket k v objs = (Inr addr, objs') \<Longrightarrow> k \<notin> fst ` set kvs \<Longrightarrow>
     minio_Get None (minio.put_all fails bucket kvs objs') k = Inr (v, length v)"
  by (rule minio.get_after_others)

section \<open>The bucket\<close>

record minio_config =
  moBucket :: string
  moEnsureBucket :: bool

text \<open>
  \<open>NewMinIO\<close> in the steps other replicas can come between: the client is made, the bucket is asked for, and made when it
  was not there. Making a bucket that exists is an error of the store. Buckets are not deleted.
\<close>

datatype boot = BeforeClient | BeforeCheck | BeforeMake | Connected | BootFailed string

record bucket_world =
  bwBuckets :: "string set"
  bwReplica :: "nat \<Rightarrow> boot"

definition connected_or_check :: "minio_config \<Rightarrow> boot" where
  "connected_or_check cfg = (if moEnsureBucket cfg then BeforeCheck else Connected)"

definition NewMinIO_step :: "minio_config \<Rightarrow> bucket_world \<Rightarrow> nat \<times> string option \<Rightarrow> bucket_world" where
  "NewMinIO_step cfg w io = (case io of (i, err) \<Rightarrow>
     let go = (\<lambda>b. w\<lparr>bwReplica := (bwReplica w)(i := b)\<rparr>) in
     (case bwReplica w i of
        BeforeClient \<Rightarrow> go (case err of Some e \<Rightarrow> BootFailed (''minio client: '' @ e) | None \<Rightarrow> connected_or_check cfg)
      | BeforeCheck \<Rightarrow> go (case err of Some e \<Rightarrow> BootFailed (''bucket exists check: '' @ e)
          | None \<Rightarrow> if moBucket cfg \<in> bwBuckets w then Connected else BeforeMake)
      | BeforeMake \<Rightarrow> (case err of Some e \<Rightarrow> go (BootFailed (''create bucket: '' @ e))
          | None \<Rightarrow> if moBucket cfg \<in> bwBuckets w then go (BootFailed ''create bucket: BucketAlreadyOwnedByYou'')
              else (go Connected)\<lparr>bwBuckets := insert (moBucket cfg) (bwBuckets w)\<rparr>)
      | _ \<Rightarrow> w))"

definition bucket_there :: "minio_config \<Rightarrow> bucket_world \<Rightarrow> bool" where
  "bucket_there cfg w \<longleftrightarrow> (\<forall>i. bwReplica w i = Connected \<longrightarrow> moBucket cfg \<in> bwBuckets w)"

lemma bucket_there_step: "moEnsureBucket cfg \<Longrightarrow> bucket_there cfg w \<Longrightarrow> bucket_there cfg (NewMinIO_step cfg w io)"
  by (cases io) (auto simp: NewMinIO_step_def bucket_there_def connected_or_check_def Let_def split: boot.splits option.splits)

definition fresh_replicas :: "string set \<Rightarrow> bucket_world" where
  "fresh_replicas bs = \<lparr>bwBuckets = bs, bwReplica = \<lambda>_. BeforeClient\<rparr>"

text \<open>However many replicas start at once, one that has connected has its bucket.\<close>

theorem connected_replica_has_its_bucket:
  assumes "moEnsureBucket cfg" "w = foldl (NewMinIO_step cfg) (fresh_replicas bs) steps" "bwReplica w i = Connected"
  shows "moBucket cfg \<in> bwBuckets w"
proof -
  have "bucket_there cfg (foldl (NewMinIO_step cfg) w0 steps)" if "bucket_there cfg w0" for w0
    using that by (induction steps arbitrary: w0) (simp_all add: bucket_there_step [OF assms(1)])
  moreover have "bucket_there cfg (fresh_replicas bs)" by (simp add: bucket_there_def fresh_replicas_def)
  ultimately show ?thesis using assms(2,3) by (auto simp: bucket_there_def)
qed

text \<open>Of two replicas that both find no bucket, one makes it and the other fails to start, although the bucket is there.\<close>

lemma replicas_race_for_the_bucket:
  defines "cfg \<equiv> \<lparr>moBucket = ''submissions'', moEnsureBucket = True\<rparr>"
  shows "let w = foldl (NewMinIO_step cfg) (fresh_replicas {}) [(0, None), (1, None), (0, None), (1, None), (0, None), (1, None)]
     in bwReplica w 0 = Connected \<and> bwReplica w 1 = BootFailed ''create bucket: BucketAlreadyOwnedByYou'' \<and> ''submissions'' \<in> bwBuckets w"
  by (simp add: cfg_def NewMinIO_step_def fresh_replicas_def connected_or_check_def Let_def)

section \<open>Connection pools\<close>

datatype pool_event = PoolOpened | PoolClosed

text \<open>A constructor's error or resource, and what it did to the pool.\<close>

type_synonym 'a connecting = "(string + 'a) \<times> pool_event list"

text \<open>Both constructors; \<open>opened\<close>, \<open>ping\<close> and \<open>migrate\<close> are the outcomes of the calls of the pool.\<close>

definition NewPostgres :: "string option \<Rightarrow> string option \<Rightarrow> string option \<Rightarrow> string \<Rightarrow> string connecting" where
  "NewPostgres opened ping migrate dsn = (case opened of Some e \<Rightarrow> (Inl (''pgxpool: '' @ e), [])
     | None \<Rightarrow> (case ping of Some e \<Rightarrow> (Inl (''ping: '' @ e), [PoolOpened, PoolClosed])
       | None \<Rightarrow> (case migrate of Some e \<Rightarrow> (Inl (''migrate: '' @ e), [PoolOpened, PoolClosed])
         | None \<Rightarrow> (Inr dsn, [PoolOpened]))))"

definition NewTimescaleFromDSN :: "string option \<Rightarrow> string option \<Rightarrow> string \<Rightarrow> string connecting" where
  "NewTimescaleFromDSN opened ping dsn = (case opened of Some e \<Rightarrow> (Inl (''pgxpool: '' @ e), [])
     | None \<Rightarrow> (case ping of Some e \<Rightarrow> (Inl (''ping: '' @ e), [PoolOpened, PoolClosed]) | None \<Rightarrow> (Inr dsn, [PoolOpened])))"

definition open_pools :: "pool_event list \<Rightarrow> int" where
  "open_pools evs = int (count_list evs PoolOpened) - int (count_list evs PoolClosed)"

lemma failed_connect_leaves_nothing_open:
  "open_pools (snd (NewPostgres opened ping migrate dsn)) = (case fst (NewPostgres opened ping migrate dsn) of Inl e \<Rightarrow> 0 | Inr r \<Rightarrow> 1)"
  "open_pools (snd (NewTimescaleFromDSN opened ping dsn)) = (case fst (NewTimescaleFromDSN opened ping dsn) of Inl e \<Rightarrow> 0 | Inr r \<Rightarrow> 1)"
  by (simp_all add: NewPostgres_def NewTimescaleFromDSN_def open_pools_def split: option.splits)

section \<open>The cluster\<close>

datatype cluster_source = InCluster | KubeConfigFile string | DefaultRules

text \<open>
  The coordinator takes the file it is given, or else the configuration of the pod; the sandbox runner takes that of the pod
  first and falls back to the default files. \<open>config\<close> and \<open>client\<close> are the outcomes of the client library.
\<close>

definition NewK8sSpawner :: "(cluster_source \<Rightarrow> string option) \<Rightarrow> (cluster_source \<Rightarrow> string option) \<Rightarrow> string \<Rightarrow> string + cluster_source" where
  "NewK8sSpawner config client_error path = (let src = (if path \<noteq> '''' then KubeConfigFile path else InCluster) in
     case config src of Some e \<Rightarrow> Inl (''k8s config: '' @ e)
     | None \<Rightarrow> (case client_error src of Some e \<Rightarrow> Inl (''k8s client: '' @ e) | None \<Rightarrow> Inr src))"

definition buildClient :: "(cluster_source \<Rightarrow> string option) \<Rightarrow> (cluster_source \<Rightarrow> string option) \<Rightarrow> string + cluster_source" where
  "buildClient config client_error =
     (if config InCluster = None then (case client_error InCluster of Some e \<Rightarrow> Inl e | None \<Rightarrow> Inr InCluster)
      else (case config DefaultRules of Some e \<Rightarrow> Inl (''kubeconfig: '' @ e)
        | None \<Rightarrow> (case client_error DefaultRules of Some e \<Rightarrow> Inl e | None \<Rightarrow> Inr DefaultRules)))"

text \<open>Inside the cluster, with no file given, both use the configuration of their pod.\<close>

lemma pods_use_their_own_configuration:
  assumes "config InCluster = None" "client_error InCluster = None"
  shows "NewK8sSpawner config client_error [] = Inr InCluster" "buildClient config client_error = Inr InCluster"
  using assms by (simp_all add: NewK8sSpawner_def buildClient_def)

end
