(* ===== verification/Spec2Isabelle.thy ===== *)
theory Spec2Isabelle
  imports TelemetryPath Pipeline Gateway BotFleet BotEvents FixClient SubmissionHttp LiveFeed Services
    Lifecycle BuildWorker Delivery Routes FixSession Sharding Connections
begin

text \<open>
  A verification development of the IICPC trading platform: contestants upload an order book, the platform builds and
  sandboxes it, bots trade against it, and a leaderboard ranks the attempts by speed, throughput, correctness and
  stability. The Go code under \<open>src/\<close> is translated function by function; a definition has the name of
  its Go function, prefixed where two services use the same one. The properties are the theorems whose text begins
  with a claim number.

  \<^bold>\<open>The program and its theories.\<close> A path without \<open>services/\<close> or
  \<open>samples/\<close> is below \<open>src/services/\<close>.
  \<^item> Uploads enter through the gateway (\<open>api-gateway\<close>: \<open>Gateway\<close>) and are served by
    the submission service (\<open>submission-svc\<close>): \<open>SubmissionHttp\<close> has its middlewares, routes,
    configuration and image scanner, \<open>Submission\<close> the validation, queue, builders, handlers and object
    stores, \<open>SubmissionStore\<close> the two repositories, \<open>BuildLog\<close> the log buffer,
    \<open>BuildWorker\<close> the worker among uploads and a shutdown, \<open>Archive\<close> the unpacking of
    archives and the keys of objects.
  \<^item> The sandbox runner (\<open>sandbox-runner\<close>: \<open>Sandbox\<close>) turns an image into a hardened
    pod and counts crashes.
  \<^item> The coordinator (\<open>bot-coordinator\<close>: \<open>Coordinator\<close>) turns a benchmark into a
    Kubernetes job of bots; \<open>BotFleet\<close> is how a bot reads its environment and what it sets up,
    \<open>BotGen\<close> the order generator, arrivals, latency recorder and clock probe, \<open>BotWorker\<close>
    the REST client and the worker loop, \<open>BotEvents\<close> what the loop reports and the WebSocket client,
    \<open>FixClient\<close> the FIX client and \<open>FixSession\<close> its session (\<open>bot-worker\<close>).
  \<^item> Telemetry is the event of \<open>proto/gen/go/telemetry/v1\<close> (\<open>Telemetry\<close>), sent by the
    emitter of the bot through the ingester (\<open>telemetry-ingester\<close>: \<open>TelemetryIngest\<close>) to a
    topic that the aggregator and the validator consume.
  \<^item> The aggregator (\<open>aggregator\<close>: \<open>Windowing\<close>) keeps latency windows and whole-run
    metrics; \<open>MetricsApi\<close> has the consumers, writers and query handlers of aggregator and validator.
  \<^item> The validator (\<open>validator\<close>: \<open>Book\<close>, \<open>Validator\<close>) replays each run on
    a reference book and compares fills.
  \<^item> The leaderboard (\<open>leaderboard-svc\<close>): \<open>Score\<close>, \<open>Hub\<close>,
    \<open>Leaderboard\<close> (fetching, the scoring tick, both stores, seeder, handlers) and \<open>LiveFeed\<close>
    (ticks and viewers interleaved).
  \<^item> \<open>Engine\<close> and \<open>ReferenceServer\<close> are the reference contestant
    (\<open>samples/reference-orderbook\<close>) on binary heaps (\<open>GoHeap\<close>, container/heap), and
    \<open>EngineRefinement\<close> relates it to the validator's book.
  \<^item> \<open>Services\<close> is what the other \<open>main.go\<close> files choose, \<open>Lifecycle\<close> how
    every \<open>main\<close> starts and stops its goroutines, \<open>Routes\<close> the route tables of all services
    and the gateway's access log, \<open>Delivery\<close> a consumer group over crashes and rebalances,
    \<open>Sharding\<close> the partitions of the topic shared by the consumers of a group, \<open>Connections\<close>
    object stores, connection pools and the cluster configuration. \<open>Conformance\<close>,
    \<open>TelemetryPath\<close>, \<open>Pipeline\<close> and this theory join the parts: bot, contestant and
    validator; emitter, ingester, topic and consumer; aggregator, validator and leaderboard; build, sandbox and crash
    penalty; gateway and submission service.
  \<^item> \<open>Prelude\<close> has 64-bit arithmetic, map iteration and shared lemmas; \<open>GoFloat\<close>,
    \<open>GoTime\<close>, \<open>GoChan\<close>, \<open>GoStrings\<close> and \<open>GoHttp\<close> model what the
    code uses of the language and its standard library.

  \<^bold>\<open>State and effects.\<close> A struct is a record, and an operation returns the new one. An
  \<open>int\<close> or \<open>int64\<close> is an integer with its wrap-around written out (\<open>wrap64\<close>); a
  \<open>float64\<close> is a rational, an infinity or not-a-number, with every operation rounded to nearest even
  (\<open>GoFloat\<close>). A pointer to an order is an address into a store. A Go map is a partial function; the
  order a \<open>range\<close> visits it in is a list argument that \<open>enumerates\<close> its keys, so a theorem
  holds for every order. A panic is \<open>None\<close>, an error a sum. A mutex makes an operation one step; where
  goroutines interleave (FIX session, telemetry buffer, hub, live feed) the steps are an operation type or an
  inductive relation and the invariants are proved over every reachable state. The clock, random draws and the outcome
  of I/O are arguments.

  \<^bold>\<open>Interfaces.\<close> The locales are the contracts between parts, each interpreted on the code's own
  definitions: bounded queues (client channels, telemetry buffer, build queue), the keyed state of events of one run
  (validator, aggregator, crash tracker), repositories, object stores, spawners, best-of stores, order clients with
  fresh ids, price-time priority queues.

  \<^bold>\<open>What the lemmas show.\<close> Book and engine: price-time priority, fills of the reachable liquidity,
  structural invariants, and that the engine over REST is scored without a mismatch. Validator: verdicts depend on
  their own run and count what they say. Aggregator: whole-run metrics equal those of one histogram. Leaderboard:
  attempts are scored from their own rows, the best counts, the Redis script simulates the memory store, scores lie
  between 0 and 1000 and are monotone, viewers see boards in order. Telemetry: accepted events are published once and
  in order and a graceful shutdown loses none and never panics. No message of the topic is skipped by a consumer
  group, and validators that share its partitions judge as one would. Bots: orders within bounds, events well formed,
  FIX reports reach their call. Processes: every \<open>main\<close> ends after a signal, and which of them use
  nothing after closing it. Gateway: authentication, the limiter and its key. Submission: uploads stored and queued,
  builds settled, unpacking confined, the secret not evaded, a shutdown leaves no build half done. Sandbox and
  coordinator: hardened pods, crash sums, running benchmarks.

  \<^bold>\<open>Bounds and termination.\<close> No definition uses fuel. Loops that are not structural are functions
  with a measure: the matching loops by the orders left, heap sifting by the index, the push loop by the attempts
  left, the sorting loops by the range. Bounds in hypotheses are the sizes at which a counter would wrap (2^62 events)
  or an integer leave the exact floats (2^53).

  \<^bold>\<open>Parameters and hypotheses.\<close> Code outside the repository is an argument with its documented
  behaviour as hypotheses: the HDR histogram (\<open>hdr_laws\<close>), Redis (\<open>redis_laws\<close>), the
  Kubernetes batch API (\<open>batch_laws\<close>) and core API, base64, JSON and HMAC of tokens
  (\<open>base64_laws\<close>), protobuf encoding (a round trip), number and duration parsing, docker and trivy. Each
  has a concrete instance that satisfies it. \<open>TrimSpace\<close> and case folding are those of ASCII text.

  \<^bold>\<open>Not modelled.\<close> Sockets and listening beyond their outcome; the reverse proxy; the Kafka,
  Postgres, MinIO, Redis and Kubernetes connections; docker itself; the quickfix initiator; logging other than the
  build log and the access logs; generated protobuf and gRPC code other than the telemetry event. Of a
  \<open>main\<close> the model keeps the order of opening, starting, waiting and closing, and of a goroutine what it
  uses and what ends it.
\<close>

section \<open>From the gateway to the submission service\<close>

text \<open>
  The gateway forwards the secret header of a request only as the client sent it, and sets none of its own: with a
  secret configured, a request it lets through is refused by the service unless the client knew the secret.
  \<open>fwd\<close> is the reverse proxy, which may drop the header but not make one up.
\<close>

lemma gateway_supplies_no_secret:
  assumes "gw_handle P cfg rd now fresh r il = (il', rid, GwForward r')"
    and "hqHeader (fwd r') ''X-Internal-Token'' \<in> {[], gqInternalToken r'}" "hqPath (fwd r') \<noteq> ''/healthz''"
    and "ssInternalToken srv \<noteq> []" "gqInternalToken r \<noteq> ssInternalToken srv"
    and "sub_Handler srv d sv (fwd r') = (sv', ops, ls)"
  shows "sent_status ops = 401 \<and> sv' = sv"
proof -
  have "gqInternalToken r' = gqInternalToken r" by (rule forwarded_internal_token [OF assms(1)])
  then have "\<not> InternalToken (ssInternalToken srv) (hqPath (fwd r')) (hqHeader (fwd r') ''X-Internal-Token'')"
    using assms(2-5) by (auto simp: InternalToken_def)
  then show ?thesis using handled_request [OF assms(6)] by blast
qed

section \<open>From the build to the score\<close>

text \<open>What the leaderboard decodes of the crash report.\<close>

definition crash_row :: "CrashCount \<Rightarrow> CrashReport" where
  "crash_row r = \<lparr>crContestantID = ccContestantID r, crSubmissionID = ccSubmissionID r, crCrashes = ccCrashes r\<rparr>"

lemma find_only:
  assumes "\<forall>x \<in> set xs. P x \<longrightarrow> x = y" "y \<in> set xs" "P y"
  shows "find P xs = Some y"
proof -
  obtain x where x: "find P xs = Some x" using assms(2,3) by (cases "find P xs") (auto simp: find_None_iff)
  then have "x \<in> set xs \<and> P x" by (auto simp: find_Some_iff)
  with assms(1) x show ?thesis by simp
qed

lemma own_crashes_of_report:
  assumes "b \<noteq> []" "enumerates ks (ctPods t)" "enumerates os (crash_sums ks t)"
    and "\<forall>n pc. ctPods t n = Some pc \<longrightarrow> pcSubmissionID pc = b \<longrightarrow> pcContestantID pc = c"
  shows "own_crashes b (map crash_row (crash_report ks os t)) = wrap64 (\<Sum>n \<in> pods_of t (c, b). pcCrashes (the (ctPods t n)))"
proof -
  let ?rows = "map crash_row (crash_report ks os t)"
  have mem: "r \<in> set (crash_report ks os t) \<longleftrightarrow> crash_sums ks t (ccContestantID r, ccSubmissionID r) = Some (ccCrashes r)" for r
    using crash_report_mem [OF assms(3), of "ccContestantID r" "ccSubmissionID r" "ccCrashes r"] by (cases r) simp
  have only: "x = crash_row \<lparr>ccContestantID = c, ccSubmissionID = b, ccCrashes = n\<rparr>"
    if x: "x \<in> set ?rows" "crSubmissionID x = b" and n: "crash_sums ks t (c, b) = Some n" for x n
  proof -
    from x(1) obtain r where r: "x = crash_row r" "crash_sums ks t (ccContestantID r, ccSubmissionID r) = Some (ccCrashes r)" by (auto simp: mem)
    then have b: "ccSubmissionID r = b" using x(2) by (simp add: crash_row_def)
    from r(2) obtain m pc where "ctPods t m = Some pc" "crash_key pc = (ccContestantID r, b)"
      using b by (auto simp: crash_sums_eq [OF assms(2)] pods_of_def split: if_splits)
    then have "ccContestantID r = c" using assms(4) by (auto simp: crash_key_def)
    with r b n show ?thesis by (simp add: crash_row_def)
  qed
  show ?thesis
  proof (cases "pods_of t (c, b) = {}")
    case True
    have "crSubmissionID x \<noteq> b" if "x \<in> set ?rows" for x
    proof
      assume "crSubmissionID x = b"
      with that obtain d n where "crash_sums ks t (d, b) = Some n" by (auto simp: mem crash_row_def)
      then obtain m pc where "ctPods t m = Some pc" "crash_key pc = (d, b)"
        by (auto simp: crash_sums_eq [OF assms(2)] pods_of_def split: if_splits)
      then show False using assms(4) True by (auto simp: crash_key_def pods_of_def)
    qed
    then have "find (\<lambda>x. crSubmissionID x = b) (rev ?rows) = None" by (auto simp: find_None_iff)
    then show ?thesis using True by (simp add: own_crashes_def wrap64_def)
  next
    case False
    let ?n = "wrap64 (\<Sum>n \<in> pods_of t (c, b). pcCrashes (the (ctPods t n)))"
    let ?y = "crash_row \<lparr>ccContestantID = c, ccSubmissionID = b, ccCrashes = ?n\<rparr>"
    have s: "crash_sums ks t (c, b) = Some ?n" using False by (simp add: crash_sums_eq [OF assms(2)])
    have "\<lparr>ccContestantID = c, ccSubmissionID = b, ccCrashes = ?n\<rparr> \<in> set (crash_report ks os t)" using s by (simp add: mem)
    then have "?y \<in> set ?rows" by simp
    then have y: "?y \<in> set (rev ?rows)" by (simp only: set_rev)
    have "\<forall>x \<in> set (rev ?rows). crSubmissionID x = b \<longrightarrow> x = ?y" using only [OF _ _ s] unfolding set_rev by blast
    from find_only [OF this y] have "find (\<lambda>x. crSubmissionID x = b) (rev ?rows) = Some ?y" by (simp add: crash_row_def)
    then show ?thesis by (simp add: own_crashes_def crash_row_def)
  qed
qed

text \<open>C16: The crashes the leaderboard charges an attempt are those of the attempt's own pods: the sum, over the pods labelled with the
  submission, of the crash count of the latest event seen of each, and none if there is no such pod.\<close>

theorem attempt_is_charged_its_own_crashes:
  assumes "b \<noteq> []" "t = WatchCrashes answers NewCrashTracker" "enumerates ks (ctPods t)" "enumerates os (crash_sums ks t)"
    and "\<forall>n pod. latest_pod (all_seen answers) n = Some pod \<longrightarrow> label_of pod ''submission-id'' = b \<longrightarrow> label_of pod ''contestant-id'' = c"
  shows "own_crashes b (map crash_row (crash_report ks os t)) =
     wrap64 (\<Sum>n | \<exists>pod. latest_pod (all_seen answers) n = Some pod \<and> label_of pod ''submission-id'' = b.
       crash_count (the (latest_pod (all_seen answers) n)))"
proof -
  have pods: "ctPods t n = map_option pod_crash (latest_pod (all_seen answers) n)" for n by (simp add: assms(2) tracker_pods)
  have own: "label_of pod ''contestant-id'' = c" if "latest_pod (all_seen answers) n = Some pod" "label_of pod ''submission-id'' = b" for n pod
    using assms(5) that by blast
  have "n \<in> pods_of t (c, b) \<longleftrightarrow> (\<exists>pod. latest_pod (all_seen answers) n = Some pod \<and> label_of pod ''submission-id'' = b)" for n
    using own [of n] by (cases "latest_pod (all_seen answers) n") (simp_all add: pods_of_def pods crash_key_def pod_crash_def, blast)
  then have p: "pods_of t (c, b) = {n. \<exists>pod. latest_pod (all_seen answers) n = Some pod \<and> label_of pod ''submission-id'' = b}" by blast
  have "pcContestantID pc = c" if "ctPods t n = Some pc" "pcSubmissionID pc = b" for n pc
    using own [of n] that by (cases "latest_pod (all_seen answers) n") (auto simp: pods pod_crash_def)
  then have "\<forall>n pc. ctPods t n = Some pc \<longrightarrow> pcSubmissionID pc = b \<longrightarrow> pcContestantID pc = c" by blast
  from own_crashes_of_report [OF assms(1,3,4) this] show ?thesis
    unfolding p by (simp only: pods) (intro arg_cong [where f = wrap64] sum.cong, auto simp: pod_crash_def)
qed

theorem attempt_is_charged_its_own_crashes_witness:
  "\<exists>ks os. own_crashes ''s1'' (map crash_row (crash_report ks os (WatchCrashes crash_history NewCrashTracker))) = 3"
proof -
  let ?t = "WatchCrashes crash_history NewCrashTracker"
  have t: "ctPods ?t = [''p1'' \<mapsto> \<lparr>pcContestantID = ''alice'', pcSubmissionID = ''s1'', pcCrashes = 1\<rparr>,
      ''p2'' \<mapsto> \<lparr>pcContestantID = ''alice'', pcSubmissionID = ''s1'', pcCrashes = 2\<rparr>]"
    by (rule ext) (simp add: crash_history_def WatchCrashes_def watchCrashesOnce_def pod_event_def observe_pod_eq tracked_name_def
        label_of_def pod_crash_def crash_count_def NewCrashTracker_def wrap64_def)
  have ks: "enumerates [''p2'', ''p1''] (ctPods ?t)" by (auto simp: enumerates_def t)
  have "crash_sums [''p2'', ''p1''] ?t = [(''alice'', ''s1'') \<mapsto> 3]" by (simp add: crash_sums_def t add_crash_def crash_key_def wrap64_def)
  then have os: "enumerates [(''alice'', ''s1'')] (crash_sums [''p2'', ''p1''] ?t)" by (simp add: enumerates_def)
  have seen: "all_seen crash_history = map (\<lambda>e. case e of PodEvent p \<Rightarrow> p)
      [pod_event ''p1'' ''s1'' ''Running'' [0], pod_event ''p2'' ''s1'' ''Running'' [2], pod_event ''p1'' ''s1'' ''Failed'' [0]]"
    by (simp add: all_seen_def crash_history_def pod_event_def)
  have own: "\<forall>n pod. latest_pod (all_seen crash_history) n = Some pod \<longrightarrow> label_of pod ''submission-id'' = ''s1'' \<longrightarrow> label_of pod ''contestant-id'' = ''alice''"
    by (auto simp: seen latest_pod_def find_Some_iff pod_event_def label_of_def nth_Cons split: nat.splits)
  have set: "{n. \<exists>pod. latest_pod (all_seen crash_history) n = Some pod \<and> label_of pod ''submission-id'' = ''s1''} = {''p1'', ''p2''}"
    by (auto simp: seen latest_pod_def pod_event_def label_of_def tracked_name_def split: if_splits)
  have "own_crashes ''s1'' (map crash_row (crash_report [''p2'', ''p1''] [(''alice'', ''s1'')] ?t)) = 3"
    using attempt_is_charged_its_own_crashes [OF _ refl ks os own] unfolding set
    by (simp add: seen latest_pod_def pod_event_def label_of_def tracked_name_def crash_count_def wrap64_def)
  then show ?thesis by blast
qed

lemma spawned_from_request:
  assumes "RunSandbox api parse cfg req w = Some (Inr resp, w')"
  shows "\<exists>spec created w1. podSpec parse cfg (rrSubmissionId req) (rrContestantId req) (rrImageUri req)
       (if rrRuntimePort req = 0 then 9100 else rrRuntimePort req) = Some spec
     \<and> kCreate api (rcNamespace cfg) spec w = (Inr created, w1)"
proof -
  from RunSandbox_Inr [OF assms refl] obtain h where "Spawn api parse cfg (rrSubmissionId req) (rrContestantId req) (rrImageUri req)
      (if rrRuntimePort req = 0 then 9100 else rrRuntimePort req) w = Some (Inr h, w')" by blast
  from Spawn_Inr [OF this] show ?thesis by blast
qed

lemma sandbox_call_of_ready_build:
  assumes "repository repo ok" "rpGet repo i s = Some sub" "bk_process repo b has_sandbox env clk i s = (s', [call], logs)"
  shows "\<exists>sub'. rpGet repo i s' = Some sub' \<and> sbStatus sub' = StatusReady \<and> call = (i, sbContestantID sub, sbImageURI sub')"
proof (cases "runBuild b env sub")
  case (Inl err)
  then show ?thesis using bk_process_known [OF assms] by simp
next
  case (Inr ref)
  then show ?thesis using bk_process_known [OF assms] runBuild_Inr [OF Inr] by (auto split: if_splits)
qed

text \<open>C17: What runs is what was built: when a job ends with a call to the sandbox and the runner reports it as running, the
  pod was created from the image the submission is ready with, hardened, under the labels of the submission and its contestant,
  so that the crashes of that pod are counted for exactly this submission.\<close>

theorem built_image_runs_under_its_submission:
  assumes "repository repo ok" "rpGet repo i s = Some sub" "sbContestantID sub \<noteq> []"
    and "bk_process repo b has_sandbox env clk i s = (s', [call], logs)"
    and "RunSandbox api parse cfg (grpc_request call) w = Some (Inr resp, w')"
  shows "\<exists>sub' spec created w1. rpGet repo i s' = Some sub' \<and> sbStatus sub' = StatusReady
     \<and> kCreate api (rcNamespace cfg) spec w = (Inr created, w1) \<and> hardened spec
     \<and> map coImage (poContainers spec) = [sbImageURI sub']
     \<and> (\<forall>pod. pvLabels pod = poLabels spec \<longrightarrow> podCrashes pod = Some (sbContestantID sub, i, crash_count pod))"
proof -
  from sandbox_call_of_ready_build [OF assms(1,2,4)] obtain sub' where sub': "rpGet repo i s' = Some sub'" "sbStatus sub' = StatusReady"
    "call = (i, sbContestantID sub, sbImageURI sub')" by blast
  from spawned_from_request [OF assms(5)] obtain spec created w1 where sp:
    "podSpec parse cfg i (sbContestantID sub) (sbImageURI sub') 9100 = Some spec" "kCreate api (rcNamespace cfg) spec w = (Inr created, w1)"
    by (auto simp: sub'(3) grpc_request_def)
  note f = podSpec_facts [OF sp(1)]
  have "podCrashes pod = Some (sbContestantID sub, i, crash_count pod)" if "pvLabels pod = poLabels spec" for pod
    using f(4,5) that assms(3) by (simp add: podCrashes_def label_of_def crash_count_def restarts_sum Let_def)
  with sub' sp(2) f(1,7) show ?thesis by (intro exI [of _ sub'] exI [of _ spec] exI [of _ created] exI [of _ w1]) simp
qed

theorem built_image_runs_under_its_submission_witness:
  "\<exists>s' logs sub'. bk_process memory_repo sample_kit True smooth_env \<lparr>jcBuilding = 8, jcFinal = 9\<rparr> ''s1'' known_store =
       (s', [(''s1'', ''alice'', ''localhost:5000/contestants/s1:latest'')], logs)
     \<and> rpGet memory_repo ''s1'' s' = Some sub' \<and> sbStatus sub' = StatusReady"
proof -
  let ?call = "(''s1'', ''alice'', ''localhost:5000/contestants/s1:latest'')"
  have g: "rpGet memory_repo ''s1'' known_store = Some stored_upload" by (simp add: memory_repo_def mem_Get_def known_store_def)
  have c: "sbContestantID stored_upload = ''alice''" by (simp add: stored_upload_def new_submission_def sample_upload_def)
  obtain s' calls logs where p: "bk_process memory_repo sample_kit True smooth_env \<lparr>jcBuilding = 8, jcFinal = 9\<rparr> ''s1'' known_store = (s', calls, logs)"
    by (metis prod_cases3)
  have calls: "calls = [?call]" using bk_process_known [OF mem.repository_axioms g p] smooth_build c by simp
  have r: "RunSandbox fake_api Some fake_config (grpc_request ?call) 0 =
      Some (Inr \<lparr>rsRunId = ''contestant-s1'', rsPodIp = ''10.0.0.7'', rsRuntimePort = 9100, rsPhase = SANDBOX_PHASE_RUNNING\<rparr>, 1)"
    by (simp add: RunSandbox_def grpc_request_def Spawn_def podSpec_def parse_resources_def fake_api_def waitReady_def
        pod_event_def isPodReady_def podName_def toProtoPhase_def)
  from built_image_runs_under_its_submission [OF mem.repository_axioms g _ p [unfolded calls] r] p calls c show ?thesis by auto
qed

end
